(* ===== verification/Mukrn_Prelude.thy ===== *)
theory Mukrn_Prelude
  imports Main "HOL-Library.Word"
begin

text \<open>
  Shared vocabulary of the development: the machine integers of \<^verbatim>\<open>kernel/include/io.h\<close>,
  C's conversions between them, a byte-addressed physical memory with the little-endian
  accesses the kernel performs on it, the outcomes an operation can have other than returning,
  and the page-stepping loop (\<^verbatim>\<open>for (v = start; v < end; v += 4096)\<close>) that six
  operations of \<^verbatim>\<open>kernel/task.c\<close> and \<^verbatim>\<open>kernel/pmm.c\<close> share.
  The lemmas are the ones about alignment, memory frames and loops that the component
  theories use.
\<close>

unbundle bit_operations_syntax

named_theorems mem_simps \<open>what a memory read sees after a memory write\<close>
named_theorems frame_simps \<open>record fields an operation leaves alone\<close>

section \<open>Machine integers\<close>

type_synonym u8 = "8 word"
type_synonym u16 = "16 word"
type_synonym u32 = "32 word"
type_synonym u64 = "64 word"

text \<open>
  A C \<^verbatim>\<open>int\<close> is an \<open>int\<close>. Storing a 64-bit value into one keeps the low 32 bits and
  reads them as two's complement; widening an \<^verbatim>\<open>int\<close> back to \<^verbatim>\<open>u64\<close> sign-extends it.
\<close>

definition u64_to_int :: "u64 \<Rightarrow> int" where
  "u64_to_int v = sint (ucast v :: u32)"

definition u32_to_int :: "u32 \<Rightarrow> int" where
  "u32_to_int v = sint v"

definition int_to_u64 :: "int \<Rightarrow> u64" where
  "int_to_u64 i = word_of_int i"

lemma u64_to_int_small:
  assumes "v < 0x80000000"
  shows "u64_to_int v = uint v"
proof -
  have u: "uint v < 2 ^ 31"
    using assms by (simp add: word_less_def)
  have t: "take_bit 32 (uint v) = uint v"
    using u by (simp add: take_bit_int_eq_self_iff)
  have "uint (ucast v :: u32) = uint v"
    by (simp add: unsigned_ucast_eq t)
  then show ?thesis
    using u order_trans[of "- (2 ^ 31)" 0 "uint v"]
    by (simp add: u64_to_int_def sint_uint signed_take_bit_int_eq_self_iff)
qed

lemma int_to_u64_minus_one: "int_to_u64 (- 1) = 0xFFFFFFFFFFFFFFFF"
  by (simp add: int_to_u64_def)

lemma int_to_u64_of_small:
  "v < 0x80000000 \<Longrightarrow> int_to_u64 (u64_to_int v) = v"
  by (simp add: u64_to_int_small int_to_u64_def)

lemma unat_less_2p64: "unat (v :: u64) < 18446744073709551616"
  using unsigned_less[of v, where 'a = nat] by simp

lemma unat_ucast_u32: "unat (ucast (w :: u32) :: u64) = unat w"
  using unsigned_less[of w, where 'a = nat]
  by (simp add: unsigned_ucast_eq take_bit_nat_eq_self_iff)

section \<open>Alignment\<close>

abbreviation PAGE_MASK :: u64 where
  "PAGE_MASK \<equiv> 0xFFF"

definition page_of :: "u64 \<Rightarrow> u64" where
  "page_of a = a AND NOT PAGE_MASK"

definition page_aligned :: "u64 \<Rightarrow> bool" where
  "page_aligned a \<longleftrightarrow> a AND PAGE_MASK = 0"

definition aligned8 :: "u64 \<Rightarrow> bool" where
  "aligned8 a \<longleftrightarrow> a AND 7 = 0"

lemma and_mask_clear:
  fixes a m :: u64
  assumes "a AND m = 0"
  shows "a AND NOT m = a"
proof (rule bit_word_eqI)
  fix i assume "i < LENGTH(64)"
  moreover have "\<not> bit (a AND m) i" using assms by simp
  ultimately show "bit (a AND NOT m) i = bit a i"
    by (auto simp: bit_and_iff bit_not_iff)
qed

text \<open>The two granularities, a word of 8 bytes and a page of 4096, share one argument.\<close>

lemma add_low_bits:
  fixes p x :: u64
  assumes "p AND mask n = 0" and "x AND NOT (mask n) = 0"
  shows "(p + x) AND NOT (mask n) = p" and "(p + x) AND mask n = x"
proof -
  have px: "p AND x = 0"
  proof (rule bit_word_eqI)
    fix i assume "i < LENGTH(64)"
    have "\<not> bit (p AND mask n) i" "\<not> bit (x AND NOT (mask n)) i"
      using assms by simp_all
    with \<open>i < LENGTH(64)\<close> show "bit (p AND x) i = bit 0 i"
      by (auto simp: bit_and_iff bit_not_iff bit_mask_iff)
  qed
  have "(p AND x) + (p OR x) = p + x"
    by (rule word_plus_and_or)
  with px have sum: "p + x = p OR x" by simp
  have pm: "p AND NOT (mask n) = p"
    using assms(1) by (rule and_mask_clear)
  have xm: "x AND mask n = x"
    using and_mask_clear[OF assms(2)] by simp
  show "(p + x) AND NOT (mask n) = p" "(p + x) AND mask n = x"
    using assms pm xm by (simp_all add: sum bit.conj_disj_distrib2)
qed

lemma less_high_bits:
  fixes x :: u64
  assumes "unat x < 2 ^ n"
  shows "x AND NOT (mask n) = 0"
proof -
  have "take_bit n x = x"
    using assms by (simp add: word_unat_eq_iff unsigned_take_bit_eq take_bit_nat_eq_self_iff)
  then have "x AND mask n = x"
    by (simp add: take_bit_eq_mask)
  then have "x AND NOT (mask n) = (x AND mask n) AND NOT (mask n)" by simp
  then show ?thesis by (simp add: and.assoc)
qed

lemma page_mask_mask: "PAGE_MASK = mask 12" and word_mask_mask: "(7::u64) = mask 3"
  by (simp_all add: mask_eq_exp_minus_1)

lemma page_of_add [mem_simps]:
  "page_aligned p \<Longrightarrow> x < 4096 \<Longrightarrow> page_of (p + x) = p"
  using add_low_bits(1)[of p 12 x] less_high_bits[of x 12]
  by (simp add: page_of_def page_aligned_def page_mask_mask word_less_nat_alt)

lemma page_of_aligned [mem_simps]: "page_aligned p \<Longrightarrow> page_of p = p"
  using page_of_add[of p 0] by simp

lemma page_of_page_aligned [simp]: "page_aligned (page_of a)"
  by (simp add: page_aligned_def page_of_def and.assoc)

lemma page_aligned_0 [simp]: "page_aligned 0"
  by (simp add: page_aligned_def)

lemma page_aligned_aligned8: "page_aligned a \<Longrightarrow> aligned8 a"
proof -
  assume "page_aligned a"
  then have "(a AND 0xFFF) AND 7 = 0" by (simp add: page_aligned_def)
  then show ?thesis by (simp add: aligned8_def and.assoc)
qed

lemma aligned8_base:
  "aligned8 a \<Longrightarrow> x < 8 \<Longrightarrow> (a + x) AND NOT 7 = a"
  using add_low_bits(1)[of a 3 x] less_high_bits[of x 3]
  by (simp add: aligned8_def word_mask_mask word_less_nat_alt)

lemma aligned8_disjoint:
  assumes "aligned8 a" "aligned8 b" "a \<noteq> b" "x < 8" "y < 8"
  shows "a + x \<noteq> b + y"
  using aligned8_base[of a x] aligned8_base[of b y] assms by metis

lemma and_mask_dvd:
  fixes a :: u64
  assumes "n < 64"
  shows "a AND mask n = 0 \<longleftrightarrow> 2 ^ n dvd unat a"
proof -
  have "unat (a AND mask n) = unat a mod 2 ^ n"
    by (simp only: take_bit_eq_mask[symmetric] unsigned_take_bit_eq) (simp add: take_bit_eq_mod)
  then show ?thesis
    by (simp add: word_unat_eq_iff dvd_eq_mod_eq_0)
qed

lemma aligned8_dvd: "aligned8 a \<longleftrightarrow> 8 dvd unat a"
  using and_mask_dvd[of 3 a] by (simp add: aligned8_def word_mask_mask)

lemma page_aligned_dvd: "page_aligned a \<longleftrightarrow> 4096 dvd unat a"
  using and_mask_dvd[of 12 a] by (simp add: page_aligned_def page_mask_mask)

lemma dvd_unat_add:
  fixes a b :: u64
  assumes "d dvd unat a" "d dvd unat b" "d dvd 2 ^ 64"
  shows "d dvd unat (a + b)"
  using assms by (simp add: unat_word_ariths dvd_mod)

lemma aligned8_add: "aligned8 a \<Longrightarrow> aligned8 b \<Longrightarrow> aligned8 (a + b)"
  using dvd_unat_add[of 8 a b] by (simp add: aligned8_dvd)

lemma page_aligned_add: "page_aligned a \<Longrightarrow> page_aligned b \<Longrightarrow> page_aligned (a + b)"
  using dvd_unat_add[of 4096 a b] by (simp add: page_aligned_dvd)

lemma aligned8_times8: "aligned8 (8 * x)"
  by (simp add: aligned8_dvd unat_word_ariths dvd_mod)

section \<open>Byte sequences\<close>

text \<open>Little-endian values of a given width.\<close>

primrec le_word :: "u8 list \<Rightarrow> 'w::len word" where
  "le_word [] = 0"
| "le_word (b # bs) = ucast b OR push_bit 8 (le_word bs)"

primrec le_bytes :: "nat \<Rightarrow> 'w::len word \<Rightarrow> u8 list" where
  "le_bytes 0 v = []"
| "le_bytes (Suc n) v = ucast v # le_bytes n (drop_bit 8 v)"

lemma length_le_bytes [simp]: "length (le_bytes n v) = n"
  by (induction n arbitrary: v) simp_all

lemma le_word_bytes:
  fixes v :: "'w::len word"
  shows "le_word (le_bytes n v) = take_bit (8 * n) v"
proof (induction n arbitrary: v)
  case 0
  then show ?case by simp
next
  case (Suc n)
  show ?case
    unfolding le_bytes.simps le_word.simps Suc
    by (rule bit_word_eqI)
      (auto simp: bit_or_iff bit_push_bit_iff bit_take_bit_iff bit_unsigned_iff bit_drop_bit_eq
        dest: bit_imp_le_length)
qed

section \<open>Physical memory\<close>

text \<open>
  Memory is a function from byte addresses to bytes. The kernel reaches page tables, free
  pages, saved frames and the E820 map through pointers that are physical addresses, because
  the boot page tables identity-map the first gigabyte; those accesses are \<open>read64\<close>,
  \<open>write64\<close> and their narrower kin, little-endian as on x86-64.
\<close>

type_synonym memory = "u64 \<Rightarrow> u8"

definition read16 :: "memory \<Rightarrow> u64 \<Rightarrow> u16" where
  "read16 m a = ucast (m a) OR push_bit 8 (ucast (m (a + 1)))"

definition read32 :: "memory \<Rightarrow> u64 \<Rightarrow> u32" where
  "read32 m a =
     ucast (m a) OR push_bit 8 (ucast (m (a + 1)))
     OR push_bit 16 (ucast (m (a + 2))) OR push_bit 24 (ucast (m (a + 3)))"

definition read64 :: "memory \<Rightarrow> u64 \<Rightarrow> u64" where
  "read64 m a =
     ucast (m a) OR push_bit 8 (ucast (m (a + 1))) OR push_bit 16 (ucast (m (a + 2)))
     OR push_bit 24 (ucast (m (a + 3))) OR push_bit 32 (ucast (m (a + 4)))
     OR push_bit 40 (ucast (m (a + 5))) OR push_bit 48 (ucast (m (a + 6)))
     OR push_bit 56 (ucast (m (a + 7)))"

definition write16 :: "u64 \<Rightarrow> u16 \<Rightarrow> memory \<Rightarrow> memory" where
  "write16 a v m = m(a := ucast v, a + 1 := ucast (drop_bit 8 v))"

definition write32 :: "u64 \<Rightarrow> u32 \<Rightarrow> memory \<Rightarrow> memory" where
  "write32 a v m = m(a := ucast v, a + 1 := ucast (drop_bit 8 v),
     a + 2 := ucast (drop_bit 16 v), a + 3 := ucast (drop_bit 24 v))"

definition write64 :: "u64 \<Rightarrow> u64 \<Rightarrow> memory \<Rightarrow> memory" where
  "write64 a v m = m(a := ucast v, a + 1 := ucast (drop_bit 8 v),
     a + 2 := ucast (drop_bit 16 v), a + 3 := ucast (drop_bit 24 v),
     a + 4 := ucast (drop_bit 32 v), a + 5 := ucast (drop_bit 40 v),
     a + 6 := ucast (drop_bit 48 v), a + 7 := ucast (drop_bit 56 v))"

lemma bit_byte_shifted:
  "bit (push_bit k (ucast (ucast (drop_bit k v) :: u8)) :: u64) n \<longleftrightarrow>
     k \<le> n \<and> n < k + 8 \<and> n < 64 \<and> bit v n"
  by (auto simp: bit_push_bit_iff bit_unsigned_iff bit_drop_bit_eq dest: bit_imp_le_length)

lemma bit_byte_low: "bit (ucast (ucast v :: u8) :: u64) n \<longleftrightarrow> n < 8 \<and> bit (v::u64) n"
  by (auto simp: bit_unsigned_iff)

lemma bytes_of_word:
  "ucast (ucast v :: u8) OR push_bit 8 (ucast (ucast (drop_bit 8 v) :: u8))
     OR push_bit 16 (ucast (ucast (drop_bit 16 v) :: u8))
     OR push_bit 24 (ucast (ucast (drop_bit 24 v) :: u8))
     OR push_bit 32 (ucast (ucast (drop_bit 32 v) :: u8))
     OR push_bit 40 (ucast (ucast (drop_bit 40 v) :: u8))
     OR push_bit 48 (ucast (ucast (drop_bit 48 v) :: u8))
     OR push_bit 56 (ucast (ucast (drop_bit 56 v) :: u8)) = (v :: u64)"
proof (rule bit_word_eqI)
  fix n :: nat
  assume "n < LENGTH(64)"
  then consider "n < 8" | "8 \<le> n" "n < 16" | "16 \<le> n" "n < 24" | "24 \<le> n" "n < 32"
    | "32 \<le> n" "n < 40" | "40 \<le> n" "n < 48" | "48 \<le> n" "n < 56" | "56 \<le> n" "n < 64"
    by fastforce
  then show "bit (ucast (ucast v :: u8) OR push_bit 8 (ucast (ucast (drop_bit 8 v) :: u8))
     OR push_bit 16 (ucast (ucast (drop_bit 16 v) :: u8))
     OR push_bit 24 (ucast (ucast (drop_bit 24 v) :: u8))
     OR push_bit 32 (ucast (ucast (drop_bit 32 v) :: u8))
     OR push_bit 40 (ucast (ucast (drop_bit 40 v) :: u8))
     OR push_bit 48 (ucast (ucast (drop_bit 48 v) :: u8))
     OR push_bit 56 (ucast (ucast (drop_bit 56 v) :: u8)) :: u64) n = bit (v :: u64) n"
    by cases (simp_all add: bit_or_iff bit_byte_shifted bit_byte_low)
qed

lemma read64_write64_same [simp, mem_simps]: "read64 (write64 a v m) a = v"
  by (simp add: read64_def write64_def bytes_of_word)

lemma word_less8_cases:
  fixes d :: u64
  assumes "d < 8"
  shows "d = 0 \<or> d = 1 \<or> d = 2 \<or> d = 3 \<or> d = 4 \<or> d = 5 \<or> d = 6 \<or> d = 7"
proof -
  have "unat d < 8" using assms by (simp add: word_less_nat_alt)
  then have "unat d \<in> {0, 1, 2, 3, 4, 5, 6, 7}" by auto
  then show ?thesis by (auto simp: word_unat_eq_iff)
qed

lemma write64_outside:
  assumes "\<not> b - a < 8"
  shows "write64 a v m b = m b"
proof -
  have "b \<noteq> a + d" if "d < 8" for d
    using assms that by auto
  from this[of 0] this[of 1] this[of 2] this[of 3] this[of 4] this[of 5] this[of 6] this[of 7]
  show ?thesis by (simp add: write64_def)
qed

lemma write64_zero: "write64 a 0 m b = (if b - a < 8 then 0 else m b)"
proof (cases "b - a < 8")
  case True
  then obtain d where "d < 8" "b = a + d" using that[of "b - a"] by simp
  with word_less8_cases[OF \<open>d < 8\<close>] show ?thesis
    by (auto simp: write64_def)
next
  case False
  then show ?thesis by (simp add: write64_outside)
qed

text \<open>A read sees only the eight bytes at its address.\<close>

lemma read64_cong:
  assumes "\<And>d. d < 8 \<Longrightarrow> m (a + d) = m' (a + d)"
  shows "read64 m a = read64 m' a"
  using assms[of 0] assms[of 1] assms[of 2] assms[of 3] assms[of 4] assms[of 5] assms[of 6]
    assms[of 7]
  by (simp add: read64_def)

lemma read32_cong:
  assumes "\<And>d. d < 4 \<Longrightarrow> m (a + d) = m' (a + d)"
  shows "read32 m a = read32 m' a"
  using assms[of 0] assms[of 1] assms[of 2] assms[of 3] by (simp add: read32_def)

lemma read64_write64_other [mem_simps]:
  assumes "aligned8 a" "aligned8 b" "a \<noteq> b"
  shows "read64 (write64 a v m) b = read64 m b"
proof (rule read64_cong)
  fix d :: u64
  assume "d < 8"
  have "\<not> b + d - a < 8"
  proof
    assume "b + d - a < 8"
    then have "a + (b + d - a) \<noteq> b + d"
      using aligned8_disjoint[OF assms(1,2,3), of "b + d - a" d] \<open>d < 8\<close> by simp
    then show False by simp
  qed
  then show "write64 a v m (b + d) = m (b + d)" by (rule write64_outside)
qed

lemma read64_zero: "(\<And>d. d < 8 \<Longrightarrow> m (a + d) = 0) \<Longrightarrow> read64 m a = 0"
  using read64_cong[of m a "\<lambda>_. 0"] by (simp add: read64_def)

text \<open>
  Entry \<open>i\<close> of the 512-entry array of \<^verbatim>\<open>u64\<close> at page \<open>t\<close>: \<^verbatim>\<open>((u64*)t)[i]\<close>.
\<close>

definition slot :: "u64 \<Rightarrow> u64 \<Rightarrow> u64" where
  "slot t i = t + 8 * i"

lemma slot_offset_less:
  fixes i d :: u64
  assumes "i < 512" "d < 8"
  shows "8 * i + d < 4096"
proof -
  have "unat i < 512" "unat d < 8" using assms by (simp_all add: word_less_nat_alt)
  then have "unat (8 * i + d) = 8 * unat i + unat d"
    by (simp add: unat_word_ariths)
  with \<open>unat i < 512\<close> \<open>unat d < 8\<close> show ?thesis by (simp add: word_less_nat_alt)
qed

lemma page_of_slot_byte [mem_simps]:
  "page_aligned t \<Longrightarrow> i < 512 \<Longrightarrow> d < 8 \<Longrightarrow> page_of (slot t i + d) = t"
  using page_of_add[of t "8 * i + d"] slot_offset_less[of i d]
  by (simp add: slot_def add.assoc)

lemma page_of_slot [mem_simps]: "page_aligned t \<Longrightarrow> i < 512 \<Longrightarrow> page_of (slot t i) = t"
  using page_of_slot_byte[of t i 0] by simp

lemma aligned8_slot [simp]: "page_aligned t \<Longrightarrow> aligned8 (slot t i)"
  by (simp add: slot_def aligned8_add aligned8_times8 page_aligned_aligned8)

lemma slot_inj:
  assumes "i < 512" "j < 512" "slot t i = slot t j"
  shows "i = j"
proof -
  have "unat (8 * i) = 8 * unat i" "unat (8 * j) = 8 * unat j"
    using assms(1,2) by (simp_all add: unat_word_ariths word_less_nat_alt)
  moreover have "8 * i = 8 * j" using assms(3) by (simp add: slot_def)
  ultimately show ?thesis by (metis mult_cancel1 word_unat_eq_iff zero_neq_numeral)
qed

lemma read_slot_other_page [mem_simps]:
  assumes "page_aligned t" "page_aligned t'" "t \<noteq> t'" "i < 512" "j < 512"
  shows "read64 (write64 (slot t i) v m) (slot t' j) = read64 m (slot t' j)"
  using assms by (metis read64_write64_other aligned8_slot page_of_slot)

lemma read_slot_same_page [mem_simps]:
  assumes "page_aligned t" "i < 512" "j < 512"
  shows "read64 (write64 (slot t i) v m) (slot t j) = (if i = j then v else read64 m (slot t j))"
  using assms by (metis aligned8_slot read64_write64_other read64_write64_same slot_inj)

lemma write_slot_other_page [mem_simps]:
  assumes "page_aligned t" "i < 512" "page_of a \<noteq> t"
  shows "write64 (slot t i) v m a = m a"
proof (rule write64_outside)
  show "\<not> a - slot t i < 8"
  proof
    assume "a - slot t i < 8"
    then have "page_of (slot t i + (a - slot t i)) = t"
      using assms(1,2) by (intro page_of_slot_byte)
    with assms(3) show False by simp
  qed
qed

text \<open>Storing zero in every entry of a page: the loop of \<^verbatim>\<open>pmm_alloc_page\<close>.\<close>

definition zero_words :: "nat \<Rightarrow> u64 \<Rightarrow> memory \<Rightarrow> memory" where
  "zero_words n p m = fold (\<lambda>i. write64 (slot p (of_nat i)) 0) [0..<n] m"

lemma unat_8_times: "n \<le> 512 \<Longrightarrow> unat (8 * of_nat n :: u64) = 8 * n"
  by (simp add: unat_word_ariths unat_of_nat)

lemma zero_words_eq:
  "n \<le> 512 \<Longrightarrow> zero_words n p m = (\<lambda>a. if a - p < 8 * of_nat n then 0 else m a)"
proof (induction n)
  case 0
  then show ?case by (simp add: zero_words_def)
next
  case (Suc n)
  have split: "(a - p < 8 * of_nat (Suc n)) = (a - p < 8 * of_nat n \<or> a - slot p (of_nat n) < 8)" for a
    using unat_8_times[of n] unat_8_times[of "Suc n"] Suc.prems
    by (auto simp: slot_def diff_diff_add[symmetric] word_less_nat_alt unat_sub_if'[of "a - p"])
  have "zero_words (Suc n) p m = write64 (slot p (of_nat n)) 0 (zero_words n p m)"
    by (simp add: zero_words_def)
  also have "\<dots> = (\<lambda>a. if a - p < 8 * of_nat (Suc n) then 0 else m a)"
    using Suc by (simp only: fun_eq_iff write64_zero split) auto
  finally show ?case .
qed

lemma page_of_plus_offset: "page_of a + (a AND PAGE_MASK) = a"
  using word_plus_and_or[of "a AND NOT PAGE_MASK" "a AND PAGE_MASK"]
  by (simp add: page_of_def bit.conj_disj_distrib[symmetric] and.assoc and.left_commute)

lemma unat_page_offset: "unat (a AND PAGE_MASK) = unat a mod 4096"
  by (simp only: page_mask_mask take_bit_eq_mask[symmetric] unsigned_take_bit_eq)
    (simp add: take_bit_eq_mod)

lemma unat_page_of: "unat (page_of a) = unat a div 4096 * 4096"
proof -
  have "page_of a = a - (a AND PAGE_MASK)"
    using page_of_plus_offset[of a] by (simp add: algebra_simps)
  moreover have "(a AND PAGE_MASK) \<le> a" by (rule word_and_le2)
  ultimately have "unat (page_of a) = unat a - unat a mod 4096"
    by (simp add: unat_sub unat_page_offset)
  then show ?thesis by (simp add: minus_mod_eq_div_mult)
qed

lemma page_of_le: "page_of a \<le> a"
  by (simp add: word_le_nat_alt unat_page_of)

lemma in_page_iff: "page_aligned p \<Longrightarrow> page_of a = p \<longleftrightarrow> a - p < 4096"
proof
  assume "page_of a = p"
  then have "a - p = a AND PAGE_MASK"
    using page_of_plus_offset[of a] by (simp add: algebra_simps)
  then show "a - p < 4096"
    by (simp add: word_less_nat_alt unat_page_offset)
next
  assume "page_aligned p" "a - p < 4096"
  then show "page_of a = p" using page_of_add[of p "a - p"] by simp
qed

lemma zero_words_page [mem_simps]:
  "page_aligned p \<Longrightarrow> zero_words 512 p m = (\<lambda>a. if page_of a = p then 0 else m a)"
  by (simp add: zero_words_eq in_page_iff)

section \<open>Outcomes\<close>

text \<open>
  Besides returning, a kernel operation can fault in kernel mode (which
  \<^verbatim>\<open>isr_handler\<close> turns into a panic), run forever, park the CPU in
  \<^verbatim>\<open>hlt\<close>, wait in \<^verbatim>\<open>hlt\<close> for an interrupt that does not come, or index an array
  outside its bounds or overflow a signed integer, after which C promises nothing. An operation that can do one of these
  has a result of type \<open>'a res\<close>.
\<close>

datatype stop =
    Page_Fault u64 \<comment> \<open>kernel-mode access to a virtual address that does not translate\<close>
  | Diverges \<comment> \<open>a loop that never ends\<close>
  | Halted \<comment> \<open>\<^verbatim>\<open>for (;;) hlt\<close>\<close>
  | Waiting \<comment> \<open>in \<^verbatim>\<open>hlt\<close>, with no further interrupt\<close>
  | Undefined \<comment> \<open>array access out of bounds or signed overflow\<close>

type_synonym 'a res = "stop + 'a"

definition bind_res :: "'a res \<Rightarrow> ('a \<Rightarrow> 'b res) \<Rightarrow> 'b res" where
  "bind_res r f = (case r of Inl e \<Rightarrow> Inl e | Inr x \<Rightarrow> f x)"

lemma bind_res_simps [simp]:
  "bind_res (Inl e) f = Inl e" "bind_res (Inr x) f = f x"
  by (simp_all add: bind_res_def)

lemma bind_res_cong [fundef_cong]:
  "r = r' \<Longrightarrow> (\<And>x. r' = Inr x \<Longrightarrow> f x = g x) \<Longrightarrow> bind_res r f = bind_res r' g"
  by (cases r') auto

lemma bind_res_Inr: "bind_res r f = Inr y \<longleftrightarrow> (\<exists>x. r = Inr x \<and> f x = Inr y)"
  by (cases r) auto

section \<open>Loops over pages\<close>

text \<open>
  \<open>for_pages body v e s\<close> is \<^verbatim>\<open>for (; v < e; v += 4096) body(v)\<close>; the body may leave
  the loop early (\<open>False\<close>, an early \<^verbatim>\<open>return\<close>). When \<open>v + 4096\<close> wraps around below
  \<open>v\<close> while \<open>v < e\<close>, the loop never reaches \<open>e\<close>
  (\<open>wrapped_loop_never_ends\<close> below) and goes through all of memory again and again, until
  the body leaves it, if ever; this is the outcome \<open>Diverges\<close>.
\<close>

lemma no_wrap_step:
  fixes v :: u64
  assumes "\<not> v + 4096 < v"
  shows "2 ^ 64 - unat (v + 4096) < 2 ^ 64 - unat v"
proof -
  have "v < v + 4096"
    using assms by (intro order.not_eq_order_implies_strict) simp_all
  then show ?thesis
    using unsigned_less[of "v + 4096", where 'a = nat] by (simp add: word_less_nat_alt)
qed

function for_pages :: "(u64 \<Rightarrow> 's \<Rightarrow> bool \<times> 's) \<Rightarrow> u64 \<Rightarrow> u64 \<Rightarrow> 's \<Rightarrow> (bool \<times> 's) res" where
  "for_pages body v e s =
     (if v < e
      then (case body v s of
              (False, s') \<Rightarrow> Inr (False, s')
            | (True, s') \<Rightarrow>
                if v + 4096 < v then Inl Diverges else for_pages body (v + 4096) e s')
      else Inr (True, s))"
  by pat_completeness auto
termination
  by (relation "measure (\<lambda>(body, v, e, s). 2 ^ 64 - unat v)") (simp, use no_wrap_step in simp)

declare for_pages.simps [simp del]

lemma for_pages_done [simp]: "\<not> v < e \<Longrightarrow> for_pages body v e s = Inr (True, s)"
  by (subst for_pages.simps) simp

lemma wrapped_loop_never_ends:
  fixes v e :: u64
  assumes "v < e" "v + 4096 < v"
  shows "v + 4096 * of_nat k < e"
proof -
  define n where "n = unat (v + 4096 * of_nat k)"
  have hi: "2 ^ 64 - 4096 \<le> unat v"
    using assms(2) unsigned_less[of v, where 'a = nat]
    by (cases "unat v + 4096 < 2 ^ 64") (simp_all add: word_less_nat_alt unat_word_ariths)
  have less: "n < 2 ^ 64"
    using unsigned_less[of "v + 4096 * of_nat k", where 'a = nat] by (simp add: n_def)
  have "4096 dvd unat (4096 * of_nat k :: u64)"
    by (simp add: unat_word_ariths dvd_mod)
  then obtain c where c: "unat (4096 * of_nat k :: u64) = 4096 * c" by (rule dvdE)
  have "n = (unat v + 4096 * c) mod 2 ^ 64"
    unfolding n_def unat_word_ariths(1) c by simp
  then have same: "n mod 4096 = unat v mod 4096"
    by (simp add: mod_mod_cancel)
  have "n \<le> unat v"
  proof (rule ccontr)
    assume "\<not> n \<le> unat v"
    then have "4096 dvd n - unat v" "0 < n - unat v"
      using same by (simp_all add: mod_eq_dvd_iff_nat)
    then have "4096 \<le> n - unat v" by (rule dvd_imp_le)
    with hi less show False by simp
  qed
  with assms(1) show ?thesis by (simp add: word_less_nat_alt n_def)
qed

lemma aligned_step:
  assumes "page_aligned v" "page_aligned e" "v < e"
  shows "unat (v + 4096) = unat v + 4096" "v + 4096 \<le> e" "\<not> v + 4096 < v"
proof -
  have "4096 dvd unat e - unat v" "unat v < unat e"
    using assms by (simp_all add: page_aligned_dvd word_less_nat_alt dvd_diff_nat)
  then have le: "unat v + 4096 \<le> unat e"
    using dvd_imp_le[of 4096 "unat e - unat v"] by simp
  then show eq: "unat (v + 4096) = unat v + 4096"
    using unsigned_less[of e, where 'a = nat] by (simp add: unat_word_ariths)
  show "v + 4096 \<le> e" "\<not> v + 4096 < v"
    using le by (simp_all add: word_le_nat_alt word_less_nat_alt eq)
qed

lemma page_aligned_4096 [simp]: "page_aligned 4096"
  by (simp add: page_aligned_def)

text \<open>Between page boundaries the loop always ends.\<close>

lemma for_pages_total:
  "page_aligned v \<Longrightarrow> page_aligned e \<Longrightarrow> \<exists>r. for_pages body v e s = Inr r"
proof (induction body v e s rule: for_pages.induct)
  case (1 body v e s)
  show ?case
  proof (cases "v < e \<and> fst (body v s)")
    case True
    then obtain s' where b: "body v s = (True, s')" by (cases "body v s") auto
    have nw: "\<not> v + 4096 < v" using aligned_step[of v e] 1 True by blast
    have "\<exists>r. for_pages body (v + 4096) e s' = Inr r"
      using "1.IH"[of True s'] True b nw "1.prems" by (simp add: page_aligned_add)
    with True b nw show ?thesis by (simp add: for_pages.simps[of body v e s])
  next
    case False
    then show ?thesis
      by (auto simp: for_pages.simps[of body v e s] split: prod.splits bool.splits)
  qed
qed

text \<open>Whatever every round of the body keeps, the loop keeps.\<close>

lemma for_pages_keeps:
  assumes "\<And>v s. P s \<Longrightarrow> P (snd (body v s))"
  shows "P s \<Longrightarrow> for_pages body v e s = Inr (b, s') \<Longrightarrow> P s'"
  using assms
proof (induction body v e s arbitrary: b s' rule: for_pages.induct)
  case (1 body v e s)
  show ?case
  proof (cases "v < e")
    case True
    obtain c t where b: "body v s = (c, t)" by (cases "body v s")
    then have t: "P t" using "1.prems"(3)[OF "1.prems"(1), of v] by simp
    show ?thesis
    proof (cases c)
      case True
      then have "\<not> v + 4096 < v" "for_pages body (v + 4096) e t = Inr (b, s')"
        using "1.prems"(2) b \<open>v < e\<close> by (auto simp: for_pages.simps[of body v e s] split: if_splits)
      then show ?thesis using "1.IH"[OF \<open>v < e\<close> b[symmetric]] True t "1.prems"(3) by blast
    next
      case False
      then show ?thesis
        using "1.prems"(2) b \<open>v < e\<close> t by (simp add: for_pages.simps[of body v e s])
    qed
  next
    case False
    then show ?thesis using "1.prems" by simp
  qed
qed

text \<open>
  The contract many operations share: they relate the state before to the state after by a
  preorder (\<open>what may have changed\<close>), so sequences and loops of them do too.
\<close>

locale step_contract =
  fixes rel :: "'s \<Rightarrow> 's \<Rightarrow> bool"
  assumes unchanged: "rel s s"
    and then_rel: "rel s t \<Longrightarrow> rel t u \<Longrightarrow> rel s u"
begin

lemma fold_rel:
  assumes "\<And>x s. rel s (f x s)"
  shows "rel s (fold f xs s)"
  using assms unchanged by (induction xs arbitrary: s) (auto intro: then_rel)

lemma for_pages_rel:
  assumes "\<And>v s. rel s (snd (body v s))" "for_pages body v e s = Inr (b, t)"
  shows "rel s t"
  using for_pages_keeps[of "rel s" body s v e b t] assms unchanged then_rel by blast

end

text \<open>
  A loop whose body never leaves early is a fold over the pages it visits.
\<close>

definition page_list :: "u64 \<Rightarrow> u64 \<Rightarrow> u64 list" where
  "page_list v e = map (\<lambda>i. v + 4096 * of_nat i) [0..<(unat e - unat v) div 4096]"

lemma page_list_empty [simp]: "\<not> v < e \<Longrightarrow> page_list v e = []"
  by (simp add: page_list_def word_less_nat_alt)

lemma page_list_step:
  assumes "page_aligned v" "page_aligned e" "v < e"
  shows "page_list v e = v # page_list (v + 4096) e"
proof -
  have "unat v + 4096 \<le> unat e"
    using aligned_step[OF assms] by (simp add: word_le_nat_alt)
  then obtain d where d: "unat e - unat v = 4096 + d"
    by (metis le_diff_conv2 le_iff_add add_leD1 add.commute)
  then have "(unat e - unat v) div 4096 = Suc ((unat e - unat (v + 4096)) div 4096)"
    using aligned_step(1)[OF assms] by simp
  then show ?thesis
    by (simp add: page_list_def upt_conv_Cons map_Suc_upt[symmetric] o_def algebra_simps
        del: upt_Suc)
qed

lemma for_pages_fold:
  assumes "page_aligned v" "page_aligned e"
  shows "for_pages (\<lambda>v s. (True, f v s)) v e s = Inr (True, fold f (page_list v e) s)"
  using assms
proof (induction "\<lambda>v s. (True, f v s)" v e s rule: for_pages.induct)
  case (1 v e s)
  show ?case
  proof (cases "v < e")
    case True
    then show ?thesis
      using "1.hyps"[of True "f v s"] 1(2,3) aligned_step[OF 1(2,3) True]
      by (simp add: for_pages.simps[of _ v e s] page_list_step page_aligned_add)
  next
    case False
    then show ?thesis by simp
  qed
qed

lemma page_list_aligned:
  "page_aligned v \<Longrightarrow> a \<in> set (page_list v e) \<Longrightarrow> page_aligned a"
  by (auto simp: page_list_def page_aligned_dvd dvd_mod unat_word_ariths)

lemma page_list_unat:
  fixes v e :: u64
  assumes "i < (unat e - unat v) div 4096"
  shows "unat (v + 4096 * of_nat i) = unat v + 4096 * i"
proof -
  have "4096 * i < unat e - unat v" using assms by simp
  then have "unat v + 4096 * i < 18446744073709551616"
    using unat_less_2p64[of e] by linarith
  then show ?thesis
    by (simp add: unat_word_ariths unat_of_nat take_bit_nat_eq_self_iff)
qed

lemma page_list_bounds:
  "a \<in> set (page_list v e) \<Longrightarrow> v \<le> a \<and> a < e"
  using page_list_unat[of _ e v]
  by (fastforce simp: page_list_def word_le_nat_alt word_less_nat_alt)

lemma page_list_distinct: "distinct (page_list v e)"
proof -
  have "inj_on (\<lambda>i. v + 4096 * of_nat i :: u64) (set [0..<(unat e - unat v) div 4096])"
    by (rule inj_onI, drule arg_cong[of _ _ unat]) (simp add: page_list_unat)
  then show ?thesis by (simp add: page_list_def distinct_map)
qed

end
