(* ===== verification/Serial_Console.thy ===== *)
theory Serial_Console
  imports Mukrn_Prelude
begin

text \<open>
  The machine below every component: physical memory, port I/O
  (\<^verbatim>\<open>kernel/include/io.h\<close>) and the serial console (\<^verbatim>\<open>kernel/serial.c\<close>).
  Devices are not part of the repository: what a port read returns is the field \<open>device\<close>, a
  function of the I/O performed so far, which no operation changes.
  \<open>putc\<close> and \<open>puts\<close> are the polling routines as written. The other components print
  through \<open>kputs\<close>, which appends to \<open>console\<close>; \<open>puts_sends\<close> shows that on a
  UART whose transmitter always becomes ready again, \<open>puts\<close> returns and sends exactly the
  string.
\<close>

section \<open>Port I/O\<close>

datatype io_event = In_Port u16 u16 | Out_Byte u16 u8 | Out_Word u16 u16

text \<open>The I/O log is kept newest event first.\<close>

record machine =
  mem :: memory
  device :: "io_event list \<Rightarrow> u16 \<Rightarrow> u16"
  io_log :: "io_event list"
  console :: string

definition outb :: "u16 \<Rightarrow> u8 \<Rightarrow> 'a machine_scheme \<Rightarrow> 'a machine_scheme" where
  "outb port val s = s\<lparr>io_log := Out_Byte port val # io_log s\<rparr>"

definition inb :: "u16 \<Rightarrow> 'a machine_scheme \<Rightarrow> u8 \<times> 'a machine_scheme" where
  "inb port s =
     (let ret = ucast (device s (io_log s) port) :: u8
      in (ret, s\<lparr>io_log := In_Port port (ucast ret) # io_log s\<rparr>))"

definition inw :: "u16 \<Rightarrow> 'a machine_scheme \<Rightarrow> u16 \<times> 'a machine_scheme" where
  "inw port s =
     (let ret = device s (io_log s) port
      in (ret, s\<lparr>io_log := In_Port port ret # io_log s\<rparr>))"

definition outw :: "u16 \<Rightarrow> u16 \<Rightarrow> 'a machine_scheme \<Rightarrow> 'a machine_scheme" where
  "outw port val s = s\<lparr>io_log := Out_Word port val # io_log s\<rparr>"

definition io_wait :: "'a machine_scheme \<Rightarrow> 'a machine_scheme" where
  "io_wait = outb 0x80 0"

section \<open>The polled serial port\<close>

text \<open>\<open>None\<close>: the transmitter never reports ready and the loop never ends.\<close>

partial_function (option) wait_tx :: "'a machine_scheme \<Rightarrow> 'a machine_scheme option" where
  "wait_tx s =
     (let (v, s') = inb 0x3FD s in if v AND 0x20 = 0 then wait_tx s' else Some s')"

definition putc :: "char \<Rightarrow> 'a machine_scheme \<Rightarrow> 'a machine_scheme option" where
  "putc c s = Option.bind (wait_tx s) (\<lambda>s'. Some (outb 0x3F8 (of_char c) s'))"

primrec puts :: "string \<Rightarrow> 'a machine_scheme \<Rightarrow> 'a machine_scheme option" where
  "puts [] s = Some s"
| "puts (c # cs) s = Option.bind (putc c s) (puts cs)"

definition hex_digit :: "u64 \<Rightarrow> char" where
  "hex_digit n = (if n < 10 then char_of (0x30 + unat n) else char_of (0x61 + unat n - 10))"

text \<open>\<^verbatim>\<open>for (i = 15; i >= 0; i--)\<close> over the 16 characters of \<open>buf\<close>.\<close>

primrec hex_loop :: "nat \<Rightarrow> u64 \<Rightarrow> string \<Rightarrow> string" where
  "hex_loop 0 v buf = buf"
| "hex_loop (Suc i) v buf = hex_loop i (drop_bit 4 v) (buf[i := hex_digit (v AND 0xF)])"

definition puthex_string :: "u64 \<Rightarrow> string" where
  "puthex_string v = hex_loop 16 v (replicate 16 (char_of (0::nat)))"

definition puthex :: "u64 \<Rightarrow> 'a machine_scheme \<Rightarrow> 'a machine_scheme option" where
  "puthex v = puts (puthex_string v)"

text \<open>Console output as the other components see it.\<close>

definition kputs :: "string \<Rightarrow> 'a machine_scheme \<Rightarrow> 'a machine_scheme" where
  "kputs str s = s\<lparr>console := console s @ str\<rparr>"

definition kputhex :: "u64 \<Rightarrow> 'a machine_scheme \<Rightarrow> 'a machine_scheme" where
  "kputhex v = kputs (puthex_string v)"

lemma kputs_fields [simp, frame_simps]:
  "mem (kputs str s) = mem s" "device (kputs str s) = device s"
  "io_log (kputs str s) = io_log s" "machine.more (kputs str s) = machine.more s"
  "console (kputs str s) = console s @ str"
  by (simp_all add: kputs_def)

lemma kputhex_fields [simp, frame_simps]:
  "mem (kputhex v s) = mem s" "device (kputhex v s) = device s"
  "io_log (kputhex v s) = io_log s" "machine.more (kputhex v s) = machine.more s"
  by (simp_all add: kputhex_def)

section \<open>What reaches the wire\<close>

text \<open>The characters written to the data port, oldest first.\<close>

fun uart_out :: "io_event list \<Rightarrow> string" where
  "uart_out [] = []"
| "uart_out (Out_Byte p v # es) = (if p = 0x3F8 then uart_out es @ [char_of (unat v)] else uart_out es)"
| "uart_out (e # es) = uart_out es"

text \<open>The log after \<open>n\<close> more reads of the line status register.\<close>

primrec polls :: "(io_event list \<Rightarrow> u16 \<Rightarrow> u16) \<Rightarrow> nat \<Rightarrow> io_event list \<Rightarrow> io_event list" where
  "polls dev 0 es = es"
| "polls dev (Suc n) es =
     polls dev n (In_Port 0x3FD (ucast (ucast (dev es 0x3FD) :: u8)) # es)"

text \<open>
  The documented behaviour of a 16550 the code relies on: polled for long enough, the
  transmitter reports empty (bit 5 of the line status register).
\<close>

definition uart_responsive :: "(io_event list \<Rightarrow> u16 \<Rightarrow> u16) \<Rightarrow> bool" where
  "uart_responsive dev \<longleftrightarrow>
     (\<forall>es. \<exists>n. (ucast (dev (polls dev n es) 0x3FD) :: u8) AND 0x20 \<noteq> 0)"

lemma char_of_byte: "char_of (unat (of_char c :: u8)) = c"
proof -
  have "(of_char c :: u8) = of_nat (of_char c)" by (simp add: of_nat_of_char)
  then show ?thesis by (simp add: unat_of_nat)
qed

lemma byte_of_char: "(of_char (char_of (unat b) :: char) :: u8) = b"
proof -
  have "(of_char (char_of (unat b) :: char) :: u8) = of_nat (of_char (char_of (unat b) :: char))"
    by (rule of_nat_of_char[symmetric])
  then show ?thesis using unsigned_less[of b, where 'a = nat] by simp
qed

lemma uart_out_polls: "uart_out (polls dev n es) = uart_out es"
  by (induction n arbitrary: es) simp_all

lemma wait_tx_unfold:
  "wait_tx s =
     (let v = ucast (device s (io_log s) 0x3FD) :: u8;
          s' = s\<lparr>io_log := In_Port 0x3FD (ucast v) # io_log s\<rparr>
      in if v AND 0x20 = 0 then wait_tx s' else Some s')"
  by (subst wait_tx.simps) (simp add: inb_def Let_def)

lemma wait_tx_returns:
  assumes "(ucast (device s (polls (device s) n (io_log s)) 0x3FD) :: u8) AND 0x20 \<noteq> 0"
  shows "\<exists>k. wait_tx s = Some (s\<lparr>io_log := polls (device s) k (io_log s)\<rparr>)"
  using assms
proof (induction n arbitrary: s)
  case 0
  then have "wait_tx s = Some (s\<lparr>io_log := polls (device s) (Suc 0) (io_log s)\<rparr>)"
    by (simp add: wait_tx_unfold[of s] Let_def)
  then show ?case by blast
next
  case (Suc n)
  let ?v = "ucast (device s (io_log s) 0x3FD) :: u8"
  let ?s = "s\<lparr>io_log := In_Port 0x3FD (ucast ?v) # io_log s\<rparr>"
  show ?case
  proof (cases "?v AND 0x20 = 0")
    case True
    obtain k where "wait_tx ?s = Some (?s\<lparr>io_log := polls (device ?s) k (io_log ?s)\<rparr>)"
      using Suc.IH[of ?s] Suc.prems by auto
    then have "wait_tx s = Some (s\<lparr>io_log := polls (device s) (Suc k) (io_log s)\<rparr>)"
      using True by (simp add: wait_tx_unfold[of s] Let_def)
    then show ?thesis by blast
  next
    case False
    then have "wait_tx s = Some (s\<lparr>io_log := polls (device s) (Suc 0) (io_log s)\<rparr>)"
      by (simp add: wait_tx_unfold[of s] Let_def)
    then show ?thesis by blast
  qed
qed

lemma putc_transmits:
  assumes "uart_responsive (device s)"
  shows "\<exists>es. putc c s = Some (s\<lparr>io_log := es\<rparr>) \<and> uart_out es = uart_out (io_log s) @ [c]"
proof -
  obtain n where "(ucast (device s (polls (device s) n (io_log s)) 0x3FD) :: u8) AND 0x20 \<noteq> 0"
    using assms by (auto simp: uart_responsive_def)
  then obtain k where "wait_tx s = Some (s\<lparr>io_log := polls (device s) k (io_log s)\<rparr>)"
    using wait_tx_returns by blast
  then have "putc c s =
      Some (s\<lparr>io_log := Out_Byte 0x3F8 (of_char c) # polls (device s) k (io_log s)\<rparr>)"
    by (simp add: putc_def outb_def)
  then show ?thesis
    by (intro exI[of _ "Out_Byte 0x3F8 (of_char c) # polls (device s) k (io_log s)"])
      (simp add: uart_out_polls char_of_byte)
qed

lemma puts_sends:
  assumes "uart_responsive (device s)"
  shows "\<exists>es. puts str s = Some (s\<lparr>io_log := es\<rparr>) \<and> uart_out es = uart_out (io_log s) @ str"
  using assms
proof (induction str arbitrary: s)
  case Nil
  then show ?case by (intro exI[of _ "io_log s"]) simp
next
  case (Cons c cs)
  obtain es where es: "putc c s = Some (s\<lparr>io_log := es\<rparr>)"
      "uart_out es = uart_out (io_log s) @ [c]"
    using putc_transmits[OF Cons.prems] by blast
  obtain es' where "puts cs (s\<lparr>io_log := es\<rparr>) = Some (s\<lparr>io_log := es'\<rparr>)"
      "uart_out es' = uart_out es @ cs"
    using Cons.IH[of "s\<lparr>io_log := es\<rparr>"] Cons.prems by auto
  with es show ?case by auto
qed

section \<open>Hexadecimal output\<close>

text \<open>Reading a hexadecimal numeral back.\<close>

definition hex_val :: "char \<Rightarrow> nat" where
  "hex_val c = (if of_char c < (0x3A::nat) then of_char c - 0x30 else of_char c - 0x61 + 10)"

definition hex_value :: "string \<Rightarrow> nat" where
  "hex_value str = foldl (\<lambda>acc c. 16 * acc + hex_val c) 0 str"

lemma hex_val_digit: "d < 16 \<Longrightarrow> hex_val (hex_digit d) = unat d"
  by (auto simp: hex_val_def hex_digit_def word_less_nat_alt)

lemma hex_loop_digits:
  "n \<le> length buf \<Longrightarrow>
     hex_loop n v buf =
       rev (map (\<lambda>k. hex_digit (drop_bit (4 * k) v AND 0xF)) [0..<n]) @ drop n buf"
proof (induction n arbitrary: v buf)
  case 0
  then show ?case by simp
next
  case (Suc n)
  have "[0..<Suc n] = 0 # map Suc [0..<n]"
    by (simp add: upt_conv_Cons map_Suc_upt del: upt_Suc)
  moreover have "drop n (buf[n := x]) = x # drop (Suc n) buf" for x
    using Suc.prems by (simp add: drop_update_swap flip: Cons_nth_drop_Suc)
  ultimately show ?case
    using Suc by (simp add: o_def add.commute[of 4] del: upt_Suc)
qed

lemma hex_value_snoc: "hex_value (xs @ [c]) = 16 * hex_value xs + hex_val c"
  by (simp add: hex_value_def)

lemma hex_value_digits:
  "hex_value (rev (map (\<lambda>k. hex_digit (drop_bit (4 * k) v AND 0xF)) [0..<n])) =
     unat v mod 16 ^ n"
proof (induction n arbitrary: v)
  case 0
  then show ?case by (simp add: hex_value_def)
next
  case (Suc n)
  have upt: "[0..<Suc n] = 0 # map Suc [0..<n]"
    by (simp add: upt_conv_Cons map_Suc_upt del: upt_Suc)
  have low: "unat (v AND 0xF) = unat v mod 16"
    using take_bit_eq_mask[of 4 v] unsigned_take_bit_eq[of 4 v, where 'a = nat]
    by (simp add: mask_eq_exp_minus_1 take_bit_eq_mod)
  then have "hex_val (hex_digit (v AND 0xF)) = unat v mod 16"
    by (subst hex_val_digit) (simp_all add: word_less_nat_alt)
  moreover have "unat (drop_bit 4 v) = unat v div 16"
    by (simp add: drop_bit_eq_div unat_div)
  ultimately show ?case
    using Suc.IH[of "drop_bit 4 v"]
    by (simp add: upt o_def hex_value_snoc mod_mult2_eq add.commute[of 4] del: upt_Suc)
qed

lemma puthex_string_value: "hex_value (puthex_string v) = unat v"
proof -
  have "unat v < 16 ^ 16"
    using unsigned_less[of v, where 'a = nat] by simp
  then show ?thesis
    by (simp add: puthex_string_def hex_loop_digits hex_value_digits del: upt_Suc)
qed

lemma length_puthex_string: "length (puthex_string v) = 16"
  by (simp add: puthex_string_def hex_loop_digits del: upt_Suc)

text \<open>
  On a UART whose transmitter always becomes ready again, \<^verbatim>\<open>puthex(v)\<close> returns, and what it has
  sent is sixteen characters that read back as \<open>v\<close>.
\<close>

theorem puthex_transmits:
  assumes "uart_responsive (device s)"
  shows "\<exists>es digits. puthex v s = Some (s\<lparr>io_log := es\<rparr>) \<and> uart_out es = uart_out (io_log s) @ digits
    \<and> length digits = 16 \<and> hex_value digits = unat v"
  using puts_sends[OF assms, of "puthex_string v"] length_puthex_string[of v] puthex_string_value[of v]
  by (auto simp: puthex_def)

theorem puthex_transmits_witness:
  "\<exists>es digits. puthex 0xBEEF \<lparr>mem = (\<lambda>_. 0), device = (\<lambda>_ _. 0x20), io_log = [], console = []\<rparr> =
      Some \<lparr>mem = (\<lambda>_. 0), device = (\<lambda>_ _. 0x20), io_log = es, console = []\<rparr>
    \<and> uart_out es = digits \<and> hex_value digits = 48879"
proof -
  have "uart_responsive (\<lambda>_ _. 0x20)" by (simp add: uart_responsive_def)
  then show ?thesis
    using puthex_transmits[of "\<lparr>mem = (\<lambda>_. 0), device = (\<lambda>_ _. 0x20), io_log = [], console = []\<rparr>" "0xBEEF"]
    by auto
qed

end
