(* ===== verification/Pmm.thy ===== *)
theory Pmm
  imports Serial_Console
begin

text \<open>
  The physical page allocator, \<^verbatim>\<open>kernel/pmm.c\<close>: a stack of free pages threaded
  through the pages themselves, filled once from the BIOS E820 map.
  \<open>free_chain\<close> abstracts the linked list in memory to a list of frames; the interface
  \<open>page_allocator\<close> states what the paging and task components rely on, and is
  interpreted on \<open>pmm_alloc_page\<close> and \<open>pmm_free_page\<close>.
\<close>

abbreviation PAGE_SIZE :: u64 where
  "PAGE_SIZE \<equiv> 4096"

abbreviation E820_BASE :: u64 where
  "E820_BASE \<equiv> 0x4000"

abbreviation crlf :: string where
  "crlf \<equiv> [CHR 0x0D, CHR 0x0A]"

record pmm_state = machine +
  free_stack :: u64

record e820_entry =
  e_base :: u64
  e_len :: u64
  e_type :: u32
  e_attrs :: u32

section \<open>Operations\<close>

definition pmm_alloc_page :: "'a pmm_state_scheme \<Rightarrow> u64 \<times> 'a pmm_state_scheme" where
  "pmm_alloc_page s =
     (if free_stack s = 0 then (0, s)
      else
        let page = free_stack s;
            s = s\<lparr>free_stack := read64 (mem s) (free_stack s)\<rparr>
        in (page, s\<lparr>mem := zero_words 512 page (mem s)\<rparr>))"

definition pmm_free_page :: "u64 \<Rightarrow> 'a pmm_state_scheme \<Rightarrow> 'a pmm_state_scheme" where
  "pmm_free_page addr s =
     s\<lparr>mem := write64 addr (free_stack s) (mem s), free_stack := addr\<rparr>"

text \<open>An entry of the packed, 24-byte array \<^verbatim>\<open>e820_entry_t\<close>.\<close>

definition read_e820 :: "memory \<Rightarrow> u64 \<Rightarrow> e820_entry" where
  "read_e820 m a =
     \<lparr>e_base = read64 m a, e_len = read64 m (a + 8), e_type = read32 m (a + 16),
      e_attrs = read32 m (a + 20)\<rparr>"

definition e820_at :: "memory \<Rightarrow> nat \<Rightarrow> e820_entry" where
  "e820_at m i = read_e820 m (E820_BASE + 4 + 24 * of_nat i)"

text \<open>The body of the inner loop: skip reserved pages, push the others.\<close>

definition reserved :: "u64 \<Rightarrow> u64 \<Rightarrow> bool" where
  "reserved kernel_end addr \<longleftrightarrow>
     (addr \<ge> 0x1000 \<and> addr < 0x4000) \<or> (addr \<ge> 0x7C00 \<and> addr < 0x8600)
     \<or> (addr \<ge> 0x100000 \<and> addr < kernel_end)"

definition pmm_add_page :: "u64 \<Rightarrow> u64 \<Rightarrow> 'a pmm_state_scheme \<Rightarrow> 'a pmm_state_scheme" where
  "pmm_add_page kernel_end addr s =
     (if reserved kernel_end addr then s
      else s\<lparr>mem := write64 addr (free_stack s) (mem s), free_stack := addr\<rparr>)"

definition region_start :: "e820_entry \<Rightarrow> u64" where
  "region_start e = (if e_base e < 0x100000 then 0x100000 else e_base e)"

definition region_end :: "e820_entry \<Rightarrow> u64" where
  "region_end e = e_base e + e_len e"

definition pmm_add_region ::
  "u64 \<Rightarrow> e820_entry \<Rightarrow> 'a pmm_state_scheme \<Rightarrow> 'a pmm_state_scheme res" where
  "pmm_add_region kernel_end e s =
     (if e_type e \<noteq> 1 then Inr s
      else
        let start = region_start e; finish = region_end e
        in if start \<ge> finish then Inr s
           else
             let start = (start + PAGE_SIZE - 1) AND NOT (PAGE_SIZE - 1);
                 finish = finish AND NOT (PAGE_SIZE - 1)
             in bind_res (for_pages (\<lambda>addr s. (True, pmm_add_page kernel_end addr s)) start finish s)
                  (\<lambda>(_, s). Inr s))"

primrec pmm_init_loop ::
  "u64 \<Rightarrow> nat \<Rightarrow> nat \<Rightarrow> 'a pmm_state_scheme \<Rightarrow> 'a pmm_state_scheme res" where
  "pmm_init_loop kernel_end 0 i s = Inr s"
| "pmm_init_loop kernel_end (Suc n) i s =
     bind_res (pmm_add_region kernel_end (e820_at (mem s) i) s)
       (pmm_init_loop kernel_end n (Suc i))"

text \<open>\<open>kernel_end\<close> is the address of the linker symbol \<^verbatim>\<open>_end\<close>.\<close>

definition pmm_init :: "u64 \<Rightarrow> 'a pmm_state_scheme \<Rightarrow> 'a pmm_state_scheme res" where
  "pmm_init kernel_end s =
     (let count = read32 (mem s) E820_BASE;
          s = kputs crlf (kputhex (ucast count) (kputs ''[kernel] E820 entries: '' s))
      in bind_res (pmm_init_loop kernel_end (unat count) 0 s)
           (\<lambda>s. Inr (kputs (''[kernel] PMM ready'' @ crlf) s)))"

section \<open>The free list\<close>

fun free_chain :: "memory \<Rightarrow> u64 \<Rightarrow> u64 list \<Rightarrow> bool" where
  "free_chain m p [] \<longleftrightarrow> p = 0"
| "free_chain m p (q # qs) \<longleftrightarrow>
     p = q \<and> q \<noteq> 0 \<and> page_aligned q \<and> free_chain m (read64 m q) qs"

definition free_frames :: "'a pmm_state_scheme \<Rightarrow> u64 list \<Rightarrow> bool" where
  "free_frames s ps \<longleftrightarrow> free_chain (mem s) (free_stack s) ps"

lemma free_chain_append:
  "free_chain m p (xs @ ys) \<Longrightarrow> \<exists>q. free_chain m q ys"
  by (induction xs arbitrary: p) auto

lemma free_chain_unique: "free_chain m p xs \<Longrightarrow> free_chain m p ys \<Longrightarrow> xs = ys"
proof (induction xs arbitrary: p ys)
  case Nil
  then show ?case by (cases ys) auto
next
  case (Cons x xs)
  then show ?case by (cases ys) auto
qed

text \<open>A chain that ends has no page twice: its tail from a page is determined by that page.\<close>

lemma free_chain_distinct: "free_chain m p ps \<Longrightarrow> distinct ps"
proof (induction ps arbitrary: p)
  case Nil
  then show ?case by simp
next
  case (Cons q qs)
  have "q \<notin> set qs"
  proof
    assume "q \<in> set qs"
    then obtain us vs where qs: "qs = us @ q # vs" by (meson split_list)
    have tail: "free_chain m (read64 m q) qs" using Cons.prems by simp
    then obtain r where "free_chain m r (q # vs)"
      using free_chain_append qs by blast
    then have "free_chain m (read64 m q) vs" by simp
    with tail have "qs = vs" by (rule free_chain_unique)
    with qs show False by simp
  qed
  with Cons show ?case by auto
qed

lemma free_chain_members: "free_chain m p ps \<Longrightarrow> q \<in> set ps \<Longrightarrow> page_aligned q \<and> q \<noteq> 0"
  by (induction ps arbitrary: p) auto

lemma free_chain_cong:
  assumes "\<And>a. page_of a \<in> set ps \<Longrightarrow> m' a = m a"
  shows "free_chain m p ps \<Longrightarrow> free_chain m' p ps"
  using assms
proof (induction ps arbitrary: p)
  case Nil
  then show ?case by simp
next
  case (Cons q qs)
  have "read64 m' q = read64 m q"
  proof (rule read64_cong)
    fix d :: u64
    assume "d < 8"
    then have "d < 4096" by (rule order.strict_trans) simp
    then show "m' (q + d) = m (q + d)"
      using Cons.prems by (simp add: page_of_add)
  qed
  with Cons show ?case by simp
qed

lemma write_word_other_page:
  assumes "page_aligned q" "page_of a \<noteq> q"
  shows "write64 q v m a = m a"
  using write_slot_other_page[of q 0 a v m] assms by (simp add: slot_def)

lemma pmm_free_page_frames:
  assumes "free_frames s ps" "page_aligned p" "p \<noteq> 0" "p \<notin> set ps"
  shows "free_frames (pmm_free_page p s) (p # ps)"
proof -
  have "free_chain (write64 p (free_stack s) (mem s)) (free_stack s) ps"
  proof (rule free_chain_cong[of ps _ "mem s"])
    show "write64 p (free_stack s) (mem s) a = mem s a" if "page_of a \<in> set ps" for a
      using that assms by (intro write_word_other_page) auto
    show "free_chain (mem s) (free_stack s) ps"
      using assms by (simp add: free_frames_def)
  qed
  with assms show ?thesis by (simp add: free_frames_def pmm_free_page_def)
qed

lemma pmm_alloc_page_frames:
  assumes "free_frames s (p # ps)"
  shows "pmm_alloc_page s =
           (p, s\<lparr>free_stack := read64 (mem s) p, mem := \<lambda>a. if page_of a = p then 0 else mem s a\<rparr>)"
    and "free_frames (snd (pmm_alloc_page s)) ps"
proof -
  have p: "free_stack s = p" "p \<noteq> 0" "page_aligned p"
    using assms by (simp_all add: free_frames_def)
  then show eq: "pmm_alloc_page s =
      (p, s\<lparr>free_stack := read64 (mem s) p, mem := \<lambda>a. if page_of a = p then 0 else mem s a\<rparr>)"
    by (simp add: pmm_alloc_page_def zero_words_page)
  have notin: "p \<notin> set ps"
    using free_chain_distinct[of "mem s" p "p # ps"] assms p by (simp add: free_frames_def)
  have "free_chain (\<lambda>a. if page_of a = p then 0 else mem s a) (read64 (mem s) p) ps"
  proof (rule free_chain_cong[of ps _ "mem s"])
    show "(if page_of a = p then 0 else mem s a) = mem s a"
      if "page_of a \<in> set ps" for a
      using that notin by auto
    show "free_chain (mem s) (read64 (mem s) p) ps"
      using assms by (simp add: free_frames_def)
  qed
  then show "free_frames (snd (pmm_alloc_page s)) ps"
    by (simp add: eq free_frames_def)
qed

lemma pmm_alloc_page_empty: "free_frames s [] \<Longrightarrow> pmm_alloc_page s = (0, s)"
  by (simp add: free_frames_def pmm_alloc_page_def)

section \<open>The allocator interface\<close>

text \<open>
  What a client of the allocator may assume: \<open>frames s ps\<close> says that the free frames are
  \<open>ps\<close>, next one first.
\<close>

locale page_allocator =
  fixes alloc :: "'s \<Rightarrow> u64 \<times> 's"
    and free :: "u64 \<Rightarrow> 's \<Rightarrow> 's"
    and frames :: "'s \<Rightarrow> u64 list \<Rightarrow> bool"
    and contents :: "'s \<Rightarrow> memory"
  assumes alloc_none: "frames s [] \<Longrightarrow> alloc s = (0, s)"
    and alloc_some: "frames s (p # ps) \<Longrightarrow> fst (alloc s) = p"
    and alloc_frames: "frames s (p # ps) \<Longrightarrow> frames (snd (alloc s)) ps"
    and alloc_contents: "frames s (p # ps) \<Longrightarrow>
          contents (snd (alloc s)) = (\<lambda>a. if page_of a = p then 0 else contents s a)"
    and free_frames: "frames s ps \<Longrightarrow> page_aligned p \<Longrightarrow> p \<noteq> 0 \<Longrightarrow> p \<notin> set ps \<Longrightarrow>
          frames (free p s) (p # ps)"
    and free_contents: "page_aligned p \<Longrightarrow> page_of a \<noteq> p \<Longrightarrow> contents (free p s) a = contents s a"
    and frames_distinct: "frames s ps \<Longrightarrow> distinct ps"
    and frames_aligned: "frames s ps \<Longrightarrow> p \<in> set ps \<Longrightarrow> page_aligned p \<and> p \<noteq> 0"
begin

lemma alloc_fails_iff:
  assumes "frames s ps"
  shows "fst (alloc s) = 0 \<longleftrightarrow> ps = []"
proof (cases ps)
  case Nil
  then show ?thesis using assms by (simp add: alloc_none)
next
  case (Cons p qs)
  then show ?thesis using assms alloc_some[of s p qs] frames_aligned[of s ps p] by simp
qed

lemma alloc_cases:
  assumes "frames s ps"
  obtains (none) "ps = []" "alloc s = (0, s)"
    | (some) p qs t where "ps = p # qs" "alloc s = (p, t)" "frames t qs" "p \<noteq> 0"
        "page_aligned p" "p \<notin> set qs"
        "contents t = (\<lambda>a. if page_of a = p then 0 else contents s a)"
proof (cases ps)
  case Nil
  then show ?thesis using assms none by (simp add: alloc_none)
next
  case (Cons p qs)
  then have f: "frames s (p # qs)" using assms by simp
  obtain t where "alloc s = (p, t)"
    using alloc_some[OF f] by (metis prod.collapse)
  then show ?thesis
    using some[of p qs t] Cons alloc_frames[OF f] alloc_contents[OF f] frames_distinct[OF f]
      frames_aligned[OF f, of p] by simp
qed

lemma alloc_page_zero:
  assumes "frames s (p # ps)" "page_of a = p"
  shows "contents (snd (alloc s)) a = 0"
  using alloc_contents[OF assms(1)] assms(2) by simp

text \<open>A page that is freed is the next one handed out, and nothing is lost on the way.\<close>

lemma alloc_after_free:
  assumes "frames s ps" "page_aligned p" "p \<noteq> 0" "p \<notin> set ps"
  shows "fst (alloc (free p s)) = p" "frames (snd (alloc (free p s))) ps"
  using alloc_some[OF free_frames[OF assms]] alloc_frames[OF free_frames[OF assms]] by simp_all

lemma free_after_alloc:
  assumes "frames s (p # ps)"
  shows "frames (free p (snd (alloc s))) (p # ps)"
proof -
  have "p \<notin> set ps" "page_aligned p" "p \<noteq> 0"
    using frames_distinct[OF assms] frames_aligned[OF assms, of p] by simp_all
  then show ?thesis using free_frames[OF alloc_frames[OF assms]] by simp
qed

end

interpretation pmm: page_allocator pmm_alloc_page pmm_free_page free_frames mem
proof
  fix s :: "'a pmm_state_scheme" and p a :: u64 and ps :: "u64 list"
  show "free_frames s [] \<Longrightarrow> pmm_alloc_page s = (0, s)"
    by (rule pmm_alloc_page_empty)
  show "free_frames s (p # ps) \<Longrightarrow> fst (pmm_alloc_page s) = p"
    by (simp add: pmm_alloc_page_frames(1))
  show "free_frames s (p # ps) \<Longrightarrow> free_frames (snd (pmm_alloc_page s)) ps"
    by (rule pmm_alloc_page_frames(2))
  show "free_frames s (p # ps) \<Longrightarrow>
      mem (snd (pmm_alloc_page s)) = (\<lambda>a. if page_of a = p then 0 else mem s a)"
    by (simp add: pmm_alloc_page_frames(1))
  show "free_frames s ps \<Longrightarrow> page_aligned p \<Longrightarrow> p \<noteq> 0 \<Longrightarrow> p \<notin> set ps \<Longrightarrow>
      free_frames (pmm_free_page p s) (p # ps)"
    by (rule pmm_free_page_frames)
  show "page_aligned p \<Longrightarrow> page_of a \<noteq> p \<Longrightarrow> mem (pmm_free_page p s) a = mem s a"
    by (simp add: pmm_free_page_def write_word_other_page)
  show "free_frames s ps \<Longrightarrow> distinct ps"
    by (simp add: free_frames_def free_chain_distinct)
  show "free_frames s ps \<Longrightarrow> p \<in> set ps \<Longrightarrow> page_aligned p \<and> p \<noteq> 0"
    using free_chain_members by (auto simp: free_frames_def)
qed

section \<open>Filling the free list from the E820 map\<close>

text \<open>The frames an E820 entry contributes, in the order the loop visits them.\<close>

definition usable_pages :: "u64 \<Rightarrow> e820_entry \<Rightarrow> u64 list" where
  "usable_pages kernel_end e =
     (if e_type e = 1 \<and> region_start e < region_end e
      then filter (\<lambda>a. \<not> reserved kernel_end a)
             (page_list ((region_start e + PAGE_SIZE - 1) AND NOT (PAGE_SIZE - 1))
                (region_end e AND NOT (PAGE_SIZE - 1)))
      else [])"

text \<open>x86-64 physical addresses have at most 52 bits.\<close>

definition e820_ok :: "e820_entry \<Rightarrow> bool" where
  "e820_ok e \<longleftrightarrow> unat (e_base e) + unat (e_len e) \<le> 2 ^ 52"

lemma page_list_align_fold:
  "for_pages (\<lambda>v s. (True, f v s)) (page_of v) (page_of e) s =
     Inr (True, fold f (page_list (page_of v) (page_of e)) s)"
  by (rule for_pages_fold) simp_all

lemma fold_pmm_add_page_skip:
  "fold (pmm_add_page kernel_end) as s =
     fold (pmm_add_page kernel_end) (filter (\<lambda>a. \<not> reserved kernel_end a) as) s"
  by (induction as arbitrary: s) (simp_all add: pmm_add_page_def)

lemma pmm_add_region_eq:
  "pmm_add_region kernel_end e s =
     Inr (fold (pmm_add_page kernel_end) (usable_pages kernel_end e) s)"
  using page_list_align_fold[of "pmm_add_page kernel_end" "region_start e + 4095" "region_end e" s]
  by (simp add: pmm_add_region_def usable_pages_def Let_def page_of_def not_le algebra_simps
      flip: fold_pmm_add_page_skip)

lemma fold_pmm_add_page_frames:
  assumes "free_frames s ps" "distinct as" "set as \<inter> set ps = {}"
    and "\<forall>a \<in> set as. \<not> reserved kernel_end a \<and> page_aligned a \<and> a \<noteq> 0"
  shows "free_frames (fold (pmm_add_page kernel_end) as s) (rev as @ ps)"
  using assms
proof (induction as arbitrary: s ps)
  case Nil
  then show ?case by simp
next
  case (Cons a as)
  have "pmm_add_page kernel_end a s = pmm_free_page a s"
    using Cons.prems(4) by (simp add: pmm_add_page_def pmm_free_page_def)
  moreover have "free_frames (pmm_free_page a s) (a # ps)"
    using Cons.prems by (intro pmm.free_frames) auto
  ultimately show ?case
    using Cons.IH[of "pmm_free_page a s" "a # ps"] Cons.prems by auto
qed

lemma fold_pmm_add_page_mem:
  assumes "\<forall>a \<in> set as. page_aligned a" "page_of b \<notin> set as"
  shows "mem (fold (pmm_add_page kernel_end) as s) b = mem s b"
  using assms
  by (induction as arbitrary: s) (auto simp: pmm_add_page_def write_word_other_page)

lemma usable_pages_members:
  assumes "e820_ok e" "a \<in> set (usable_pages kernel_end e)"
  shows "page_aligned a" "0x100000 \<le> a" "a < region_end e" "\<not> reserved kernel_end a"
proof -
  let ?v = "(region_start e + PAGE_SIZE - 1) AND NOT (PAGE_SIZE - 1)"
  let ?e = "region_end e AND NOT (PAGE_SIZE - 1)"
  have a: "a \<in> set (page_list ?v ?e)" "region_start e < region_end e" "\<not> reserved kernel_end a"
    using assms(2) by (auto simp: usable_pages_def split: if_splits)
  show "page_aligned a" "\<not> reserved kernel_end a"
    using a page_list_aligned[of ?v a ?e] page_of_page_aligned[of "region_start e + 4095"]
    by (auto simp: page_of_def algebra_simps)
  have le: "?e \<le> region_end e" by (rule word_and_le2)
  then show "a < region_end e"
    using page_list_bounds[OF a(1)] by (auto intro: order.strict_trans2)
  have "unat (region_end e) = unat (e_base e) + unat (e_len e)"
    using assms(1) by (simp add: region_end_def e820_ok_def unat_word_ariths)
  then have "unat (region_start e) < 2 ^ 52"
    using assms(1) a(2) by (simp add: e820_ok_def word_less_nat_alt)
  then have up: "unat (region_start e + 4095) = unat (region_start e) + 4095"
    by (simp add: unat_word_ariths)
  have "0x100000 \<le> unat (region_start e)"
    by (simp add: region_start_def word_less_nat_alt)
  then have "256 \<le> (unat (region_start e) + 4095) div 4096"
    by (simp add: less_eq_div_iff_mult_less_eq)
  then have "0x100000 \<le> unat (page_of (region_start e + 4095))"
    by (simp add: unat_page_of up)
  moreover have "?v = page_of (region_start e + 4095)"
    by (simp add: page_of_def algebra_simps)
  ultimately have "0x100000 \<le> ?v" by (simp add: word_le_nat_alt)
  then show "0x100000 \<le> a"
    using page_list_bounds[OF a(1)] by (auto intro: order.trans)
qed

lemma usable_pages_distinct: "distinct (usable_pages kernel_end e)"
  by (simp add: usable_pages_def page_list_distinct)

lemma e820_at_cong:
  assumes "i < 1000" "\<And>a. a < 0x100000 \<Longrightarrow> m a = m' a"
  shows "e820_at m i = e820_at m' i"
proof -
  define b :: u64 where "b = E820_BASE + 4 + 24 * of_nat i"
  have b: "unat b = 16388 + 24 * i"
    using assms(1) by (simp add: b_def unat_word_ariths unat_of_nat take_bit_nat_eq_self_iff)
  have m: "m (b + d) = m' (b + d)" if "d < 24" for d
  proof -
    have "unat d < 24" using that by (simp add: word_less_nat_alt)
    then have "unat (b + d) = 16388 + 24 * i + unat d"
      using b assms(1) by (simp add: unat_word_ariths)
    then show ?thesis
      using assms \<open>unat d < 24\<close> by (simp add: word_less_nat_alt)
  qed
  have off: "d < 8 \<Longrightarrow> k \<le> 16 \<Longrightarrow> k + d < 24" for d k :: u64
    by (simp add: word_less_nat_alt word_le_nat_alt unat_word_ariths)
  have "read64 m b = read64 m' b" "read64 m (b + 8) = read64 m' (b + 8)"
    using m off[of _ 0] off[of _ 8] by (auto intro!: read64_cong simp: add.assoc)
  moreover have "d < 4 \<Longrightarrow> 16 + d < 24" "d < 4 \<Longrightarrow> 20 + d < 24" for d :: u64
    by (simp_all add: word_less_nat_alt unat_word_ariths)
  then have "read32 m (b + 16) = read32 m' (b + 16)" "read32 m (b + 20) = read32 m' (b + 20)"
    using m by (auto intro!: read32_cong simp: add.assoc)
  ultimately show ?thesis
    by (simp add: e820_at_def read_e820_def b_def add.assoc)
qed

lemma fold_pmm_add_page_low:
  assumes "e820_ok e" "b < 0x100000"
  shows "mem (fold (pmm_add_page kernel_end) (usable_pages kernel_end e) s) b = mem s b"
proof (rule fold_pmm_add_page_mem)
  show "\<forall>a\<in>set (usable_pages kernel_end e). page_aligned a"
    using usable_pages_members[OF assms(1)] by blast
  show "page_of b \<notin> set (usable_pages kernel_end e)"
    using usable_pages_members(2)[OF assms(1), of "page_of b" kernel_end] page_of_le[of b] assms(2)
    by fastforce
qed

lemma pmm_init_loop_frames:
  assumes "free_frames s ps" "i + k \<le> 1000"
    and "\<forall>j \<in> {i..<i + k}. e820_ok (e820_at m j)"
    and "\<forall>b < 0x100000. mem s b = m b"
    and "distinct (concat (map (\<lambda>j. usable_pages kernel_end (e820_at m j)) [i..<i + k]))"
    and "set (concat (map (\<lambda>j. usable_pages kernel_end (e820_at m j)) [i..<i + k])) \<inter> set ps = {}"
  shows "\<exists>t. pmm_init_loop kernel_end k i s = Inr t
     \<and> free_frames t (rev (concat (map (\<lambda>j. usable_pages kernel_end (e820_at m j)) [i..<i + k])) @ ps)"
  using assms
proof (induction k arbitrary: i s ps)
  case 0
  then show ?case by simp
next
  case (Suc k)
  let ?U = "\<lambda>j. usable_pages kernel_end (e820_at m j)"
  let ?t = "fold (pmm_add_page kernel_end) (?U i) s"
  have upt: "[i..<i + Suc k] = i # [Suc i..<Suc i + k]" by (simp add: upt_conv_Cons)
  have ok: "e820_ok (e820_at m i)" using Suc.prems(3) by simp
  have now: "e820_at (mem s) i = e820_at m i"
    using Suc.prems(2,4) by (intro e820_at_cong) auto
  have "\<forall>a \<in> set (?U i). \<not> reserved kernel_end a \<and> page_aligned a \<and> a \<noteq> 0"
    using usable_pages_members[OF ok] by fastforce
  then have t: "free_frames ?t (rev (?U i) @ ps)"
    using Suc.prems(1) Suc.prems(6)[unfolded upt] usable_pages_distinct
    by (intro fold_pmm_add_page_frames) auto
  have "\<exists>u. pmm_init_loop kernel_end k (Suc i) ?t = Inr u
     \<and> free_frames u (rev (concat (map ?U [Suc i..<Suc i + k])) @ rev (?U i) @ ps)"
  proof (rule Suc.IH[OF t])
    show "Suc i + k \<le> 1000" "\<forall>j\<in>{Suc i..<Suc i + k}. e820_ok (e820_at m j)"
      using Suc.prems(2,3) by simp_all
    show "\<forall>b < 0x100000. mem ?t b = m b"
      using Suc.prems(4) by (simp add: fold_pmm_add_page_low[OF ok])
    show "distinct (concat (map ?U [Suc i..<Suc i + k]))"
      using Suc.prems(5)[unfolded upt] by (simp del: upt_Suc)
    show "set (concat (map ?U [Suc i..<Suc i + k])) \<inter> set (rev (?U i) @ ps) = {}"
      using Suc.prems(5,6)[unfolded upt] by (auto simp del: upt_Suc)
  qed
  then show ?case
    unfolding upt by (simp add: now pmm_add_region_eq del: upt_Suc)
qed

section \<open>Properties\<close>

text \<open>A small machine with three free pages, for the witnesses.\<close>

definition pmm_demo :: pmm_state where
  "pmm_demo =
     \<lparr>mem = write64 0x200000 0x201000 (write64 0x201000 0x203000 (\<lambda>_. 0)), device = (\<lambda>_ _. 0),
      io_log = [], console = [], free_stack = 0x200000\<rparr>"

lemma pmm_demo_frames: "free_frames pmm_demo [0x200000, 0x201000, 0x203000]"
  by (simp add: pmm_demo_def free_frames_def page_aligned_def read64_write64_other aligned8_def)
    (simp add: read64_def write64_def)

text \<open>
  C5: with free frames \<open>ps\<close>, \<^verbatim>\<open>pmm_alloc_page\<close> returns 0 and changes nothing when there
  is none, and otherwise returns the top frame, which is aligned, non-null and no longer
  free, with its 4096 bytes cleared and every other byte of memory untouched.
\<close>

theorem pmm_alloc_page_correct:
  assumes "free_frames s ps"
  shows "case ps of
           [] \<Rightarrow> pmm_alloc_page s = (0, s)
         | p # qs \<Rightarrow>
             (\<exists>t. pmm_alloc_page s = (p, t) \<and> free_frames t qs \<and> p \<notin> set qs \<and> page_aligned p \<and> p \<noteq> 0
                \<and> mem t = (\<lambda>a. if page_of a = p then 0 else mem s a))"
  using assms by (rule pmm.alloc_cases) simp_all

theorem pmm_alloc_page_correct_witness:
  "\<exists>t. pmm_alloc_page pmm_demo = (0x200000, t) \<and> free_frames t [0x201000, 0x203000]"
  using pmm_alloc_page_correct[OF pmm_demo_frames] by auto

text \<open>
  \<^verbatim>\<open>pmm_free_page\<close> on an aligned, non-null page that is not free pushes it on the
  free list; the next \<^verbatim>\<open>pmm_alloc_page\<close> returns that page and leaves the free list as it
  was; and no byte outside the page changes in either step.
\<close>

theorem pmm_free_alloc_roundtrip:
  assumes "free_frames s ps" "page_aligned p" "p \<noteq> 0" "p \<notin> set ps"
  shows "free_frames (pmm_free_page p s) (p # ps)
    \<and> (\<exists>t. pmm_alloc_page (pmm_free_page p s) = (p, t) \<and> free_frames t ps
          \<and> (\<forall>a. page_of a \<noteq> p \<longrightarrow> mem t a = mem s a))"
proof -
  have f: "free_frames (pmm_free_page p s) (p # ps)"
    using assms by (rule pmm.free_frames)
  then show ?thesis
    by (rule pmm.alloc_cases) (auto simp: f pmm.free_contents[OF assms(2)])
qed

theorem pmm_free_alloc_roundtrip_witness:
  "\<exists>t. pmm_alloc_page (pmm_free_page 0x205000 pmm_demo) = (0x205000, t)
       \<and> free_frames t [0x200000, 0x201000, 0x203000]"
  using pmm_free_alloc_roundtrip[OF pmm_demo_frames, of "0x205000"]
  by (simp add: page_aligned_def) blast


definition e820_demo :: pmm_state where
  "e820_demo =
     \<lparr>mem = write32 0x4000 1 (write64 0x4004 0x200000 (write64 0x400C 0x3000
        (write32 0x4014 1 (\<lambda>_. 0)))),
      device = (\<lambda>_ _. 0), io_log = [], console = [], free_stack = 0\<rparr>"


text \<open>
  Freeing the same page twice corrupts the allocator: the next two allocations both
  return that page, so two owners share one frame.
\<close>

theorem pmm_double_free_hands_out_twice:
  assumes "page_aligned p" "p \<noteq> 0"
  shows "fst (pmm_alloc_page (pmm_free_page p (pmm_free_page p s))) = p
    \<and> fst (pmm_alloc_page (snd (pmm_alloc_page (pmm_free_page p (pmm_free_page p s))))) = p"
  using assms by (simp add: pmm_alloc_page_def pmm_free_page_def Let_def)

theorem pmm_double_free_hands_out_twice_witness:
  "fst (pmm_alloc_page (pmm_free_page 0x5000 (pmm_free_page 0x5000 pmm_demo))) = 0x5000"
  using pmm_double_free_hands_out_twice[of "0x5000" pmm_demo] by (simp add: page_aligned_def)

end
