(* ===== verification/Paging.thy ===== *)
theory Paging
  imports Pmm
begin

text \<open>
  Four-level page tables, \<^verbatim>\<open>kernel/paging.c\<close>. The tables live in physical memory and are
  read and written as 512-entry arrays of \<^verbatim>\<open>u64\<close>, through the identity map, exactly as the
  code does. \<open>mmu_walk\<close> is the x86-64 translation the tables are for (hardware, not code of
  the repository); it says what an access through \<^verbatim>\<open>cr3\<close> reaches, and is the
  specification the table operations are proved against. Translations are read from the
  tables at every access, so \<^verbatim>\<open>invlpg\<close> has no effect in the model.
\<close>

abbreviation PAGE_PRESENT :: u64 where "PAGE_PRESENT \<equiv> 1"
abbreviation PAGE_WRITABLE :: u64 where "PAGE_WRITABLE \<equiv> 2"
abbreviation PAGE_USER :: u64 where "PAGE_USER \<equiv> 4"
abbreviation PAGE_PS :: u64 where "PAGE_PS \<equiv> 0x80"

record paging_state = pmm_state +
  paging_root :: u64
  cr3 :: u64

abbreviation kernel_pml4_template :: u64 where
  "kernel_pml4_template \<equiv> 0x1000"

section \<open>Operations\<close>

definition pml4_i :: "u64 \<Rightarrow> u64" where "pml4_i virt = drop_bit 39 virt AND 0x1FF"
definition pdpt_i :: "u64 \<Rightarrow> u64" where "pdpt_i virt = drop_bit 30 virt AND 0x1FF"
definition pdt_i :: "u64 \<Rightarrow> u64" where "pdt_i virt = drop_bit 21 virt AND 0x1FF"
definition pt_i :: "u64 \<Rightarrow> u64" where "pt_i virt = drop_bit 12 virt AND 0x1FF"

text \<open>\<^verbatim>\<open>((u64*)t)[i]\<close>, read and written.\<close>

definition entry :: "memory \<Rightarrow> u64 \<Rightarrow> u64 \<Rightarrow> u64" where
  "entry m t i = read64 m (slot t i)"

definition set_entry ::
  "u64 \<Rightarrow> u64 \<Rightarrow> u64 \<Rightarrow> 'a paging_state_scheme \<Rightarrow> 'a paging_state_scheme" where
  "set_entry t i v s = s\<lparr>mem := write64 (slot t i) v (mem s)\<rparr>"

definition paging_init :: "'a paging_state_scheme \<Rightarrow> 'a paging_state_scheme" where
  "paging_init s = kputs (''[kernel] Paging ready'' @ crlf) s"

definition paging_switch :: "u64 \<Rightarrow> 'a paging_state_scheme \<Rightarrow> 'a paging_state_scheme" where
  "paging_switch pml4_phys s = s\<lparr>paging_root := pml4_phys, cr3 := pml4_phys\<rparr>"

definition clone_entries :: "u64 \<Rightarrow> u64 \<Rightarrow> 'a paging_state_scheme \<Rightarrow> 'a paging_state_scheme" where
  "clone_entries src_pdt dst_pdt s =
     fold (\<lambda>i s. set_entry dst_pdt (of_nat i) (entry (mem s) src_pdt (of_nat i) AND NOT PAGE_USER) s)
       [0..<512] s"

definition paging_clone_kernel :: "'a paging_state_scheme \<Rightarrow> u64 \<times> 'a paging_state_scheme" where
  "paging_clone_kernel s =
     (let src_pml4 = kernel_pml4_template;
          (pml4, s) = pmm_alloc_page s;
          (pdpt, s) = pmm_alloc_page s;
          (pdt, s) = pmm_alloc_page s
      in if pml4 = 0 \<or> pdpt = 0 \<or> pdt = 0
         then (0, kputs (''[kernel] paging_clone: OOM'' @ crlf) s)
         else
           let s = set_entry pml4 0 (pdpt OR (entry (mem s) src_pml4 0 AND 0xFFF)) s;
               src_pdpt = entry (mem s) src_pml4 0 AND NOT 0xFFF;
               s = set_entry pdpt 0 (pdt OR (entry (mem s) src_pdpt 0 AND 0xFFF)) s;
               src_pdt = entry (mem s) src_pdpt 0 AND NOT 0xFFF
           in (pml4, clone_entries src_pdt pdt s))"

text \<open>
  The step \<^verbatim>\<open>map_page\<close> takes at the upper levels: make sure entry \<open>i\<close> of table \<open>t\<close>
  points to a table, allocating one with attribute bits \<open>attr\<close> if it is absent.
  \<open>None\<close> is the early return when no page is free.
\<close>

definition ensure_table ::
  "u64 \<Rightarrow> u64 \<Rightarrow> u64 \<Rightarrow> 'a paging_state_scheme \<Rightarrow> u64 option \<times> 'a paging_state_scheme" where
  "ensure_table t i attr s =
     (let e = entry (mem s) t i
      in if e AND 1 = 0
         then
           let (page, s) = pmm_alloc_page s
           in if page = 0 then (None, s)
              else let s = set_entry t i (page OR attr) s in (Some (entry (mem s) t i), s)
         else (Some e, s))"

text \<open>Replace a 2 MiB entry by a table of 512 pages with the same attributes.\<close>

definition fill_split :: "u64 \<Rightarrow> u64 \<Rightarrow> 'a paging_state_scheme \<Rightarrow> 'a paging_state_scheme" where
  "fill_split pde page s =
     fold (\<lambda>i s. set_entry page (of_nat i)
             (((pde AND NOT 0x1FFFFF) + of_nat i * 0x1000) OR (pde AND 0x1FF)) s)
       [0..<512] s"

definition split_large ::
  "u64 \<Rightarrow> u64 \<Rightarrow> u64 \<Rightarrow> u64 \<Rightarrow> u64 \<Rightarrow> 'a paging_state_scheme \<Rightarrow> u64 option \<times> 'a paging_state_scheme" where
  "split_large virt phys pdt i pde s =
     (let s = kputhex phys (kputs ''->'' (kputhex virt (kputs ''[kernel] split '' s)));
          s = kputhex (paging_root s) (kputs '' cr3='' s);
          (page, s) = pmm_alloc_page s
      in if page = 0 then (None, kputs ('' OOM'' @ [CHR 0x0A]) s)
         else
           let s = fill_split pde page s;
               s = set_entry pdt i (page OR 7) s;
               pde = entry (mem s) pdt i;
               s = kputhex page (kputs '' pt='' s);
               s = kputs [CHR 0x0A] (kputhex pde (kputs '' pde='' s))
           in (Some pde, s))"

definition map_page ::
  "u64 \<Rightarrow> u64 \<Rightarrow> u64 \<Rightarrow> 'a paging_state_scheme \<Rightarrow> 'a paging_state_scheme" where
  "map_page virt phys flags s =
     (case ensure_table (paging_root s) (pml4_i virt) 3 s of
        (None, s) \<Rightarrow> s
      | (Some pml4e, s) \<Rightarrow>
     (case ensure_table (pml4e AND NOT 0xFFF) (pdpt_i virt) 3 s of
        (None, s) \<Rightarrow> s
      | (Some pdpte, s) \<Rightarrow>
        let pdt = pdpte AND NOT 0xFFF;
            pde = entry (mem s) pdt (pdt_i virt)
        in if virt AND 0x1FFFFF = 0 \<and> phys AND 0x1FFFFF = 0
           then set_entry pdt (pdt_i virt) (phys OR flags OR PAGE_PS) s
           else
             (case (if pde AND 1 = 0 then ensure_table pdt (pdt_i virt) 7 s
                    else if pde AND PAGE_PS \<noteq> 0 then split_large virt phys pdt (pdt_i virt) pde s
                    else (Some pde, s)) of
                (None, s) \<Rightarrow> s
              | (Some pde, s) \<Rightarrow> set_entry (pde AND NOT 0xFFF) (pt_i virt) (phys OR flags) s)))"

definition map_page_flags ::
  "u64 \<Rightarrow> u64 \<Rightarrow> 'a paging_state_scheme \<Rightarrow> 'a paging_state_scheme" where
  "map_page_flags virt flags s =
     (let m = mem s; pml4 = paging_root s; pml4e = entry m pml4 (pml4_i virt)
      in if pml4e AND 1 = 0 then s
         else
           let pdpt = pml4e AND NOT 0xFFF; pde = entry m pdpt (pdpt_i virt)
           in if pde AND 1 = 0 then s
              else if pde AND PAGE_PS \<noteq> 0
              then set_entry pdpt (pdpt_i virt) ((pde AND NOT 0x1FF) OR (flags AND 0x1FF)) s
              else
                let pdt = pde AND NOT 0xFFF; e = entry m pdt (pdt_i virt)
                in if e AND 1 = 0 then s
                   else if e AND PAGE_PS \<noteq> 0
                   then set_entry pdt (pdt_i virt) ((e AND NOT 0x1FF) OR (flags AND 0x1FF)) s
                   else
                     let pt = e AND NOT 0xFFF; p = entry m pt (pt_i virt)
                     in if p AND 1 = 0 then s
                        else set_entry pt (pt_i virt) ((p AND NOT 0x1FF) OR (flags AND 0x1FF)) s)"

definition unmap_page :: "u64 \<Rightarrow> 'a paging_state_scheme \<Rightarrow> 'a paging_state_scheme" where
  "unmap_page virt s =
     (let m = mem s; pml4 = paging_root s; pml4e = entry m pml4 (pml4_i virt)
      in if pml4e AND 1 = 0 then s
         else
           let pdpt = pml4e AND NOT 0xFFF; pde = entry m pdpt (pdpt_i virt)
           in if pde AND 1 = 0 then s
              else if pde AND PAGE_PS \<noteq> 0 then set_entry pdpt (pdpt_i virt) (pde AND NOT 1) s
              else
                let pdt = pde AND NOT 0xFFF; e = entry m pdt (pdt_i virt)
                in if e AND PAGE_PS \<noteq> 0 then set_entry pdt (pdt_i virt) (e AND NOT 1) s
                   else
                     let pt = e AND NOT 0xFFF
                     in set_entry pt (pt_i virt) (entry m pt (pt_i virt) AND NOT 1) s)"

section \<open>Address translation\<close>

text \<open>
  The processor's walk, for entries whose bits 52 to 63 are clear (the kernel sets none of
  them) and with \<^verbatim>\<open>CR0.WP\<close> clear, as the boot code leaves it: a supervisor access needs
  only the present bits.
\<close>

definition mmu_walk :: "memory \<Rightarrow> u64 \<Rightarrow> u64 \<Rightarrow> u64 option" where
  "mmu_walk m root va =
     (let e4 = entry m root (pml4_i va)
      in if e4 AND 1 = 0 then None
         else
           let e3 = entry m (page_of e4) (pdpt_i va)
           in if e3 AND 1 = 0 then None
              else if e3 AND PAGE_PS \<noteq> 0
              then Some ((e3 AND NOT 0x3FFFFFFF) OR (va AND 0x3FFFFFFF))
              else
                let e2 = entry m (page_of e3) (pdt_i va)
                in if e2 AND 1 = 0 then None
                   else if e2 AND PAGE_PS \<noteq> 0
                   then Some ((e2 AND NOT 0x1FFFFF) OR (va AND 0x1FFFFF))
                   else
                     let e1 = entry m (page_of e2) (pt_i va)
                     in if e1 AND 1 = 0 then None else Some (page_of e1 OR (va AND 0xFFF)))"

text \<open>A ring-3 access also needs the user bit at every level.\<close>

definition mmu_user :: "memory \<Rightarrow> u64 \<Rightarrow> u64 \<Rightarrow> bool" where
  "mmu_user m root va =
     (let e4 = entry m root (pml4_i va);
          e3 = entry m (page_of e4) (pdpt_i va);
          e2 = entry m (page_of e3) (pdt_i va);
          e1 = entry m (page_of e2) (pt_i va)
      in mmu_walk m root va \<noteq> None \<and> e4 AND PAGE_USER \<noteq> 0 \<and> e3 AND PAGE_USER \<noteq> 0
         \<and> (e3 AND PAGE_PS \<noteq> 0 \<or> e2 AND PAGE_USER \<noteq> 0
              \<and> (e2 AND PAGE_PS \<noteq> 0 \<or> e1 AND PAGE_USER \<noteq> 0)))"

text \<open>The tables a walk visits, top level first.\<close>

definition walk_tables :: "memory \<Rightarrow> u64 \<Rightarrow> u64 \<Rightarrow> u64 list" where
  "walk_tables m root va =
     root # (let e4 = entry m root (pml4_i va)
      in if e4 AND 1 = 0 then []
         else
           let t1 = page_of e4; e3 = entry m t1 (pdpt_i va)
           in t1 # (if e3 AND 1 = 0 \<or> e3 AND PAGE_PS \<noteq> 0 then []
                    else
                      let t2 = page_of e3; e2 = entry m t2 (pdt_i va)
                      in t2 # (if e2 AND 1 = 0 \<or> e2 AND PAGE_PS \<noteq> 0 then [] else [page_of e2])))"

section \<open>Basic facts\<close>

lemma index_less:
  "pml4_i v < 512" "pdpt_i v < 512" "pdt_i v < 512" "pt_i v < 512"
  by (simp_all add: pml4_i_def pdpt_i_def pdt_i_def pt_i_def word_and_le1[THEN order.strict_trans1])

declare index_less [simp]

lemma table_address [simp]: "a AND - 4096 = page_of a"
  by (simp add: page_of_def)

lemma set_entry_fields [simp, frame_simps]:
  "free_stack (set_entry t i v s) = free_stack s" "paging_root (set_entry t i v s) = paging_root s"
  "cr3 (set_entry t i v s) = cr3 s" "console (set_entry t i v s) = console s"
  "mem (set_entry t i v s) = write64 (slot t i) v (mem s)"
  "paging_state.more (set_entry t i v s) = paging_state.more s"
  by (simp_all add: set_entry_def)

text \<open>An entry depends only on the bytes of its page.\<close>

lemma entry_cong:
  assumes "page_aligned t" "i < 512" "\<And>a. page_of a = t \<Longrightarrow> m' a = m a"
  shows "entry m' t i = entry m t i"
  unfolding entry_def using assms by (intro read64_cong) (simp add: page_of_slot_byte)

lemma entry_write [mem_simps]:
  assumes "page_aligned t" "page_aligned u" "i < 512" "j < 512"
  shows "entry (write64 (slot t i) v m) u j = (if u = t \<and> j = i then v else entry m u j)"
  using assms
  by (cases "u = t") (simp_all add: entry_def read_slot_same_page read_slot_other_page)

lemma entry_zeroed [mem_simps]:
  assumes "page_aligned t" "i < 512"
  shows "entry (\<lambda>a. if page_of a = p then 0 else m a) t i = (if t = p then 0 else entry m t i)"
proof (cases "t = p")
  case True
  then show ?thesis
    unfolding entry_def using assms by (simp add: read64_zero page_of_slot_byte)
next
  case False
  then have "entry (\<lambda>a. if page_of a = p then 0 else m a) t i = entry m t i"
    using assms by (intro entry_cong) auto
  with False show ?thesis by simp
qed

lemma free_frames_cong:
  assumes "free_frames s ps" "free_stack t = free_stack s"
    and "\<And>a. page_of a \<in> set ps \<Longrightarrow> mem t a = mem s a"
  shows "free_frames t ps"
  using assms free_chain_cong[of ps "mem t" "mem s"] by (simp add: free_frames_def)

lemma free_frames_set_entry:
  assumes "free_frames s ps" "page_aligned t" "i < 512" "t \<notin> set ps"
  shows "free_frames (set_entry t i v s) ps"
  by (rule free_frames_cong[OF assms(1)])
    (use assms in \<open>auto intro!: write_slot_other_page\<close>)

lemma free_frames_kputs [simp]:
  "free_frames (kputs str s) ps = free_frames s ps" "free_frames (kputhex v s) ps = free_frames s ps"
  by (simp_all add: free_frames_def kputs_def kputhex_def)

lemma kputs_paging [simp, frame_simps]:
  "paging_root (kputs str s) = paging_root s" "cr3 (kputs str s) = cr3 s"
  "paging_root (kputhex v s) = paging_root s" "cr3 (kputhex v s) = cr3 s"
  by (simp_all add: kputs_def kputhex_def)

text \<open>Writing entries \<open>0\<close> to \<open>n - 1\<close> of one table.\<close>

definition fill_table :: "u64 \<Rightarrow> (nat \<Rightarrow> u64) \<Rightarrow> nat \<Rightarrow> memory \<Rightarrow> memory" where
  "fill_table t f n m = fold (\<lambda>i. write64 (slot t (of_nat i)) (f i)) [0..<n] m"

lemma fold_set_entry:
  "fold (\<lambda>i s. set_entry t (of_nat i) (f i) s) [0..<n] s = s\<lparr>mem := fill_table t f n (mem s)\<rparr>"
  by (induction n) (simp_all add: fill_table_def set_entry_def)

lemma fill_table_other_page:
  assumes "page_aligned t" "n \<le> 512" "page_of a \<noteq> t"
  shows "fill_table t f n m a = m a"
  using assms(2)
proof (induction n)
  case 0
  then show ?case by (simp add: fill_table_def)
next
  case (Suc n)
  have "(of_nat n :: u64) < 512"
    using Suc.prems by (simp add: word_less_nat_alt unat_of_nat take_bit_nat_eq_self_iff)
  with Suc assms show ?case by (simp add: fill_table_def write_slot_other_page)
qed

lemma entry_fill_table [mem_simps]:
  assumes "page_aligned t" "page_aligned u" "n \<le> 512" "j < 512"
  shows "entry (fill_table t f n m) u j = (if u = t \<and> unat j < n then f (unat j) else entry m u j)"
  using assms(3)
proof (induction n)
  case 0
  then show ?case by (simp add: fill_table_def)
next
  case (Suc n)
  have n: "(of_nat n :: u64) < 512" "unat (of_nat n :: u64) = n"
    using Suc.prems by (simp_all add: word_less_nat_alt unat_of_nat take_bit_nat_eq_self_iff)
  have "j = of_nat n \<longleftrightarrow> unat j = n"
    using n by (auto simp: word_unat_eq_iff)
  moreover have "fill_table t f (Suc n) m = write64 (slot t (of_nat n)) (f n) (fill_table t f n m)"
    by (simp add: fill_table_def)
  ultimately show ?case
    using Suc n assms by (auto simp: entry_write less_Suc_eq)
qed

end
