(* ===== verification/Paging_Translation.thy ===== *)
theory Paging_Translation
  imports Paging
begin

text \<open>
  What the table operations of \<^verbatim>\<open>kernel/paging.c\<close> do to address translation
  (\<open>mmu_walk\<close>): mapping, splitting, changing flags, unmapping and cloning the kernel's
  address space.
\<close>

section \<open>Attribute bits\<close>

lemma page_aligned_and_low:
  assumes "page_aligned p" "b AND 0xFFF = b"
  shows "p AND b = 0"
proof -
  have "p AND b = (p AND 0xFFF) AND b"
    using assms(2) by (metis and.assoc and.commute)
  with assms(1) show ?thesis by (simp add: page_aligned_def)
qed

lemma page_or_bits:
  assumes "page_aligned p" "b AND 0xFFF = b"
  shows "page_of (p OR b) = p"
proof -
  have "page_of (b AND 0xFFF) = 0" by (simp add: page_of_def and.assoc del: table_address)
  then have "page_of b = 0" using assms(2) by simp
  moreover have "page_of (p OR b) = page_of p OR page_of b"
    unfolding page_of_def by (rule bit.conj_disj_distrib2)
  ultimately show ?thesis using assms(1) by (simp add: page_of_aligned)
qed

lemma low_bit_of_or:
  assumes "page_aligned p" "c AND 0xFFF = c"
  shows "(p OR b) AND c = b AND c"
proof -
  have "(p OR b) AND c = (p AND c) OR (b AND c)" by (rule bit.conj_disj_distrib2)
  then show ?thesis using page_aligned_and_low[OF assms] by simp
qed

lemma table_entry_bits:
  assumes "page_aligned p"
  shows "page_of (p OR 3) = p" "page_of (p OR 7) = p"
    "(p OR 3) AND 1 = 1" "(p OR 7) AND 1 = 1" "(p OR 3) AND 0x80 = 0" "(p OR 7) AND 0x80 = 0"
  using assms by (simp_all add: page_or_bits low_bit_of_or)

section \<open>Building the path to a page\<close>

text \<open>
  The tables on the path of \<open>v\<close> are distinct pages, none of them free, and the kernel has
  no 1 GiB mapping on it.
\<close>

definition path_ok :: "memory \<Rightarrow> u64 \<Rightarrow> u64 \<Rightarrow> u64 list \<Rightarrow> bool" where
  "path_ok m root v ps \<longleftrightarrow>
     page_aligned root \<and> distinct (walk_tables m root v) \<and> set (walk_tables m root v) \<inter> set ps = {}
     \<and> (let e4 = entry m root (pml4_i v)
        in e4 AND 1 = 0 \<or> entry m (page_of e4) (pdpt_i v) AND PAGE_PS = 0)"

text \<open>How far the path of \<open>v\<close> is built: a present entry at level 4, 3, 2.\<close>

definition has4 :: "memory \<Rightarrow> u64 \<Rightarrow> u64 \<Rightarrow> bool" where
  "has4 m root v \<longleftrightarrow> entry m root (pml4_i v) AND 1 \<noteq> 0"

definition tab3 :: "memory \<Rightarrow> u64 \<Rightarrow> u64 \<Rightarrow> u64" where
  "tab3 m root v = page_of (entry m root (pml4_i v))"

definition has3 :: "memory \<Rightarrow> u64 \<Rightarrow> u64 \<Rightarrow> bool" where
  "has3 m root v \<longleftrightarrow> has4 m root v \<and> entry m (tab3 m root v) (pdpt_i v) AND 1 \<noteq> 0"

definition tab2 :: "memory \<Rightarrow> u64 \<Rightarrow> u64 \<Rightarrow> u64" where
  "tab2 m root v = page_of (entry m (tab3 m root v) (pdpt_i v))"

definition pde_of :: "memory \<Rightarrow> u64 \<Rightarrow> u64 \<Rightarrow> u64" where
  "pde_of m root v = entry m (tab2 m root v) (pdt_i v)"

definition has2 :: "memory \<Rightarrow> u64 \<Rightarrow> u64 \<Rightarrow> bool" where
  "has2 m root v \<longleftrightarrow> has3 m root v \<and> pde_of m root v AND 1 \<noteq> 0 \<and> pde_of m root v AND PAGE_PS = 0"

lemmas path_defs = has4_def has3_def has2_def tab3_def tab2_def pde_of_def

lemma ensure_table_present:
  "entry (mem s) t i AND 1 \<noteq> 0 \<Longrightarrow> ensure_table t i attr s = (Some (entry (mem s) t i), s)"
  by (simp add: ensure_table_def Let_def)

lemma ensure_table_absent:
  assumes "free_frames s (p # ps)" "page_aligned t" "i < 512" "t \<notin> set (p # ps)"
    and "entry (mem s) t i AND 1 = 0"
  obtains s' where "ensure_table t i attr s = (Some (p OR attr), s')" "free_frames s' ps"
    and "mem s' = write64 (slot t i) (p OR attr) (\<lambda>a. if page_of a = p then 0 else mem s a)"
    and "paging_root s' = paging_root s" "cr3 s' = cr3 s"
    and "page_aligned p" "p \<notin> set ps"
proof -
  obtain u where u: "pmm_alloc_page s = (p, u)" "free_frames u ps" "p \<noteq> 0" "page_aligned p"
      "p \<notin> set ps" "mem u = (\<lambda>a. if page_of a = p then 0 else mem s a)"
    using assms(1) by (rule pmm.alloc_cases) auto
  have fields: "paging_root u = paging_root s" "cr3 u = cr3 s"
    using u(1) pmm_alloc_page_frames(1)[OF assms(1)] by auto
  show thesis
  proof (rule that)
    show "ensure_table t i attr s = (Some (p OR attr), set_entry t i (p OR attr) u)"
      using u(1,3) assms by (simp add: ensure_table_def entry_write)
    show "free_frames (set_entry t i (p OR attr) u) ps"
      using u(2) assms by (intro free_frames_set_entry) auto
  qed (use u fields in simp_all)
qed

text \<open>The first level: after it, level 4 is present and the path is still in order.\<close>

lemma ensure_level4:
  assumes "free_frames s ps" "path_ok (mem s) root v ps" "ps \<noteq> []"
  obtains s' ps' where
    "ensure_table root (pml4_i v) 3 s = (Some (entry (mem s') root (pml4_i v)), s')"
    "free_frames s' ps'" "path_ok (mem s') root v ps'" "has4 (mem s') root v"
    "length ps \<le> length ps' + 1" "paging_root s' = paging_root s" "cr3 s' = cr3 s"
    "if has4 (mem s) root v then s' = s \<and> ps' = ps
     else entry (mem s') root (pml4_i v) AND PAGE_USER = 0 \<and> \<not> has3 (mem s') root v"
proof (cases "has4 (mem s) root v")
  case True
  then show thesis
    using that[of s ps] assms by (simp add: ensure_table_present has4_def)
next
  case False
  obtain p qs where ps: "ps = p # qs" using assms(3) by (cases ps) auto
  have root: "page_aligned root" "root \<notin> set (p # qs)"
    using assms(2) ps by (auto simp: path_ok_def walk_tables_def)
  obtain s' where s': "ensure_table root (pml4_i v) 3 s = (Some (p OR 3), s')" "free_frames s' qs"
      "mem s' = write64 (slot root (pml4_i v)) (p OR 3) (\<lambda>a. if page_of a = p then 0 else mem s a)"
      "paging_root s' = paging_root s" "cr3 s' = cr3 s" "page_aligned p" "p \<notin> set qs"
    using ensure_table_absent[of s p qs root "pml4_i v" 3] assms(1) root False ps
    by (auto simp: has4_def)
  have e: "entry (mem s') root (pml4_i v) = p OR 3" "entry (mem s') p (pdpt_i v) = 0"
    using s'(3,6) root by (auto simp: entry_write entry_zeroed)
  show thesis
  proof (rule that)
    show "path_ok (mem s') root v qs"
      using root s'(6,7) by (auto simp: path_ok_def walk_tables_def e table_entry_bits Let_def)
    show "has4 (mem s') root v" using s'(6) by (simp add: has4_def e table_entry_bits)
    show "if has4 (mem s) root v then s' = s \<and> qs = ps
        else entry (mem s') root (pml4_i v) AND PAGE_USER = 0 \<and> \<not> has3 (mem s') root v"
      using False s'(6) e by (simp add: has3_def tab3_def low_bit_of_or table_entry_bits)
  qed (use s' e ps in simp_all)
qed

text \<open>The second level, with the page-directory-pointer table in place.\<close>

lemma ensure_level3:
  assumes "free_frames s ps" "path_ok (mem s) root v ps" "ps \<noteq> []" "has4 (mem s) root v"
  obtains s' ps' where
    "ensure_table (tab3 (mem s) root v) (pdpt_i v) 3 s =
       (Some (entry (mem s') (tab3 (mem s') root v) (pdpt_i v)), s')"
    "free_frames s' ps'" "path_ok (mem s') root v ps'" "has3 (mem s') root v"
    "length ps \<le> length ps' + 1" "paging_root s' = paging_root s" "cr3 s' = cr3 s"
    "if has3 (mem s) root v then s' = s \<and> ps' = ps
     else entry (mem s') (tab3 (mem s') root v) (pdpt_i v) AND PAGE_USER = 0"
proof (cases "has3 (mem s) root v")
  case True
  then show thesis
    using that[of s ps] assms by (simp add: ensure_table_present has3_def)
next
  case False
  obtain p qs where ps: "ps = p # qs" using assms(3) by (cases ps) auto
  let ?t = "tab3 (mem s) root v"
  have t: "page_aligned ?t" "?t \<notin> set (p # qs)" "page_aligned root" "root \<notin> set (p # qs)" "root \<noteq> ?t"
    using assms(2,4) ps by (auto simp: path_ok_def walk_tables_def path_defs Let_def)
  obtain s' where s': "ensure_table ?t (pdpt_i v) 3 s = (Some (p OR 3), s')" "free_frames s' qs"
      "mem s' = write64 (slot ?t (pdpt_i v)) (p OR 3) (\<lambda>a. if page_of a = p then 0 else mem s a)"
      "paging_root s' = paging_root s" "cr3 s' = cr3 s" "page_aligned p" "p \<notin> set qs"
    using ensure_table_absent[of s p qs ?t "pdpt_i v" 3] assms(1,4) t False ps
    by (auto simp: has3_def)
  have e: "entry (mem s') root (pml4_i v) = entry (mem s) root (pml4_i v)"
      "entry (mem s') ?t (pdpt_i v) = p OR 3" "entry (mem s') p (pdt_i v) = 0"
    using s'(3,6) t by (auto simp: entry_write entry_zeroed)
  then have t': "tab3 (mem s') root v = ?t" by (simp add: tab3_def)
  show thesis
  proof (rule that)
    show "path_ok (mem s') root v qs"
      using t s'(6,7) assms(4) e
      by (auto simp: path_ok_def walk_tables_def path_defs table_entry_bits Let_def)
    show "has3 (mem s') root v"
      using s'(6) assms(4) e t' by (simp add: has3_def has4_def table_entry_bits)
    show "if has3 (mem s) root v then s' = s \<and> qs = ps
        else entry (mem s') (tab3 (mem s') root v) (pdpt_i v) AND PAGE_USER = 0"
      using False s'(6) e t' by (simp add: low_bit_of_or)
  qed (use s' e t' ps in simp_all)
qed

lemma path_ok_level3:
  assumes "path_ok m root v ps" "has3 m root v"
  shows "page_aligned root" "page_aligned (tab3 m root v)" "page_aligned (tab2 m root v)"
    "distinct [root, tab3 m root v, tab2 m root v]"
    "{root, tab3 m root v, tab2 m root v} \<inter> set ps = {}"
    "entry m (tab3 m root v) (pdpt_i v) AND PAGE_PS = 0"
  using assms by (auto simp: path_ok_def walk_tables_def path_defs Let_def split: if_splits)

text \<open>A change that keeps the upper two levels keeps the path up to the page directory.\<close>

lemma upper_levels_cong:
  assumes "entry m' root (pml4_i v) = entry m root (pml4_i v)"
    and "entry m' (tab3 m root v) (pdpt_i v) = entry m (tab3 m root v) (pdpt_i v)"
  shows "tab3 m' root v = tab3 m root v" "tab2 m' root v = tab2 m root v"
    "has3 m' root v = has3 m root v"
  using assms by (simp_all add: path_defs)

lemma path_ok_table:
  assumes "path_ok m root v ps" "has3 m root v"
    and "entry m' root (pml4_i v) = entry m root (pml4_i v)"
    and "entry m' (tab3 m root v) (pdpt_i v) = entry m (tab3 m root v) (pdpt_i v)"
    and "pde_of m' root v = p OR 7" "page_aligned p" "p \<notin> {root, tab3 m root v, tab2 m root v}"
    and "p \<notin> set qs" "set qs \<subseteq> set ps"
  shows "path_ok m' root v qs" "has2 m' root v" "page_of (pde_of m' root v) = p"
proof -
  note up = upper_levels_cong[OF assms(3,4)]
  have "walk_tables m' root v = [root, tab3 m root v, tab2 m root v, p]"
    using assms(2-6) up path_ok_level3(6)[OF assms(1,2)]
    by (simp add: walk_tables_def path_defs table_entry_bits Let_def)
  then show "path_ok m' root v qs"
    using path_ok_level3[OF assms(1,2)] assms(3,4,7-9) by (auto simp: path_ok_def path_defs)
  show "has2 m' root v" "page_of (pde_of m' root v) = p"
    using assms(2,5,6) up by (simp_all add: has2_def table_entry_bits)
qed

text \<open>The third level, when the page directory has no entry yet.\<close>

lemma ensure_level2:
  assumes "free_frames s (p # qs)" "path_ok (mem s) root v (p # qs)" "has3 (mem s) root v"
    and "pde_of (mem s) root v AND 1 = 0"
  obtains s' where
    "ensure_table (tab2 (mem s) root v) (pdt_i v) 7 s = (Some (pde_of (mem s') root v), s')"
    "free_frames s' qs" "path_ok (mem s') root v qs" "has2 (mem s') root v"
    "paging_root s' = paging_root s" "cr3 s' = cr3 s"
    "entry (mem s') root (pml4_i v) = entry (mem s) root (pml4_i v)"
    "entry (mem s') (tab3 (mem s) root v) (pdpt_i v) = entry (mem s) (tab3 (mem s) root v) (pdpt_i v)"
    "pde_of (mem s') root v AND PAGE_USER \<noteq> 0"
proof -
  let ?t = "tab2 (mem s) root v"
  note up = path_ok_level3[OF assms(2,3)]
  obtain s' where s': "ensure_table ?t (pdt_i v) 7 s = (Some (p OR 7), s')" "free_frames s' qs"
      "mem s' = write64 (slot ?t (pdt_i v)) (p OR 7) (\<lambda>a. if page_of a = p then 0 else mem s a)"
      "paging_root s' = paging_root s" "cr3 s' = cr3 s" "page_aligned p" "p \<notin> set qs"
    using ensure_table_absent[of s p qs ?t "pdt_i v" 7] assms(1,4) up
    by (auto simp: pde_of_def)
  have e: "entry (mem s') root (pml4_i v) = entry (mem s) root (pml4_i v)"
      "entry (mem s') (tab3 (mem s) root v) (pdpt_i v) = entry (mem s) (tab3 (mem s) root v) (pdpt_i v)"
      "entry (mem s') ?t (pdt_i v) = p OR 7"
    using s'(3,6) up by (auto simp: entry_write entry_zeroed)
  then have pde: "pde_of (mem s') root v = p OR 7"
    using upper_levels_cong(2)[OF e(1,2)] by (simp add: pde_of_def)
  show thesis
    by (rule that[of s']) (use s' pde e up path_ok_table[OF assms(2,3) e(1,2) pde, of qs] in \<open>auto simp: low_bit_of_or\<close>)
qed

section \<open>Splitting a 2 MiB page\<close>

definition split_pte :: "u64 \<Rightarrow> nat \<Rightarrow> u64" where
  "split_pte pde i = ((pde AND NOT 0x1FFFFF) + of_nat i * 0x1000) OR (pde AND 0x1FF)"

lemma or_is_add:
  fixes a b :: u64
  assumes "a AND b = 0"
  shows "a + b = a OR b"
  using word_plus_and_or[of a b] assms by simp

lemma mask_numerals:
  "(0x1FF :: u64) = mask 9" "(0xFFF :: u64) = mask 12" "(0x1FFFFF :: u64) = mask 21"
  "(0x1FF000 :: u64) = push_bit 12 (mask 9)"
  by (simp_all add: mask_eq_exp_minus_1)

lemmas word_bits = bit_push_bit_iff bit_and_iff bit_or_iff bit_not_iff bit_drop_bit_eq bit_mask_iff

lemma pt_i_shift: "of_nat (unat (pt_i v)) * 0x1000 = v AND 0x1FF000"
proof -
  have "pt_i v * 0x1000 = push_bit 12 (drop_bit 12 v AND mask 9)"
    by (simp add: pt_i_def push_bit_eq_mult mask_numerals)
  also have "\<dots> = v AND push_bit 12 (mask 9)"
    by (rule bit_word_eqI) (auto simp: word_bits)
  finally show ?thesis by (simp add: mask_numerals)
qed

lemma split_pte_bits:
  "split_pte pde (unat (pt_i v)) =
     ((pde AND NOT (mask 21)) OR (v AND push_bit 12 (mask 9))) OR (pde AND mask 9)"
proof -
  have "(pde AND NOT (mask 21)) AND (v AND push_bit 12 (mask 9)) = 0"
    by (rule bit_word_eqI) (auto simp: word_bits)
  from or_is_add[OF this] show ?thesis
    unfolding split_pte_def pt_i_shift mask_numerals by simp
qed

lemma split_pte_address:
  "page_of (split_pte pde (unat (pt_i v))) OR (v AND 0xFFF) = (pde AND NOT 0x1FFFFF) OR (v AND 0x1FFFFF)"
  unfolding split_pte_bits page_of_def mask_numerals
  by (rule bit_word_eqI) (auto simp: word_bits)

lemma split_pte_present: "split_pte pde (unat (pt_i v)) AND 1 = pde AND 1"
  unfolding split_pte_bits by (rule bit_word_eqI) (auto simp: word_bits bit_1_iff)

lemma split_pte_user: "split_pte pde (unat (pt_i v)) AND 4 = pde AND 4"
proof -
  have "bit (4 :: u64) n \<Longrightarrow> n = 2" for n
    using bit_push_bit_iff[of 2 "1 :: u64" n] by (auto simp: bit_1_iff)
  then show ?thesis unfolding split_pte_bits by (intro bit_word_eqI) (fastforce simp: word_bits)
qed

lemma split_large_effect:
  assumes "free_frames s (p # qs)" "page_aligned t" "i < 512" "t \<notin> set (p # qs)"
  obtains s' where
    "split_large v phys t i pde s = (Some (p OR 7), s')" "free_frames s' qs"
    "paging_root s' = paging_root s" "cr3 s' = cr3 s" "page_aligned p" "p \<notin> set qs"
    "mem s' = write64 (slot t i) (p OR 7) (fill_table p (split_pte pde) 512 (\<lambda>a. if page_of a = p then 0 else mem s a))"
proof -
  define s1 where "s1 = kputhex (paging_root s) (kputs '' cr3='' (kputhex phys (kputs ''->''
     (kputhex v (kputs ''[kernel] split '' s)))))"
  have "free_frames s1 (p # qs)" using assms(1) by (simp add: s1_def)
  then obtain u where u: "pmm_alloc_page s1 = (p, u)" "free_frames u qs" "p \<noteq> 0" "page_aligned p"
      "p \<notin> set qs" "mem u = (\<lambda>a. if page_of a = p then 0 else mem s1 a)"
    by (rule pmm.alloc_cases) auto
  have fields: "paging_root u = paging_root s" "cr3 u = cr3 s"
    using u(1) pmm_alloc_page_frames(1)[OF \<open>free_frames s1 (p # qs)\<close>] by (auto simp: s1_def)
  define s2 where "s2 = u\<lparr>mem := fill_table p (split_pte pde) 512 (mem u)\<rparr>"
  have s2: "fill_split pde p u = s2"
    by (simp add: fill_split_def s2_def fold_set_entry split_pte_def[abs_def])
  have f2: "free_frames s2 qs"
    by (rule free_frames_cong[OF u(2)])
      (use u(4,5) in \<open>auto simp: s2_def intro!: fill_table_other_page\<close>)
  define s3 where "s3 = set_entry t i (p OR 7) s2"
  define s' where "s' = kputs [CHR 0x0A] (kputhex (p OR 7) (kputs '' pde='' (kputhex p (kputs '' pt='' s3))))"
  have "split_large v phys t i pde s = (Some (p OR 7), s')"
    using u(1,3) assms(2,3)
    by (simp add: split_large_def Let_def s1_def[symmetric] s2 s3_def[symmetric] s'_def entry_write)
  moreover have "free_frames s' qs"
    using f2 assms by (auto simp: s'_def s3_def intro!: free_frames_set_entry)
  moreover have "mem s' = write64 (slot t i) (p OR 7) (fill_table p (split_pte pde) 512 (mem u))" "mem s1 = mem s"
    by (simp_all add: s'_def s3_def s2_def s1_def)
  then have "mem s' = write64 (slot t i) (p OR 7) (fill_table p (split_pte pde) 512 (\<lambda>a. if page_of a = p then 0 else mem s a))"
    unfolding u(6) by metis
  moreover have "paging_root s' = paging_root s" "cr3 s' = cr3 s"
    using fields by (simp_all add: s'_def s3_def s2_def)
  ultimately show thesis using that[of s'] u(4,5) by blast
qed

lemma split_large_level2:
  assumes "free_frames s (p # qs)" "path_ok (mem s) root v (p # qs)" "has3 (mem s) root v"
    and "pde_of (mem s) root v AND 1 \<noteq> 0" "pde_of (mem s) root v AND PAGE_PS \<noteq> 0"
  obtains s' where
    "split_large v phys (tab2 (mem s) root v) (pdt_i v) (pde_of (mem s) root v) s =
       (Some (pde_of (mem s') root v), s')"
    "free_frames s' qs" "path_ok (mem s') root v qs" "has2 (mem s') root v"
    "paging_root s' = paging_root s" "cr3 s' = cr3 s"
    "\<And>i. i < 512 \<Longrightarrow>
       entry (mem s') (page_of (pde_of (mem s') root v)) i = split_pte (pde_of (mem s) root v) (unat i)"
    "entry (mem s') root (pml4_i v) = entry (mem s) root (pml4_i v)"
    "entry (mem s') (tab3 (mem s) root v) (pdpt_i v) = entry (mem s) (tab3 (mem s) root v) (pdpt_i v)"
    "pde_of (mem s') root v AND PAGE_USER \<noteq> 0"
proof -
  let ?t = "tab2 (mem s) root v" and ?e = "pde_of (mem s) root v"
  note up = path_ok_level3[OF assms(2,3)]
  obtain s' where s': "split_large v phys ?t (pdt_i v) ?e s = (Some (p OR 7), s')" "free_frames s' qs"
      "paging_root s' = paging_root s" "cr3 s' = cr3 s" "page_aligned p" "p \<notin> set qs"
      "mem s' = write64 (slot ?t (pdt_i v)) (p OR 7) (fill_table p (split_pte ?e) 512 (\<lambda>a. if page_of a = p then 0 else mem s a))"
    by (rule split_large_effect[OF assms(1) up(3) index_less(3)[of v], where v = v and phys = phys and pde = ?e])
      (use up(5) in auto)
  have e3: "entry (mem s') w j =
      (if w = ?t \<and> j = pdt_i v then p OR 7
       else if w = p then split_pte ?e (unat j) else entry (mem s) w j)"
    if "page_aligned w" "j < 512" for w j
    using that s'(5,7) up(3) unat_mono[of j 512]
    by (auto simp: entry_write entry_fill_table entry_zeroed)
  have e: "entry (mem s') root (pml4_i v) = entry (mem s) root (pml4_i v)"
      "entry (mem s') (tab3 (mem s) root v) (pdpt_i v) = entry (mem s) (tab3 (mem s) root v) (pdpt_i v)"
    using e3 up by auto
  have pde: "pde_of (mem s') root v = p OR 7"
    using upper_levels_cong(2)[OF e] e3[OF up(3)] by (simp add: pde_of_def)
  have p: "p \<notin> {root, tab3 (mem s) root v, ?t}" using up(5) by auto
  have "entry (mem s') p i = split_pte ?e (unat i)" if "i < 512" for i
    using p e3[OF s'(5) that] by simp
  moreover have "page_of (p OR 7) = p" "(p OR 7) AND PAGE_USER \<noteq> 0"
    using s'(5) by (simp_all add: table_entry_bits low_bit_of_or)
  ultimately show thesis
    using that[of s'] s' e pde path_ok_table[OF assms(2,3) e pde s'(5) p s'(6)] by auto
qed

section \<open>Mapping a page\<close>

text \<open>
  When the request is not for a 2 MiB page, three free frames are enough to bring the path
  to its full length, and \<^verbatim>\<open>map_page\<close> ends by storing the entry in the last table.
\<close>

lemma level2_step:
  assumes "free_frames s (q # qs)" "path_ok (mem s) root v (q # qs)" "has3 (mem s) root v"
  obtains s' ps' where
    "(if pde_of (mem s) root v AND 1 = 0 then ensure_table (tab2 (mem s) root v) (pdt_i v) 7 s
      else if pde_of (mem s) root v AND PAGE_PS \<noteq> 0
      then split_large v p (tab2 (mem s) root v) (pdt_i v) (pde_of (mem s) root v) s
      else (Some (pde_of (mem s) root v), s)) = (Some (pde_of (mem s') root v), s')"
    "free_frames s' ps'" "path_ok (mem s') root v ps'" "has2 (mem s') root v"
    "paging_root s' = paging_root s" "cr3 s' = cr3 s"
    "entry (mem s') root (pml4_i v) = entry (mem s) root (pml4_i v)"
    "entry (mem s') (tab3 (mem s) root v) (pdpt_i v) = entry (mem s) (tab3 (mem s) root v) (pdpt_i v)"
    "if has2 (mem s) root v then s' = s else pde_of (mem s') root v AND PAGE_USER \<noteq> 0"
proof (cases "pde_of (mem s) root v AND 1 = 0")
  case True
  then show thesis
    using ensure_level2[OF assms True] that by (metis (no_types, lifting) has2_def)
next
  case present: False
  show thesis
  proof (cases "pde_of (mem s) root v AND PAGE_PS = 0")
    case True
    with present show thesis using that[of s "q # qs"] assms by (simp add: has2_def)
  next
    case False
    with present show thesis
      using split_large_level2[OF assms present False, of p] that by (metis (no_types, lifting) has2_def)
  qed
qed

lemma map_page_builds_path:
  assumes "free_frames s ps" "3 \<le> length ps" "path_ok (mem s) (paging_root s) v ps"
    and "\<not> (v AND 0x1FFFFF = 0 \<and> p AND 0x1FFFFF = 0)"
  obtains s' ps' where
    "map_page v p flags s =
       set_entry (page_of (pde_of (mem s') (paging_root s) v)) (pt_i v) (p OR flags) s'"
    "free_frames s' ps'" "path_ok (mem s') (paging_root s) v ps'" "has2 (mem s') (paging_root s) v"
    "paging_root s' = paging_root s" "cr3 s' = cr3 s"
    "if has3 (mem s) (paging_root s) v
     then entry (mem s') (paging_root s) (pml4_i v) = entry (mem s) (paging_root s) (pml4_i v)
       \<and> entry (mem s') (tab3 (mem s') (paging_root s) v) (pdpt_i v)
          = entry (mem s) (tab3 (mem s) (paging_root s) v) (pdpt_i v)
     else entry (mem s') (paging_root s) (pml4_i v) AND PAGE_USER = 0
       \<or> entry (mem s') (tab3 (mem s') (paging_root s) v) (pdpt_i v) AND PAGE_USER = 0"
    "if has2 (mem s) (paging_root s) v then s' = s
     else has3 (mem s) (paging_root s) v \<longrightarrow> pde_of (mem s') (paging_root s) v AND PAGE_USER \<noteq> 0"
proof -
  let ?r = "paging_root s"
  have "ps \<noteq> []" using assms(2) by auto
  then obtain s1 ps1 where s1: "ensure_table ?r (pml4_i v) 3 s = (Some (entry (mem s1) ?r (pml4_i v)), s1)"
      "free_frames s1 ps1" "path_ok (mem s1) ?r v ps1" "has4 (mem s1) ?r v"
      "length ps \<le> length ps1 + 1" "paging_root s1 = ?r" "cr3 s1 = cr3 s"
      "if has4 (mem s) ?r v then s1 = s \<and> ps1 = ps
       else entry (mem s1) ?r (pml4_i v) AND PAGE_USER = 0 \<and> \<not> has3 (mem s1) ?r v"
    using ensure_level4[OF assms(1,3)] by blast
  have "ps1 \<noteq> []" using s1(5) assms(2) by auto
  then obtain s2 ps2 where s2: "ensure_table (tab3 (mem s1) ?r v) (pdpt_i v) 3 s1 =
        (Some (entry (mem s2) (tab3 (mem s2) ?r v) (pdpt_i v)), s2)"
      "free_frames s2 ps2" "path_ok (mem s2) ?r v ps2" "has3 (mem s2) ?r v"
      "length ps1 \<le> length ps2 + 1" "paging_root s2 = paging_root s1" "cr3 s2 = cr3 s1"
      "if has3 (mem s1) ?r v then s2 = s1 \<and> ps2 = ps1
       else entry (mem s2) (tab3 (mem s2) ?r v) (pdpt_i v) AND PAGE_USER = 0"
    using ensure_level3[OF s1(2,3) _ s1(4)] by blast
  have "ps2 \<noteq> []" using s1(5) s2(5) assms(2) by auto
  then obtain q qs where ps2: "ps2 = q # qs" by (cases ps2) auto
  obtain s3 ps3 where s3: "(if pde_of (mem s2) ?r v AND 1 = 0
      then ensure_table (tab2 (mem s2) ?r v) (pdt_i v) 7 s2
      else if pde_of (mem s2) ?r v AND PAGE_PS \<noteq> 0
      then split_large v p (tab2 (mem s2) ?r v) (pdt_i v) (pde_of (mem s2) ?r v) s2
      else (Some (pde_of (mem s2) ?r v), s2)) = (Some (pde_of (mem s3) ?r v), s3)"
      "free_frames s3 ps3" "path_ok (mem s3) ?r v ps3" "has2 (mem s3) ?r v"
      "paging_root s3 = paging_root s2" "cr3 s3 = cr3 s2"
      "entry (mem s3) ?r (pml4_i v) = entry (mem s2) ?r (pml4_i v)"
      "entry (mem s3) (tab3 (mem s2) ?r v) (pdpt_i v) = entry (mem s2) (tab3 (mem s2) ?r v) (pdpt_i v)"
      "if has2 (mem s2) ?r v then s3 = s2 else pde_of (mem s3) ?r v AND PAGE_USER \<noteq> 0"
    using level2_step[OF s2(2,3)[unfolded ps2] s2(4)] by blast
  show thesis
  proof (rule that[of s3 ps3])
    show "map_page v p flags s = set_entry (page_of (pde_of (mem s3) ?r v)) (pt_i v) (p OR flags) s3"
      using s1(1) s2(1) s3(1) assms(4)
      by (auto simp: map_page_def tab3_def tab2_def pde_of_def Let_def)
    show "if has2 (mem s) ?r v then s3 = s
        else has3 (mem s) ?r v \<longrightarrow> pde_of (mem s3) ?r v AND PAGE_USER \<noteq> 0"
      using s1(8) s2(8) s3(9) by (auto simp: has2_def has3_def split: if_splits)
  qed (use s1 s2 s3 in \<open>auto simp: tab3_def has3_def split: if_splits\<close>)
qed

text \<open>Addresses of one page have the same indices.\<close>

lemma same_page_indices:
  assumes "page_of va = page_of v"
  shows "pml4_i va = pml4_i v" "pdpt_i va = pdpt_i v" "pdt_i va = pdt_i v" "pt_i va = pt_i v"
proof -
  have "drop_bit n va = drop_bit n v" if "12 \<le> n" for n
  proof -
    have low: "drop_bit n (a AND NOT (mask 12)) = drop_bit n a" for a :: u64
      using that by (intro bit_word_eqI) (auto simp: word_bits dest: bit_imp_le_length)
    have "va AND NOT (mask 12) = v AND NOT (mask 12)"
      using assms by (simp add: page_of_def mask_numerals del: table_address)
    then show ?thesis using low[of va] low[of v] by metis
  qed
  then show "pml4_i va = pml4_i v" "pdpt_i va = pdpt_i v" "pdt_i va = pdt_i v" "pt_i va = pt_i v"
    by (simp_all add: pml4_i_def pdpt_i_def pdt_i_def pt_i_def)
qed

lemma same_page_path:
  assumes "page_of va = page_of v"
  shows "path_ok m root va ps = path_ok m root v ps" "has2 m root va = has2 m root v"
    "pde_of m root va = pde_of m root v" "tab3 m root va = tab3 m root v"
  unfolding path_ok_def walk_tables_def path_defs same_page_indices[OF assms] by (rule refl)+

lemma walk_full_path:
  assumes "path_ok m root v ps" "has2 m root v"
  shows "mmu_walk m root v =
      (let e1 = entry m (page_of (pde_of m root v)) (pt_i v)
       in if e1 AND 1 = 0 then None else Some (page_of e1 OR (v AND 0xFFF)))"
    and "mmu_user m root v \<longleftrightarrow>
      mmu_walk m root v \<noteq> None \<and> entry m root (pml4_i v) AND PAGE_USER \<noteq> 0
      \<and> entry m (tab3 m root v) (pdpt_i v) AND PAGE_USER \<noteq> 0 \<and> pde_of m root v AND PAGE_USER \<noteq> 0
      \<and> entry m (page_of (pde_of m root v)) (pt_i v) AND PAGE_USER \<noteq> 0"
proof -
  have h3: "has3 m root v" using assms(2) by (simp add: has2_def)
  note ps = path_ok_level3(6)[OF assms(1) h3]
  show "mmu_walk m root v =
      (let e1 = entry m (page_of (pde_of m root v)) (pt_i v)
       in if e1 AND 1 = 0 then None else Some (page_of e1 OR (v AND 0xFFF)))"
    using ps assms(2) by (simp add: mmu_walk_def path_defs Let_def)
  show "mmu_user m root v \<longleftrightarrow>
      mmu_walk m root v \<noteq> None \<and> entry m root (pml4_i v) AND PAGE_USER \<noteq> 0
      \<and> entry m (tab3 m root v) (pdpt_i v) AND PAGE_USER \<noteq> 0 \<and> pde_of m root v AND PAGE_USER \<noteq> 0
      \<and> entry m (page_of (pde_of m root v)) (pt_i v) AND PAGE_USER \<noteq> 0"
    using ps assms(2) by (simp add: mmu_user_def path_defs Let_def)
qed

lemma path_ok_level2:
  assumes "path_ok m root v ps" "has2 m root v"
  shows "page_aligned root" "page_aligned (tab3 m root v)" "page_aligned (tab2 m root v)"
    "page_aligned (page_of (pde_of m root v))"
    "distinct [root, tab3 m root v, tab2 m root v, page_of (pde_of m root v)]"
    "{root, tab3 m root v, tab2 m root v, page_of (pde_of m root v)} \<inter> set ps = {}"
proof -
  have h3: "has3 m root v" using assms(2) by (simp add: has2_def)
  note up = path_ok_level3[OF assms(1) h3]
  have "walk_tables m root v = [root, tab3 m root v, tab2 m root v, page_of (pde_of m root v)]"
    using assms(2) up(6) by (simp add: walk_tables_def path_defs Let_def)
  then show "distinct [root, tab3 m root v, tab2 m root v, page_of (pde_of m root v)]"
    "{root, tab3 m root v, tab2 m root v, page_of (pde_of m root v)} \<inter> set ps = {}"
    using assms(1) by (auto simp: path_ok_def)
  show "page_aligned root" "page_aligned (tab3 m root v)" "page_aligned (tab2 m root v)"
    "page_aligned (page_of (pde_of m root v))"
    using up by simp_all
qed

text \<open>Storing an entry of the last table of a full path.\<close>

lemma store_leaf_at:
  fixes e :: u64
  assumes "path_ok m root v ps" "has2 m root v" "j < 512"
  defines "m' \<equiv> write64 (slot (page_of (pde_of m root v)) j) e m"
  shows "path_ok m' root v ps" "has2 m' root v"
    "pde_of m' root v = pde_of m root v" "tab3 m' root v = tab3 m root v"
    "entry m' root (pml4_i v) = entry m root (pml4_i v)"
    "entry m' (tab3 m root v) (pdpt_i v) = entry m (tab3 m root v) (pdpt_i v)"
    "entry m' (page_of (pde_of m root v)) j = e"
proof -
  note up = path_ok_level2[OF assms(1,2)]
  have ent: "entry m' root (pml4_i v) = entry m root (pml4_i v)"
      "entry m' (tab3 m root v) (pdpt_i v) = entry m (tab3 m root v) (pdpt_i v)"
      "entry m' (tab2 m root v) (pdt_i v) = entry m (tab2 m root v) (pdt_i v)"
      "entry m' (page_of (pde_of m root v)) j = e"
    using up assms(3) by (auto simp: m'_def entry_write)
  then show "entry m' root (pml4_i v) = entry m root (pml4_i v)"
    "entry m' (tab3 m root v) (pdpt_i v) = entry m (tab3 m root v) (pdpt_i v)"
    "entry m' (page_of (pde_of m root v)) j = e" by simp_all
  note cong = upper_levels_cong[OF ent(1,2)]
  then show "tab3 m' root v = tab3 m root v" "pde_of m' root v = pde_of m root v"
    using ent by (simp_all add: pde_of_def)
  then show "has2 m' root v" using assms(2) cong by (simp add: has2_def)
  have "walk_tables m' root v = walk_tables m root v"
    using ent cong by (simp add: walk_tables_def path_defs Let_def)
  then show "path_ok m' root v ps" using assms(1) ent by (simp add: path_ok_def path_defs Let_def)
qed

lemmas store_leaf = store_leaf_at[where v = v and j = "pt_i v" for v, OF _ _ index_less(4)]

section \<open>Properties of map\_page\<close>

text \<open>
  With three free frames and a path whose tables are distinct and not free,
  \<^verbatim>\<open>map_page(v, p, flags)\<close> makes every address of the page of \<open>v\<close> translate to the
  same offset in frame \<open>p\<close>, unless \<open>v\<close> and \<open>p\<close> are both 2 MiB aligned; the free list
  stays a proper list and the path stays well formed for the next call.
\<close>

theorem map_page_maps:
  assumes "free_frames s ps" "3 \<le> length ps" "path_ok (mem s) (paging_root s) v ps"
    and "page_aligned p" "flags AND 0xFFF = flags" "flags AND PAGE_PRESENT \<noteq> 0"
    and "\<not> (v AND 0x1FFFFF = 0 \<and> p AND 0x1FFFFF = 0)"
  shows "(\<forall>va. page_of va = page_of v \<longrightarrow>
            mmu_walk (mem (map_page v p flags s)) (paging_root s) va = Some (p OR (va AND 0xFFF)))
    \<and> (\<exists>ps'. free_frames (map_page v p flags s) ps'
          \<and> path_ok (mem (map_page v p flags s)) (paging_root s) v ps')"
proof -
  obtain t ps' where t: "map_page v p flags s =
        set_entry (page_of (pde_of (mem t) (paging_root s) v)) (pt_i v) (p OR flags) t"
      "free_frames t ps'" "path_ok (mem t) (paging_root s) v ps'" "has2 (mem t) (paging_root s) v"
    using map_page_builds_path[OF assms(1,2,3,7), of flags] by blast
  let ?m = "write64 (slot (page_of (pde_of (mem t) (paging_root s) v)) (pt_i v)) (p OR flags) (mem t)"
  note st = store_leaf[OF t(3,4), of "p OR flags"]
  have "page_of (p OR flags) = p" "(p OR flags) AND 1 \<noteq> 0"
    using assms(4-6) by (simp_all add: page_or_bits low_bit_of_or)
  then have "mmu_walk ?m (paging_root s) va = Some (p OR (va AND 0xFFF))"
    if "page_of va = page_of v" for va
    using walk_full_path(1)[of ?m "paging_root s" va ps'] st
    by (simp add: same_page_path[OF that] same_page_indices[OF that])
  moreover have "free_frames (map_page v p flags s) ps'"
    unfolding t(1) using t(2) path_ok_level2[OF t(3,4)] by (intro free_frames_set_entry) auto
  ultimately show ?thesis using t(1) st(1) by auto
qed

definition paging_demo :: paging_state where
  "paging_demo = pmm_state.extend pmm_demo \<lparr>paging_root = 0x10000, cr3 = 0x10000\<rparr>"

lemma paging_demo_simps [simp]:
  "mem paging_demo = mem pmm_demo" "free_stack paging_demo = free_stack pmm_demo"
  "paging_root paging_demo = 0x10000" "cr3 paging_demo = 0x10000"
  by (simp_all add: paging_demo_def pmm_state.defs pmm_demo_def)

lemma paging_demo_frames: "free_frames paging_demo [0x200000, 0x201000, 0x203000]"
  using pmm_demo_frames by (simp add: free_frames_def)

lemma paging_demo_path:
  "path_ok (mem paging_demo) 0x10000 0x400000 [0x200000, 0x201000, 0x203000]"
proof -
  have "entry (mem pmm_demo) 0x10000 (pml4_i 0x400000) = 0"
    by (simp add: entry_def pml4_i_def slot_def pmm_demo_def read64_def write64_def)
  then show ?thesis by (simp add: path_ok_def walk_tables_def page_aligned_def)
qed

theorem map_page_maps_witness:
  "mmu_walk (mem (map_page 0x400000 0x300000 7 paging_demo)) 0x10000 0x400123 = Some 0x300123"
proof -
  have "page_of 0x400123 = page_of 0x400000" by (simp add: page_of_def del: table_address)
  then show ?thesis
    using map_page_maps[OF paging_demo_frames, of "0x400000" "0x300000" 7] paging_demo_path
    by (simp add: page_aligned_def)
qed

text \<open>
  Whether user code can reach a page just mapped with the user bit depends on the upper
  levels: if the page directory pointer and page directory already existed, user access follows
  their user bits and that of an existing page table entry; if \<^verbatim>\<open>map_page\<close> had to create
  one of them, it did so without the user bit and user code cannot reach the page at all.
\<close>

theorem map_page_user_access:
  assumes "free_frames s ps" "3 \<le> length ps" "path_ok (mem s) (paging_root s) v ps"
    and "page_aligned p" "flags AND 0xFFF = flags" "flags AND PAGE_PRESENT \<noteq> 0"
    and "flags AND PAGE_USER \<noteq> 0" "\<not> (v AND 0x1FFFFF = 0 \<and> p AND 0x1FFFFF = 0)"
  shows "mmu_user (mem (map_page v p flags s)) (paging_root s) v \<longleftrightarrow>
     has3 (mem s) (paging_root s) v
     \<and> entry (mem s) (paging_root s) (pml4_i v) AND PAGE_USER \<noteq> 0
     \<and> entry (mem s) (tab3 (mem s) (paging_root s) v) (pdpt_i v) AND PAGE_USER \<noteq> 0
     \<and> (has2 (mem s) (paging_root s) v \<longrightarrow> pde_of (mem s) (paging_root s) v AND PAGE_USER \<noteq> 0)"
proof -
  let ?r = "paging_root s"
  obtain t ps' where t: "map_page v p flags s =
        set_entry (page_of (pde_of (mem t) ?r v)) (pt_i v) (p OR flags) t"
      "path_ok (mem t) ?r v ps'" "has2 (mem t) ?r v"
      "if has3 (mem s) ?r v
       then entry (mem t) ?r (pml4_i v) = entry (mem s) ?r (pml4_i v)
         \<and> entry (mem t) (tab3 (mem t) ?r v) (pdpt_i v) = entry (mem s) (tab3 (mem s) ?r v) (pdpt_i v)
       else entry (mem t) ?r (pml4_i v) AND PAGE_USER = 0
         \<or> entry (mem t) (tab3 (mem t) ?r v) (pdpt_i v) AND PAGE_USER = 0"
      "if has2 (mem s) ?r v then t = s
       else has3 (mem s) ?r v \<longrightarrow> pde_of (mem t) ?r v AND PAGE_USER \<noteq> 0"
    using map_page_builds_path[OF assms(1,2,3,8), of flags] by blast
  let ?m = "write64 (slot (page_of (pde_of (mem t) ?r v)) (pt_i v)) (p OR flags) (mem t)"
  note st = store_leaf[OF t(2,3), of "p OR flags"]
  have leaf: "(p OR flags) AND 1 \<noteq> 0" "(p OR flags) AND PAGE_USER \<noteq> 0"
    using assms(4-7) by (simp_all add: low_bit_of_or)
  have "mmu_user ?m ?r v \<longleftrightarrow>
      entry (mem t) ?r (pml4_i v) AND PAGE_USER \<noteq> 0
      \<and> entry (mem t) (tab3 (mem t) ?r v) (pdpt_i v) AND PAGE_USER \<noteq> 0
      \<and> pde_of (mem t) ?r v AND PAGE_USER \<noteq> 0"
    using walk_full_path[OF st(1,2)] st leaf by simp
  then show ?thesis
    using t(1,4,5) by (auto simp: has2_def split: if_splits)
qed

theorem map_page_user_access_witness:
  "\<not> mmu_user (mem (map_page 0x400000 0x300000 7 paging_demo)) 0x10000 0x400000"
proof -
  have "entry (mem pmm_demo) 0x10000 (pml4_i 0x400000) = 0"
    by (simp add: entry_def pml4_i_def slot_def pmm_demo_def read64_def write64_def)
  then show ?thesis
    using map_page_user_access[OF paging_demo_frames, of "0x400000" "0x300000" 7] paging_demo_path
    by (simp add: page_aligned_def has3_def has4_def)
qed

text \<open>Addresses of one 2 MiB region share the indices of the three upper levels.\<close>

lemma same_region_indices:
  assumes "va AND NOT 0x1FFFFF = v AND NOT 0x1FFFFF"
  shows "pml4_i va = pml4_i v" "pdpt_i va = pdpt_i v" "pdt_i va = pdt_i v"
proof -
  have "drop_bit n va = drop_bit n v" if "21 \<le> n" for n
  proof -
    have low: "drop_bit n (a AND NOT (mask 21)) = drop_bit n a" for a :: u64
      using that by (intro bit_word_eqI) (auto simp: word_bits dest: bit_imp_le_length)
    have "va AND NOT (mask 21) = v AND NOT (mask 21)"
      using assms by (simp only: mask_numerals)
    then show ?thesis using low[of va] low[of v] by metis
  qed
  then show "pml4_i va = pml4_i v" "pdpt_i va = pdpt_i v" "pdt_i va = pdt_i v"
    by (simp_all add: pml4_i_def pdpt_i_def pdt_i_def)
qed

lemma large_entry_bits:
  assumes "p AND 0x1FFFFF = 0" "flags AND 0xFFF = flags"
  shows "(p OR flags OR PAGE_PS) AND NOT 0x1FFFFF = p" "(p OR flags OR PAGE_PS) AND 1 = flags AND 1"
    "(p OR flags OR PAGE_PS) AND PAGE_PS \<noteq> 0"
proof -
  have p: "p AND NOT 0x1FFFFF = p" using assms(1) by (rule and_mask_clear)
  have "(flags AND 0xFFF) AND NOT 0x1FFFFF = 0" by (simp add: and.assoc)
  then have f: "flags AND NOT 0x1FFFFF = 0" by (simp only: assms(2))
  have "(p OR flags OR PAGE_PS) AND NOT 0x1FFFFF =
      (p AND NOT 0x1FFFFF) OR (flags AND NOT 0x1FFFFF) OR (PAGE_PS AND NOT 0x1FFFFF)"
    by (simp only: bit.conj_disj_distrib2)
  then show "(p OR flags OR PAGE_PS) AND NOT 0x1FFFFF = p"
    unfolding p f by simp
  have "p AND 1 = (p AND 0x1FFFFF) AND 1" by (simp add: and.assoc)
  then have "p AND 1 = 0" using assms(1) by simp
  then show "(p OR flags OR PAGE_PS) AND 1 = flags AND 1"
    by (simp add: bit.conj_disj_distrib2)
  have "bit ((p OR flags OR PAGE_PS) AND PAGE_PS) 7"
    by (simp add: bit_and_iff bit_or_iff)
  then show "(p OR flags OR PAGE_PS) AND PAGE_PS \<noteq> 0" by auto
qed

text \<open>
  When \<open>v\<close> and \<open>p\<close> are both 2 MiB aligned, a request for one page maps 512 of them:
  every address of the 2 MiB region of \<open>v\<close> translates into the 2 MiB region of \<open>p\<close>.
\<close>

theorem map_page_large:
  assumes "path_ok (mem s) (paging_root s) v []" "has3 (mem s) (paging_root s) v"
    and "v AND 0x1FFFFF = 0" "p AND 0x1FFFFF = 0" "flags AND 0xFFF = flags" "flags AND PAGE_PRESENT \<noteq> 0"
    and "va AND NOT 0x1FFFFF = v"
  shows "mmu_walk (mem (map_page v p flags s)) (paging_root s) va = Some (p OR (va AND 0x1FFFFF))"
proof -
  let ?r = "paging_root s" and ?m = "mem s"
  note up = path_ok_level3[OF assms(1,2)]
  have map: "map_page v p flags s = set_entry (tab2 ?m ?r v) (pdt_i v) (p OR flags OR PAGE_PS) s"
    using assms(2-4) by (simp add: map_page_def ensure_table_present path_defs)
  have "va AND NOT 0x1FFFFF = v AND NOT 0x1FFFFF"
    using assms(7) and_mask_clear[OF assms(3)] by simp
  note idx = same_region_indices[OF this]
  let ?m' = "write64 (slot (tab2 ?m ?r v) (pdt_i v)) (p OR flags OR PAGE_PS) ?m"
  have "entry ?m' ?r (pml4_i v) = entry ?m ?r (pml4_i v)"
    "entry ?m' (tab3 ?m ?r v) (pdpt_i v) = entry ?m (tab3 ?m ?r v) (pdpt_i v)"
    "entry ?m' (tab2 ?m ?r v) (pdt_i v) = p OR flags OR PAGE_PS"
    using up by (auto simp: entry_write)
  then show ?thesis
    using assms(2,6) up(6) large_entry_bits[OF assms(4,5)]
    by (simp add: map mmu_walk_def idx path_defs Let_def)
qed

text \<open>An address space in which 0x400000 is mapped to 0x300000 through four tables.\<close>

definition mapped_demo :: paging_state where
  "mapped_demo = paging_demo\<lparr>mem := write64 (slot 0x10000 0) 0x11007 (write64 (slot 0x11000 0) 0x12007
     (write64 (slot 0x12000 2) 0x13007 (write64 (slot 0x13000 0) 0x300007 (\<lambda>_. 0))))\<rparr>"

lemma entry_zero: "entry (\<lambda>_. 0) t i = 0"
  by (simp add: entry_def read64_zero)

lemma demo_pages [simp]:
  "page_of 0x11007 = 0x11000" "page_of 0x12007 = 0x12000" "page_of 0x13007 = 0x13000"
  by (simp_all add: page_of_def del: table_address)

lemma demo_aligned [simp]:
  "page_aligned 0x10000" "page_aligned 0x11000" "page_aligned 0x12000" "page_aligned 0x13000"
  by (simp_all add: page_aligned_def)

lemma mapped_demo_entry:
  assumes "page_aligned t" "i < 512"
  shows "entry (mem mapped_demo) t i =
    (if t = 0x10000 \<and> i = 0 then 0x11007 else if t = 0x11000 \<and> i = 0 then 0x12007
     else if t = 0x12000 \<and> i = 2 then 0x13007 else if t = 0x13000 \<and> i = 0 then 0x300007 else 0)"
  using assms by (simp add: mapped_demo_def entry_write entry_zero)

lemma mapped_demo_root [simp]: "paging_root mapped_demo = 0x10000"
  by (simp add: mapped_demo_def)

lemma mapped_demo_path:
  "path_ok (mem mapped_demo) 0x10000 0x400000 []" "has3 (mem mapped_demo) 0x10000 0x400000"
  "has2 (mem mapped_demo) 0x10000 0x400000" "pde_of (mem mapped_demo) 0x10000 0x400000 = 0x13007"
  "path_ok (mem mapped_demo) 0x10000 0x600000 []" "has3 (mem mapped_demo) 0x10000 0x600000"
  "pde_of (mem mapped_demo) 0x10000 0x600000 = 0"
  by (simp_all add: path_ok_def walk_tables_def path_defs mapped_demo_entry pml4_i_def pdpt_i_def
      pdt_i_def Let_def)

theorem map_page_large_witness:
  "mmu_walk (mem (map_page 0x400000 0x600000 7 mapped_demo)) 0x10000 0x5FFFFF = Some 0x7FFFFF"
  using map_page_large[of mapped_demo "0x400000" "0x600000" 7 "0x5FFFFF"] mapped_demo_path by simp

end
