(* ===== verification/Address_Spaces.thy ===== *)
theory Address_Spaces
  imports Paging_Translation
begin

text \<open>
  Whole address spaces: the identity map the boot loader builds
  (\<^verbatim>\<open>setup_paging\<close> of \<^verbatim>\<open>boot/stage2.asm\<close>), which the kernel's use of physical
  addresses as pointers rests on, the copy \<^verbatim>\<open>paging_clone_kernel\<close> makes of it for every
  process, and what changing flags and unmapping do to translation.
\<close>

section \<open>The boot page tables\<close>

definition setup_paging :: "memory \<Rightarrow> memory" where
  "setup_paging m =
     (let m = zero_words 512 0x1000 m;
          m = zero_words 512 0x2000 m;
          m = zero_words 512 0x3000 m;
          m = write32 0x1004 0 (write32 0x1000 0x2007 m);
          m = write32 0x2004 0 (write32 0x2000 0x3007 m)
      in fold (\<lambda>i. write32 (slot 0x3000 (of_nat i)) (0x83 + 0x200000 * of_nat i)) [0..<512] m)"

text \<open>A 32-bit store into a zeroed 64-bit entry, or two of them, make the 64-bit store.\<close>

lemma write32_zero_high:
  assumes "\<And>d. d < 8 \<Longrightarrow> m (a + d) = 0"
  shows "write32 a v m = write64 a (ucast v) m"
proof -
  have z: "m (a + 4) = 0" "m (a + 5) = 0" "m (a + 6) = 0" "m (a + 7) = 0"
    using assms by simp_all
  have hi: "ucast (drop_bit 32 (ucast v :: u64)) = (0::u8)" "ucast (drop_bit 40 (ucast v :: u64)) = (0::u8)"
    "ucast (drop_bit 48 (ucast v :: u64)) = (0::u8)" "ucast (drop_bit 56 (ucast v :: u64)) = (0::u8)"
    by (rule bit_word_eqI; auto simp: word_bits bit_unsigned_iff dest: bit_imp_le_length)+
  have lo: "ucast (ucast v :: u64) = (ucast v :: u8)"
    "ucast (drop_bit 8 (ucast v :: u64)) = (ucast (drop_bit 8 v) :: u8)"
    "ucast (drop_bit 16 (ucast v :: u64)) = (ucast (drop_bit 16 v) :: u8)"
    "ucast (drop_bit 24 (ucast v :: u64)) = (ucast (drop_bit 24 v) :: u8)"
    by (rule bit_word_eqI; auto simp: word_bits bit_unsigned_iff)+
  show ?thesis
    unfolding write32_def write64_def hi lo by (rule ext) (auto simp: z)
qed

lemma write32_pair:
  "write32 (a + 4) 0 (write32 a v m) = write64 a (ucast v) m"
proof -
  have hi: "ucast (drop_bit 32 (ucast v :: u64)) = (0::u8)" "ucast (drop_bit 40 (ucast v :: u64)) = (0::u8)"
    "ucast (drop_bit 48 (ucast v :: u64)) = (0::u8)" "ucast (drop_bit 56 (ucast v :: u64)) = (0::u8)"
    by (rule bit_word_eqI; auto simp: word_bits bit_unsigned_iff dest: bit_imp_le_length)+
  have lo: "ucast (ucast v :: u64) = (ucast v :: u8)"
    "ucast (drop_bit 8 (ucast v :: u64)) = (ucast (drop_bit 8 v) :: u8)"
    "ucast (drop_bit 16 (ucast v :: u64)) = (ucast (drop_bit 16 v) :: u8)"
    "ucast (drop_bit 24 (ucast v :: u64)) = (ucast (drop_bit 24 v) :: u8)"
    by (rule bit_word_eqI; auto simp: word_bits bit_unsigned_iff)+
  show ?thesis
    unfolding write32_def write64_def hi lo by (simp add: add.assoc)
qed

lemma fill_table_later_slot:
  assumes "page_aligned t" "n \<le> k" "k < 512" "d < 8"
  shows "fill_table t f n m (slot t (of_nat k) + d) = m (slot t (of_nat k) + d)"
  using assms(2)
proof (induction n)
  case 0
  then show ?case by (simp add: fill_table_def)
next
  case (Suc n)
  have small: "(of_nat n :: u64) < 512" "(of_nat k :: u64) < 512" "(of_nat n :: u64) \<noteq> of_nat k"
    using Suc.prems assms(3)
    by (simp_all add: word_less_nat_alt unat_of_nat take_bit_nat_eq_self_iff word_unat_eq_iff)
  have ne: "slot t (of_nat n) \<noteq> slot t (of_nat k)"
    using slot_inj[OF small(1,2)] small(3) by blast
  have "\<not> slot t (of_nat k) + d - slot t (of_nat n) < 8"
    using aligned8_disjoint[OF _ _ ne, of "slot t (of_nat k) + d - slot t (of_nat n)" d] assms(1,4)
    by auto
  with Suc show ?case by (simp add: fill_table_def write64_outside)
qed

lemma fold_write32_table:
  assumes "page_aligned t" "n \<le> 512" "\<And>a. page_of a = t \<Longrightarrow> m a = 0"
  shows "fold (\<lambda>i. write32 (slot t (of_nat i)) (f i)) [0..<n] m = fill_table t (\<lambda>i. ucast (f i)) n m"
  using assms(2)
proof (induction n)
  case 0
  then show ?case by (simp add: fill_table_def)
next
  case (Suc n)
  have small: "(of_nat n :: u64) < 512"
    using Suc.prems by (simp add: word_less_nat_alt unat_of_nat take_bit_nat_eq_self_iff)
  have "fill_table t (\<lambda>i. ucast (f i)) n m (slot t (of_nat n) + d) = 0" if "d < 8" for d
    using fill_table_later_slot[OF assms(1), of n n d] Suc.prems that assms(1,3) small
    by (simp add: page_of_slot_byte)
  then show ?case
    using Suc write32_zero_high[of "fill_table t (\<lambda>i. ucast (f i)) n m" "slot t (of_nat n)" "f n"]
    by (simp add: fill_table_def)
qed

lemma setup_paging_eq:
  "setup_paging m =
     fill_table 0x3000 (\<lambda>i. ucast (0x83 + 0x200000 * of_nat i :: u32)) 512
       (write64 (slot 0x2000 0) 0x3007 (write64 (slot 0x1000 0) 0x2007
          (\<lambda>a. if page_of a \<in> {0x1000, 0x2000, 0x3000} then 0 else m a)))"
proof -
  have al: "page_aligned 0x1000" "page_aligned 0x2000" "page_aligned 0x3000"
    by (simp_all add: page_aligned_def)
  let ?z = "\<lambda>a. if page_of a \<in> {0x1000, 0x2000, 0x3000} then 0 else m a"
  let ?m = "write64 (slot 0x2000 0) 0x3007 (write64 (slot 0x1000 0) 0x2007 ?z)"
  have z: "zero_words 512 0x3000 (zero_words 512 0x2000 (zero_words 512 0x1000 m)) = ?z"
    using al by (auto simp: zero_words_page fun_eq_iff)
  have w: "write32 0x1004 0 (write32 0x1000 0x2007 m') = write64 (slot 0x1000 0) 0x2007 m'"
    "write32 0x2004 0 (write32 0x2000 0x3007 m') = write64 (slot 0x2000 0) 0x3007 m'" for m'
    using write32_pair[of "0x1000" "0x2007" m'] write32_pair[of "0x2000" "0x3007" m']
    by (simp_all add: slot_def)
  have "?m a = 0" if "page_of a = 0x3000" for a
    using that al by (simp add: write_slot_other_page)
  then show ?thesis
    unfolding setup_paging_def Let_def z w using al by (intro fold_write32_table) auto
qed

lemma setup_paging_entries:
  assumes "j < 512"
  shows "entry (setup_paging m) 0x1000 j = (if j = 0 then 0x2007 else 0)"
    "entry (setup_paging m) 0x2000 j = (if j = 0 then 0x3007 else 0)"
    "entry (setup_paging m) 0x3000 j = push_bit 21 j OR 0x83"
proof -
  have al: "page_aligned 0x1000" "page_aligned 0x2000" "page_aligned 0x3000"
    by (simp_all add: page_aligned_def)
  have z: "entry (\<lambda>a. if page_of a \<in> {0x1000, 0x2000, 0x3000} then 0 else m a) t j = 0"
    if "t \<in> {0x1000, 0x2000, 0x3000}" for t
    unfolding entry_def using that al assms
    by (intro read64_zero) (auto simp: page_of_slot_byte)
  show "entry (setup_paging m) 0x1000 j = (if j = 0 then 0x2007 else 0)"
    "entry (setup_paging m) 0x2000 j = (if j = 0 then 0x3007 else 0)"
    using assms al z by (simp_all add: setup_paging_eq entry_fill_table entry_write)
  have j: "unat j < 512" using assms by (simp add: word_less_nat_alt)
  have "unat (0x83 + 0x200000 * of_nat k :: u32) = 0x83 + 0x200000 * k" if "k < 512" for k
    using that by (simp add: unat_word_ariths unat_of_nat take_bit_nat_eq_self_iff)
  moreover have "unat (0x200000 * j + 0x83) = 0x83 + 0x200000 * unat j"
    using j by (simp add: unat_word_ariths)
  ultimately have f: "ucast (0x83 + 0x200000 * of_nat (unat j) :: u32) = 0x200000 * j + 0x83"
    using j by (simp only: word_unat_eq_iff unat_ucast_u32)
  have sh: "0x200000 * j = push_bit 21 j" by (simp add: push_bit_eq_mult)
  have "push_bit 21 j AND 0x83 = 0"
  proof (rule bit_word_eqI)
    fix n
    have "(0x83 :: u64) = 0x83 AND mask 8" by (simp add: mask_eq_exp_minus_1)
    then have "bit (0x83 :: u64) n \<Longrightarrow> n < 8" by (metis bit_and_iff bit_mask_iff)
    then show "bit (push_bit 21 j AND 0x83) n = bit 0 n" by (auto simp: word_bits)
  qed
  then show "entry (setup_paging m) 0x3000 j = push_bit 21 j OR 0x83"
    using assms al j or_is_add[of "push_bit 21 j" "0x83"] f[unfolded sh]
    by (simp add: setup_paging_eq entry_fill_table)
qed

lemma less_bits:
  fixes va :: u64
  assumes "unat va < 2 ^ k" "bit va n"
  shows "n < k"
proof -
  have "take_bit k va = va"
    using assms(1) by (simp add: word_unat_eq_iff unsigned_take_bit_eq take_bit_nat_eq_self_iff)
  with assms(2) show ?thesis by (metis bit_take_bit_iff)
qed

lemma low_gib_indices:
  assumes "va < 0x40000000"
  shows "pml4_i va = 0" "pdpt_i va = 0" "push_bit 21 (pdt_i va) = va AND NOT (mask 21)"
proof -
  have hi: "n < 30" if "bit va n" for n using less_bits[of va 30 n] that assms by (simp add: word_less_nat_alt)
  show "pml4_i va = 0" "pdpt_i va = 0" "push_bit 21 (pdt_i va) = va AND NOT (mask 21)"
    unfolding pml4_i_def pdpt_i_def pdt_i_def mask_numerals
    by (rule bit_word_eqI; force simp: word_bits dest: hi)+
qed

lemma low_gib_by_indices:
  assumes "va < 0x1000000000000" "pml4_i va = 0" "pdpt_i va = 0"
  shows "va < 0x40000000"
proof -
  have hi: "n < 48" if "bit va n" for n using less_bits[of va 48 n] that assms(1) by (simp add: word_less_nat_alt)
  have "n < 30" if "bit va n" for n
  proof (rule ccontr)
    assume "\<not> n < 30"
    then have "bit (pdpt_i va) (n - 30) \<or> bit (pml4_i va) (n - 39)"
      using hi[OF that] that unfolding pml4_i_def pdpt_i_def mask_numerals
      by (cases "n < 39") (auto simp: word_bits)
    with assms(2,3) show False by simp
  qed
  then have "take_bit 30 va = va" by (intro bit_word_eqI) (auto simp: bit_take_bit_iff)
  then have "unat va < 2 ^ 30"
    by (metis unsigned_take_bit_eq take_bit_nat_less_exp)
  then show ?thesis by (simp add: word_less_nat_alt)
qed

lemma and_bit_nonzero:
  fixes w :: u64
  shows "bit w 0 \<Longrightarrow> w AND 1 \<noteq> 0" "bit w 7 \<Longrightarrow> w AND 0x80 \<noteq> 0"
proof -
  show "w AND 1 \<noteq> 0" if "bit w 0"
  proof -
    have "bit (w AND 1) 0" using that by (simp only: bit_and_iff) simp
    then show ?thesis by auto
  qed
  assume "bit w 7"
  then have "bit (w AND 0x80) 7" by (simp add: bit_and_iff)
  then show "w AND 0x80 \<noteq> 0" by auto
qed

lemma boot_identity:
  assumes "va < 0x1000000000000"
  shows "mmu_walk (setup_paging m) 0x1000 va = (if va < 0x40000000 then Some va else None)"
proof -
  have p: "page_of 0x2007 = 0x2000" "page_of 0x3007 = 0x3000"
    by (simp_all add: page_of_def del: table_address)
  show ?thesis
  proof (cases "va < 0x40000000")
    case True
    let ?e = "push_bit 21 (pdt_i va) OR 0x83"
    have b: "?e AND 1 \<noteq> 0" "?e AND 0x80 \<noteq> 0"
      by (rule and_bit_nonzero; simp add: word_bits)+
    have "(?e AND NOT (mask 21)) OR (va AND mask 21) = va"
      unfolding low_gib_indices(3)[OF True]
    proof -
      have "(0x83 :: u64) AND NOT (mask 21) = 0" by (simp add: mask_eq_exp_minus_1)
      then have "((va AND NOT (mask 21)) OR 0x83) AND NOT (mask 21) = va AND NOT (mask 21)"
        by (simp add: bit.conj_disj_distrib2 and.assoc)
      then show "(((va AND NOT (mask 21)) OR 0x83) AND NOT (mask 21)) OR (va AND mask 21) = va"
        by (simp flip: bit.conj_disj_distrib)
    qed
    with True b show ?thesis
      by (simp add: mmu_walk_def low_gib_indices(1,2) setup_paging_entries p Let_def mask_numerals)
  next
    case False
    then have "pml4_i va \<noteq> 0 \<or> pdpt_i va \<noteq> 0" using low_gib_by_indices[OF assms] by blast
    with False show ?thesis
      by (auto simp: mmu_walk_def setup_paging_entries p Let_def)
  qed
qed

text \<open>
  C31: after the boot loader's \<^verbatim>\<open>setup_paging\<close>, every address below 1 GiB translates to
  itself and no other address of the 48-bit space is mapped. This is what lets the kernel use
  physical addresses as pointers.
\<close>

theorem setup_paging_identity:
  assumes "va < 0x1000000000000"
  shows "mmu_walk (setup_paging m) 0x1000 va = (if va < 0x40000000 then Some va else None)"
  using assms by (rule boot_identity)

theorem setup_paging_identity_witness:
  "mmu_walk (setup_paging (\<lambda>_. 0)) 0x1000 0x123456 = Some 0x123456"
  using setup_paging_identity[of "0x123456" "\<lambda>_. 0"] by simp

section \<open>Cloning the kernel's address space\<close>

lemma clone_entries_eq:
  assumes "page_aligned src" "page_aligned dst" "src \<noteq> dst"
  shows "clone_entries src dst s =
    s\<lparr>mem := fill_table dst (\<lambda>i. entry (mem s) src (of_nat i) AND NOT PAGE_USER) 512 (mem s)\<rparr>"
proof -
  let ?f = "\<lambda>i. entry (mem s) src (of_nat i) AND NOT PAGE_USER"
  have "fold (\<lambda>i u. set_entry dst (of_nat i) (entry (mem u) src (of_nat i) AND NOT PAGE_USER) u) [0..<n] s
      = s\<lparr>mem := fill_table dst ?f n (mem s)\<rparr>" if "n \<le> 512" for n
    using that
  proof (induction n)
    case 0
    then show ?case by (simp add: fill_table_def)
  next
    case (Suc n)
    have "(of_nat n :: u64) < 512"
      using Suc.prems by (simp add: word_less_nat_alt unat_of_nat take_bit_nat_eq_self_iff)
    then have "entry (fill_table dst ?f n (mem s)) src (of_nat n) = entry (mem s) src (of_nat n)"
      using assms Suc.prems by (simp add: entry_fill_table)
    with Suc show ?case by (simp add: set_entry_def fill_table_def)
  qed
  from this[of 512] show ?thesis by (simp add: clone_entries_def)
qed

lemma alloc_paging_fields:
  "paging_root (snd (pmm_alloc_page s)) = paging_root s" "cr3 (snd (pmm_alloc_page s)) = cr3 s"
  by (simp_all add: pmm_alloc_page_def Let_def)

text \<open>The memory a successful clone leaves behind, entry by entry.\<close>

lemma paging_clone_kernel_entries:
  assumes "free_frames s (a # b # c # ps)" "has3 (mem s) 0x1000 0"
    and "{0x1000, tab3 (mem s) 0x1000 0, tab2 (mem s) 0x1000 0} \<inter> {a, b, c} = {}"
  obtains t where "paging_clone_kernel s = (a, t)" "free_frames t ps" "distinct [a, b, c]"
    "page_aligned a" "page_aligned b" "page_aligned c" "a \<noteq> 0"
    "paging_root t = paging_root s" "cr3 t = cr3 s"
    "\<And>w j. page_aligned w \<Longrightarrow> j < 512 \<Longrightarrow> entry (mem t) w j =
       (if w = a then if j = 0 then b OR (entry (mem s) 0x1000 0 AND 0xFFF) else 0
        else if w = b then
          if j = 0 then c OR (entry (mem s) (tab3 (mem s) 0x1000 0) 0 AND 0xFFF) else 0
        else if w = c then entry (mem s) (tab2 (mem s) 0x1000 0) j AND NOT PAGE_USER
        else entry (mem s) w j)"
    "\<And>x. page_of x \<notin> {a, b, c} \<Longrightarrow> mem t x = mem s x"
proof -
  let ?t3 = "tab3 (mem s) 0x1000 0" and ?t2 = "tab2 (mem s) 0x1000 0"
  obtain s1 where s1: "pmm_alloc_page s = (a, s1)" "free_frames s1 (b # c # ps)" "a \<noteq> 0"
      "page_aligned a" "a \<notin> set (b # c # ps)" "mem s1 = (\<lambda>x. if page_of x = a then 0 else mem s x)"
    using assms(1) by (rule pmm.alloc_cases) auto
  obtain s2 where s2: "pmm_alloc_page s1 = (b, s2)" "free_frames s2 (c # ps)" "b \<noteq> 0"
      "page_aligned b" "b \<notin> set (c # ps)" "mem s2 = (\<lambda>x. if page_of x = b then 0 else mem s1 x)"
    using s1(2) by (rule pmm.alloc_cases) auto
  obtain s3 where s3: "pmm_alloc_page s2 = (c, s3)" "free_frames s3 ps" "c \<noteq> 0"
      "page_aligned c" "c \<notin> set ps" "mem s3 = (\<lambda>x. if page_of x = c then 0 else mem s2 x)"
    using s2(2) by (rule pmm.alloc_cases) auto
  have roots: "paging_root s3 = paging_root s" "cr3 s3 = cr3 s"
    using alloc_paging_fields[of s] alloc_paging_fields[of s1] alloc_paging_fields[of s2]
      s1(1) s2(1) s3(1) by simp_all
  have al: "page_aligned 0x1000" "page_aligned ?t3" "page_aligned ?t2"
    by (simp_all add: page_aligned_def[of "0x1000"] tab3_def tab2_def)
  have idx: "pml4_i 0 = 0" "pdpt_i 0 = 0" "pdt_i 0 = 0"
    by (simp_all add: pml4_i_def pdpt_i_def pdt_i_def)
  have m3: "entry (mem s3) w j = (if w \<in> {a, b, c} then 0 else entry (mem s) w j)"
    if "page_aligned w" "j < 512" for w j
    using that s1(6) s2(6) s3(6) by (auto simp: entry_zeroed)
  define s4 where "s4 = set_entry a 0 (b OR (entry (mem s) 0x1000 0 AND 0xFFF)) s3"
  define s5 where "s5 = set_entry b 0 (c OR (entry (mem s) ?t3 0 AND 0xFFF)) s4"
  have m4: "entry (mem s4) w j =
      (if w = a \<and> j = 0 then b OR (entry (mem s) 0x1000 0 AND 0xFFF) else entry (mem s3) w j)"
    if "page_aligned w" "j < 512" for w j
    using that s1(4) by (simp add: s4_def entry_write)
  have m5: "entry (mem s5) w j =
      (if w = b \<and> j = 0 then c OR (entry (mem s) ?t3 0 AND 0xFFF) else entry (mem s4) w j)"
    if "page_aligned w" "j < 512" for w j
    using that s2(4) by (simp add: s5_def entry_write)
  have e: "entry (mem s3) 0x1000 0 = entry (mem s) 0x1000 0" "entry (mem s4) 0x1000 0 = entry (mem s) 0x1000 0"
      "entry (mem s4) ?t3 0 = entry (mem s) ?t3 0" "entry (mem s5) ?t3 0 = entry (mem s) ?t3 0"
    using assms(3) al m3 m4 m5 by auto
  have t3: "?t3 = page_of (entry (mem s) 0x1000 0)" "?t2 = page_of (entry (mem s) ?t3 0)"
    by (simp_all add: tab3_def tab2_def idx)
  let ?f = "\<lambda>i. entry (mem s5) ?t2 (of_nat i) AND NOT PAGE_USER"
  have ne: "?t2 \<noteq> c" using assms(3) by auto
  define t where "t = s5\<lparr>mem := fill_table c ?f 512 (mem s5)\<rparr>"
  have run: "paging_clone_kernel s = (a, t)"
    using s1(1,3) s2(1,3) s3(1,3) e ne al(3) s3(4)
    by (simp add: paging_clone_kernel_def Let_def s4_def[symmetric] t3[symmetric] s5_def[symmetric]
        clone_entries_eq t_def del: set_entry_fields(5))
  have ff: "free_frames t ps"
  proof (rule free_frames_cong[OF s3(2)])
    show "mem t x = mem s3 x" if "page_of x \<in> set ps" for x
    proof -
      have "page_of x \<noteq> a" "page_of x \<noteq> b" "page_of x \<noteq> c" using that s1(5) s2(5) s3(5) by auto
      with s1(4) s2(4) s3(4) show ?thesis
        by (simp add: t_def s5_def s4_def fill_table_other_page write_slot_other_page)
    qed
  qed (simp add: t_def s5_def s4_def)
  have dis: "distinct [a, b, c]" using s1(5) s2(5) by auto
  have ent: "entry (mem t) w j =
      (if w = a then if j = 0 then b OR (entry (mem s) 0x1000 0 AND 0xFFF) else 0
       else if w = b then if j = 0 then c OR (entry (mem s) ?t3 0 AND 0xFFF) else 0
       else if w = c then entry (mem s) ?t2 j AND NOT PAGE_USER else entry (mem s) w j)"
    if "page_aligned w" "j < 512" for w j
    using that dis s3(4) unat_mono[of j 512] m5 m4 m3 al assms(3)
    by (auto simp: t_def entry_fill_table)
  have out: "mem t x = mem s x" if "page_of x \<notin> {a, b, c}" for x
    using that s1(4,6) s2(4,6) s3(4,6)
    by (simp add: t_def s5_def s4_def fill_table_other_page write_slot_other_page)
  show thesis
    by (rule that[of t])
      (use run ff dis s1(3,4) s2(4) s3(4) roots ent out in \<open>auto simp: t_def s5_def s4_def\<close>)
qed

text \<open>The boot tables are in place and none of their frames is among \<open>fs\<close>.\<close>

definition template_ok :: "memory \<Rightarrow> u64 set \<Rightarrow> bool" where
  "template_ok m fs \<longleftrightarrow>
     has3 m kernel_pml4_template 0 \<and> entry m (tab3 m kernel_pml4_template 0) 0 AND PAGE_PS = 0
     \<and> {kernel_pml4_template, tab3 m kernel_pml4_template 0, tab2 m kernel_pml4_template 0} \<inter> fs = {}
     \<and> (\<forall>j < 512. let e = entry m (tab2 m kernel_pml4_template 0) j
                  in e AND 1 = 0 \<or> e AND PAGE_PS \<noteq> 0 \<or> page_of e \<notin> fs)"

lemma clear_user_bit:
  fixes e :: u64
  shows "(e AND NOT 4) AND 1 = e AND 1" "(e AND NOT 4) AND 0x80 = e AND 0x80"
    "(e AND NOT 4) AND 4 = 0" "page_of (e AND NOT 4) = page_of e"
    "(e AND NOT 4) AND NOT 0x1FFFFF = e AND NOT 0x1FFFFF"
  by (simp_all add: page_of_def and.assoc del: table_address)

lemma copied_flags:
  assumes "page_aligned p"
  shows "page_of (p OR (e AND 0xFFF)) = p" "(p OR (e AND 0xFFF)) AND 1 = e AND 1"
    "(p OR (e AND 0xFFF)) AND 0x80 = e AND 0x80"
  using assms by (simp_all add: page_or_bits low_bit_of_or and.assoc)

text \<open>The tables of a clone: one path to a copy of the lowest page directory, without user access.\<close>

definition cloned :: "memory \<Rightarrow> memory \<Rightarrow> u64 \<Rightarrow> u64 \<Rightarrow> u64 \<Rightarrow> bool" where
  "cloned m n a b c \<longleftrightarrow> page_aligned b \<and> page_aligned c \<and>
     (\<forall>j < 512. entry n a j = (if j = 0 then b OR (entry m 0x1000 0 AND 0xFFF) else 0)
        \<and> entry n b j = (if j = 0 then c OR (entry m (tab3 m 0x1000 0) 0 AND 0xFFF) else 0)
        \<and> entry n c j = entry m (tab2 m 0x1000 0) j AND NOT PAGE_USER)
     \<and> (\<forall>w j. page_aligned w \<longrightarrow> w \<notin> {a, b, c} \<longrightarrow> j < 512 \<longrightarrow> entry n w j = entry m w j)"

lemma cloned_entries:
  assumes "cloned m n a b c" "j < 512"
  shows "entry n a j = (if j = 0 then b OR (entry m 0x1000 0 AND 0xFFF) else 0)"
    "entry n b j = (if j = 0 then c OR (entry m (tab3 m 0x1000 0) 0 AND 0xFFF) else 0)"
    "entry n c j = entry m (tab2 m 0x1000 0) j AND NOT PAGE_USER"
    "page_aligned w \<Longrightarrow> w \<notin> {a, b, c} \<Longrightarrow> entry n w j = entry m w j"
    "page_aligned b" "page_aligned c"
  using assms unfolding cloned_def by blast+

lemma template_upper:
  assumes "has3 m 0x1000 0"
  shows "entry m 0x1000 0 AND 1 \<noteq> 0" "entry m (tab3 m 0x1000 0) 0 AND 1 \<noteq> 0"
    "page_of (entry m 0x1000 0) = tab3 m 0x1000 0" "page_of (entry m (tab3 m 0x1000 0) 0) = tab2 m 0x1000 0"
proof -
  have "pml4_i 0 = 0" "pdpt_i 0 = 0" by (simp_all add: pml4_i_def pdpt_i_def)
  then show "entry m 0x1000 0 AND 1 \<noteq> 0" "entry m (tab3 m 0x1000 0) 0 AND 1 \<noteq> 0"
    "page_of (entry m 0x1000 0) = tab3 m 0x1000 0" "page_of (entry m (tab3 m 0x1000 0) 0) = tab2 m 0x1000 0"
    using assms by (simp_all add: has3_def has4_def tab3_def tab2_def)
qed

lemma cloned_walk:
  assumes "cloned m n a b c" "template_ok m {a, b, c}"
  shows "mmu_walk n a va = (if pml4_i va = 0 \<and> pdpt_i va = 0 then mmu_walk m 0x1000 va else None)"
proof (cases "pml4_i va = 0 \<and> pdpt_i va = 0")
  case True
  let ?e = "entry m (tab2 m 0x1000 0) (pdt_i va)"
  have tpl: "has3 m 0x1000 0" "entry m (tab3 m 0x1000 0) 0 AND 0x80 = 0"
    and "?e AND 1 = 0 \<or> ?e AND 0x80 \<noteq> 0 \<or> page_of ?e \<notin> {a, b, c}"
    using assms(2) by (auto simp: template_ok_def Let_def)
  then have "?e AND 1 = 0 \<or> ?e AND 0x80 \<noteq> 0 \<or> entry n (page_of ?e) (pt_i va) = entry m (page_of ?e) (pt_i va)"
    using cloned_entries(4)[OF assms(1), of "pt_i va" "page_of ?e"] by auto
  moreover have "(0 :: u64) < 512" by simp
  ultimately show ?thesis
    using True template_upper[OF tpl(1)] tpl(2) cloned_entries(5,6)[OF assms(1), of 0] unfolding mmu_walk_def Let_def
    by (elim disjE conjE) (simp_all only: cloned_entries(1-3)[OF assms(1)] index_less copied_flags clear_user_bit
        if_True if_False simp_thms)
next
  case False
  have "has3 m 0x1000 0" using assms(2) by (simp add: template_ok_def)
  then show ?thesis
    using False template_upper(1) cloned_entries(5)[OF assms(1), of 0]
    by (auto simp: mmu_walk_def Let_def copied_flags cloned_entries(1,2)[OF assms(1)])
qed

lemma cloned_no_user:
  assumes "cloned m n a b c" "template_ok m {a, b, c}"
  shows "\<not> mmu_user n a va"
proof (cases "pml4_i va = 0 \<and> pdpt_i va = 0")
  case True
  moreover have "(0 :: u64) < 512" by simp
  moreover have "entry m (tab3 m 0x1000 0) 0 AND 0x80 = 0" using assms(2) by (simp add: template_ok_def)
  ultimately show ?thesis
    using cloned_entries(5,6)[OF assms(1), of 0]
    by (simp only: mmu_user_def Let_def copied_flags clear_user_bit cloned_entries(1-3)[OF assms(1)] index_less
        if_True simp_thms)
next
  case False
  then have "mmu_walk n a va = None" using cloned_walk[OF assms, of va] by auto
  then show ?thesis by (simp add: mmu_user_def Let_def)
qed

lemma paging_clone_kernel_cloned:
  assumes "free_frames s (a # b # c # ps)" "template_ok (mem s) {a, b, c}"
  obtains t where "paging_clone_kernel s = (a, t)" "free_frames t ps" "cloned (mem s) (mem t) a b c"
    "page_aligned a" "a \<noteq> 0" "distinct [a, b, c]" "\<And>x. page_of x \<notin> {a, b, c} \<Longrightarrow> mem t x = mem s x"
proof -
  let ?t3 = "tab3 (mem s) 0x1000 0" and ?t2 = "tab2 (mem s) 0x1000 0"
  have tpl: "has3 (mem s) 0x1000 0" "{0x1000, ?t3, ?t2} \<inter> {a, b, c} = {}"
    using assms(2) by (simp_all add: template_ok_def)
  obtain t where t: "paging_clone_kernel s = (a, t)" "free_frames t ps" "distinct [a, b, c]"
    "page_aligned a" "page_aligned b" "page_aligned c" "a \<noteq> 0"
    "\<And>w j. page_aligned w \<Longrightarrow> j < 512 \<Longrightarrow> entry (mem t) w j =
       (if w = a then if j = 0 then b OR (entry (mem s) 0x1000 0 AND 0xFFF) else 0
        else if w = b then if j = 0 then c OR (entry (mem s) ?t3 0 AND 0xFFF) else 0
        else if w = c then entry (mem s) ?t2 j AND NOT PAGE_USER
        else entry (mem s) w j)"
    "\<And>x. page_of x \<notin> {a, b, c} \<Longrightarrow> mem t x = mem s x"
    by (rule paging_clone_kernel_entries[OF assms(1) tpl]) (rule that, assumption+)
  have "a \<noteq> b" "a \<noteq> c" "b \<noteq> c" using t(3) by auto
  then have "cloned (mem s) (mem t) a b c"
    unfolding cloned_def using t(4-6,8) by auto
  then show thesis using that[of t] t by blast
qed

text \<open>
  C14: with three free frames, \<^verbatim>\<open>paging_clone_kernel\<close> returns a new top-level table under
  which every address of the lowest gigabyte translates as it does under the boot tables and
  none of them is accessible from user mode, every other address is unmapped, and nothing
  outside the three new frames has changed.
\<close>

theorem paging_clone_kernel_correct:
  assumes "free_frames s (a # b # c # ps)" "template_ok (mem s) {a, b, c}"
  shows "\<exists>t. paging_clone_kernel s = (a, t) \<and> free_frames t ps
    \<and> (\<forall>va. mmu_walk (mem t) a va =
          (if pml4_i va = 0 \<and> pdpt_i va = 0 then mmu_walk (mem s) kernel_pml4_template va else None))
    \<and> (\<forall>va. \<not> mmu_user (mem t) a va)
    \<and> (\<forall>x. page_of x \<notin> {a, b, c} \<longrightarrow> mem t x = mem s x)"
  using paging_clone_kernel_cloned[OF assms] cloned_walk[OF _ assms(2)] cloned_no_user[OF _ assms(2)] by metis

text \<open>The boot tables with three free pages above 1 MiB.\<close>

definition boot_demo :: paging_state where
  "boot_demo = paging_demo\<lparr>mem := setup_paging (mem pmm_demo), paging_root := 0x1000, cr3 := 0x1000\<rparr>"

lemma setup_paging_other:
  assumes "page_of a \<notin> {0x1000, 0x2000, 0x3000}"
  shows "setup_paging m a = m a"
proof -
  have al: "page_aligned 0x1000" "page_aligned 0x2000" "page_aligned 0x3000"
    by (simp_all add: page_aligned_def)
  show ?thesis
    using assms al by (simp add: setup_paging_eq fill_table_other_page write_slot_other_page)
qed

lemma boot_demo_frames: "free_frames boot_demo [0x200000, 0x201000, 0x203000]"
  by (rule free_frames_cong[OF paging_demo_frames])
    (auto simp: boot_demo_def intro!: setup_paging_other)

lemma boot_tables:
  "tab3 (setup_paging m) 0x1000 0 = 0x2000" "tab2 (setup_paging m) 0x1000 0 = 0x3000"
  "has3 (setup_paging m) 0x1000 0"
proof -
  have p: "page_of 0x2007 = 0x2000" "page_of 0x3007 = 0x3000"
    by (simp_all add: page_of_def del: table_address)
  have idx: "pml4_i 0 = 0" "pdpt_i 0 = 0" by (simp_all add: pml4_i_def pdpt_i_def)
  show "tab3 (setup_paging m) 0x1000 0 = 0x2000" "tab2 (setup_paging m) 0x1000 0 = 0x3000"
    "has3 (setup_paging m) 0x1000 0"
    by (simp_all add: path_defs idx setup_paging_entries p)
qed

lemma boot_template_ok:
  assumes "{0x1000, 0x2000, 0x3000} \<inter> fs = {}"
  shows "template_ok (setup_paging m) fs"
proof -
  have "(push_bit 21 j OR 0x83) AND 0x80 \<noteq> 0" for j :: u64
    by (rule and_bit_nonzero) (simp add: word_bits)
  then show ?thesis
    using assms by (simp add: template_ok_def boot_tables setup_paging_entries Let_def)
qed

theorem paging_clone_kernel_correct_witness:
  "\<exists>t. paging_clone_kernel boot_demo = (0x200000, t)
       \<and> (\<forall>va. va < 0x40000000 \<longrightarrow>
             mmu_walk (mem t) 0x200000 va = mmu_walk (setup_paging (mem pmm_demo)) 0x1000 va)"
  using paging_clone_kernel_correct[OF boot_demo_frames] boot_template_ok[of "{0x200000, 0x201000, 0x203000}"]
  by (auto simp: boot_demo_def low_gib_indices)

text \<open>
  With fewer than three free frames, \<^verbatim>\<open>paging_clone_kernel\<close> returns 0 and keeps the
  frames it took: the free list is empty afterwards.
\<close>

theorem paging_clone_kernel_oom:
  assumes "free_frames s ps" "length ps < 3"
  shows "\<exists>t. paging_clone_kernel s = (0, t) \<and> free_frames t []"
proof -
  have empty: "pmm_alloc_page u = (0, u)" if "free_frames u []" for u :: "'a paging_state_scheme"
    using that by (rule pmm.alloc_cases) auto
  consider "ps = []" | a where "ps = [a]" | a b where "ps = [a, b]"
    using assms(2) by (auto simp: numeral_3_eq_3 less_Suc_eq length_Suc_conv)
  then show ?thesis
  proof cases
    case 1
    then show ?thesis using assms(1) by (simp add: paging_clone_kernel_def empty)
  next
    case 2
    obtain u where "pmm_alloc_page s = (a, u)" "free_frames u []"
      using assms(1) unfolding 2 by (rule pmm.alloc_cases) auto
    then show ?thesis by (simp add: paging_clone_kernel_def empty)
  next
    case 3
    obtain u where u: "pmm_alloc_page s = (a, u)" "free_frames u [b]"
      using assms(1) unfolding 3 by (rule pmm.alloc_cases) auto
    obtain w where "pmm_alloc_page u = (b, w)" "free_frames w []"
      using u(2) by (rule pmm.alloc_cases) auto
    with u(1) show ?thesis by (simp add: paging_clone_kernel_def empty)
  qed
qed

theorem paging_clone_kernel_oom_witness:
  "\<exists>t. paging_clone_kernel (snd (pmm_alloc_page boot_demo)) = (0, t) \<and> free_frames t []"
proof -
  obtain u where "pmm_alloc_page boot_demo = (0x200000, u)" "free_frames u [0x201000, 0x203000]"
    using boot_demo_frames by (rule pmm.alloc_cases) auto
  then show ?thesis using paging_clone_kernel_oom[of u "[0x201000, 0x203000]"] by simp
qed

section \<open>Unmapping and changing flags\<close>

text \<open>
  A walk reads one entry per level; storing into any other entry does not change it.
\<close>

definition walk_slots :: "memory \<Rightarrow> u64 \<Rightarrow> u64 \<Rightarrow> (u64 \<times> u64) list" where
  "walk_slots m root va = zip (walk_tables m root va) [pml4_i va, pdpt_i va, pdt_i va, pt_i va]"

text \<open>
  The way to an address is open to user code when the tables on it are there and have the user bit; the entry of a page
  directory counts only when it has a table. The processor's view of an address: its translation, whether
  user code may use it, and whether the way is open.
\<close>

definition user_way :: "memory \<Rightarrow> u64 \<Rightarrow> u64 \<Rightarrow> bool" where
  "user_way m root va \<longleftrightarrow>
     (let e4 = entry m root (pml4_i va)
      in e4 AND 1 \<noteq> 0 \<and> e4 AND PAGE_USER \<noteq> 0
         \<and> (let e3 = entry m (page_of e4) (pdpt_i va)
            in e3 AND 1 \<noteq> 0 \<and> e3 AND PAGE_PS = 0 \<and> e3 AND PAGE_USER \<noteq> 0
               \<and> (let e2 = entry m (page_of e3) (pdt_i va)
                  in e2 AND 1 = 0 \<or> e2 AND PAGE_PS \<noteq> 0 \<or> e2 AND PAGE_USER \<noteq> 0)))"

definition view :: "memory \<Rightarrow> u64 \<Rightarrow> u64 \<Rightarrow> u64 option \<times> bool \<times> bool" where
  "view m root va = (mmu_walk m root va, mmu_user m root va, user_way m root va)"

lemma view_slots_cong:
  assumes "\<And>t i. (t, i) \<in> set (walk_slots m root va) \<Longrightarrow> entry m' t i = entry m t i"
  shows "view m' root va = view m root va"
proof -
  let ?e4 = "entry m root (pml4_i va)"
  let ?e3 = "entry m (page_of ?e4) (pdpt_i va)"
  let ?e2 = "entry m (page_of ?e3) (pdt_i va)"
  have 4: "entry m' root (pml4_i va) = ?e4"
    by (rule assms) (auto simp: walk_slots_def walk_tables_def)
  have 3: "entry m' (page_of ?e4) (pdpt_i va) = ?e3" if "?e4 AND 1 \<noteq> 0"
    by (rule assms) (use that in \<open>auto simp: walk_slots_def walk_tables_def Let_def\<close>)
  have 2: "entry m' (page_of ?e3) (pdt_i va) = ?e2"
    if "?e4 AND 1 \<noteq> 0" "?e3 AND 1 \<noteq> 0" "?e3 AND PAGE_PS = 0"
    by (rule assms) (use that in \<open>auto simp: walk_slots_def walk_tables_def Let_def\<close>)
  have 1: "entry m' (page_of ?e2) (pt_i va) = entry m (page_of ?e2) (pt_i va)"
    if "?e4 AND 1 \<noteq> 0" "?e3 AND 1 \<noteq> 0" "?e3 AND PAGE_PS = 0" "?e2 AND 1 \<noteq> 0" "?e2 AND PAGE_PS = 0"
    by (rule assms) (use that in \<open>auto simp: walk_slots_def walk_tables_def Let_def\<close>)
  have walk: "mmu_walk m' root va = mmu_walk m root va"
    unfolding mmu_walk_def Let_def 4 using 3 2 1 by (simp cong: if_cong)
  have "mmu_user m' root va = mmu_user m root va"
  proof (cases "mmu_walk m root va = None")
    case False
    then have "?e4 AND 1 \<noteq> 0" "?e3 AND 1 \<noteq> 0" "?e3 AND PAGE_PS \<noteq> 0 \<or> ?e2 AND 1 \<noteq> 0"
      by (auto simp: mmu_walk_def Let_def split: if_splits)
    then show ?thesis unfolding mmu_user_def Let_def walk 4 using 3 2 1 by (auto cong: conj_cong disj_cong)
  qed (simp add: mmu_user_def walk)
  moreover have "user_way m' root va = user_way m root va"
    unfolding user_way_def Let_def 4 using 3 2 by (auto cong: conj_cong)
  ultimately show ?thesis by (simp add: view_def walk)
qed

lemma walk_slots_cong:
  assumes "\<And>t i. (t, i) \<in> set (walk_slots m root va) \<Longrightarrow> entry m' t i = entry m t i"
  shows "mmu_walk m' root va = mmu_walk m root va"
  using view_slots_cong[of m root va m'] assms by (simp add: view_def)


lemma walk_slots_aligned:
  "page_aligned root \<Longrightarrow> (t, i) \<in> set (walk_slots m root va) \<Longrightarrow> page_aligned t \<and> i < 512"
  by (auto simp: walk_slots_def walk_tables_def Let_def split: if_splits)

lemma walk_store_other:
  assumes "page_aligned root" "page_aligned t" "i < 512" "(t, i) \<notin> set (walk_slots m root va)"
  shows "mmu_walk (write64 (slot t i) e m) root va = mmu_walk m root va"
  by (rule walk_slots_cong) (use assms walk_slots_aligned[OF assms(1)] in \<open>auto simp: entry_write\<close>)

lemma page_by_indices:
  assumes "va AND NOT 0x1FFFFF = v AND NOT 0x1FFFFF" "pt_i va = pt_i v"
  shows "page_of va = page_of v"
proof (rule bit_word_eqI)
  fix n
  assume n: "n < LENGTH(64)"
  have a: "bit va n = bit v n" if "21 \<le> n"
    using arg_cong[OF assms(1), of "\<lambda>w. bit w n"] that n unfolding mask_numerals by (simp add: word_bits)
  have b: "bit va n = bit v n" if "12 \<le> n" "n < 21"
    using arg_cong[OF assms(2), of "\<lambda>w. bit w (n - 12)"] that
    unfolding pt_i_def mask_numerals by (auto simp: word_bits)
  show "bit (page_of va) n = bit (page_of v) n"
    unfolding page_of_def mask_numerals using a b n by (cases "n < 21") (auto simp: word_bits)
qed

lemma region_slots:
  assumes "path_ok m root v ps" "has2 m root v" "va AND NOT 0x1FFFFF = v AND NOT 0x1FFFFF"
  shows "walk_slots m root va =
    [(root, pml4_i v), (tab3 m root v, pdpt_i v), (tab2 m root v, pdt_i v), (page_of (pde_of m root v), pt_i va)]"
  using assms(2) path_ok_level3(6)[OF assms(1)]
  by (simp add: walk_slots_def walk_tables_def same_region_indices[OF assms(3)] path_defs Let_def)

lemma region_store_leaf:
  assumes "path_ok m root v ps" "has2 m root v"
    and "va AND NOT 0x1FFFFF = v AND NOT 0x1FFFFF" "page_of va \<noteq> page_of v"
  shows "mmu_walk (write64 (slot (page_of (pde_of m root v)) (pt_i v)) e m) root va = mmu_walk m root va"
proof (rule walk_store_other)
  show "(page_of (pde_of m root v), pt_i v) \<notin> set (walk_slots m root va)"
    using path_ok_level2[OF assms(1,2)] page_by_indices[OF assms(3)] assms(4)
    unfolding region_slots[OF assms(1-3)] by auto
qed (use path_ok_level2[OF assms(1,2)] in auto)

lemma walk_stored_leaf:
  assumes "path_ok m root v ps" "has2 m root v" "page_of va = page_of v"
  shows "mmu_walk (write64 (slot (page_of (pde_of m root v)) (pt_i v)) e m) root va =
    (if e AND 1 = 0 then None else Some (page_of e OR (va AND 0xFFF)))"
proof -
  let ?m = "write64 (slot (page_of (pde_of m root v)) (pt_i v)) e m"
  note st = store_leaf[OF assms(1,2), of e]
  have "path_ok ?m root va ps" "has2 ?m root va"
    using st(1,2) by (simp_all only: same_page_path[OF assms(3)])
  from walk_full_path(1)[OF this] show ?thesis
    unfolding same_page_path[OF assms(3)] same_page_indices[OF assms(3)] st(3,7) Let_def .
qed

lemma unmap_page_small:
  assumes "path_ok (mem s) (paging_root s) v ps" "has2 (mem s) (paging_root s) v"
  shows "unmap_page v s = set_entry (page_of (pde_of (mem s) (paging_root s) v)) (pt_i v)
    (entry (mem s) (page_of (pde_of (mem s) (paging_root s) v)) (pt_i v) AND NOT 1) s"
proof -
  have h3: "has3 (mem s) (paging_root s) v" using assms(2) by (simp add: has2_def)
  show ?thesis
    using assms(2) path_ok_level3(6)[OF assms(1) h3]
    by (simp add: unmap_page_def path_defs Let_def)
qed

text \<open>
  C28: \<^verbatim>\<open>unmap_page(v)\<close> on a page mapped through a page table removes the translation
  of exactly that page: its addresses no longer translate and every other page of the same
  2 MiB region translates as before.
\<close>

theorem unmap_page_unmaps:
  assumes "path_ok (mem s) (paging_root s) v ps" "has2 (mem s) (paging_root s) v"
    and "va AND NOT 0x1FFFFF = v AND NOT 0x1FFFFF"
  shows "mmu_walk (mem (unmap_page v s)) (paging_root s) va =
    (if page_of va = page_of v then None else mmu_walk (mem s) (paging_root s) va)"
proof (cases "page_of va = page_of v")
  case True
  then show ?thesis
    using walk_stored_leaf[OF assms(1,2) True]
    by (simp add: unmap_page_small[OF assms(1,2)] and.assoc)
next
  case False
  then show ?thesis
    using region_store_leaf[OF assms] by (simp add: unmap_page_small[OF assms(1,2)])
qed

text \<open>
  When the page directory has no entry for \<open>v\<close>, \<^verbatim>\<open>unmap_page(v)\<close> still writes
  memory: it clears the low bit of a word of physical page 0, as if a page table were there.
\<close>

theorem unmap_page_absent_writes_low_memory:
  assumes "path_ok (mem s) (paging_root s) v ps" "has3 (mem s) (paging_root s) v"
    and "pde_of (mem s) (paging_root s) v = 0"
  shows "unmap_page v s = s\<lparr>mem := write64 (8 * pt_i v) (read64 (mem s) (8 * pt_i v) AND NOT 1) (mem s)\<rparr>"
proof -
  have "page_of 0 = 0" by (simp add: page_of_def del: table_address)
  then have "unmap_page v s = set_entry 0 (pt_i v) (entry (mem s) 0 (pt_i v) AND NOT 1) s"
    using assms(2,3) path_ok_level3(6)[OF assms(1,2)]
    by (simp add: unmap_page_def path_defs Let_def)
  then show ?thesis by (simp add: set_entry_def entry_def slot_def)
qed

theorem unmap_page_absent_writes_low_memory_witness:
  "unmap_page 0x600000 mapped_demo =
     mapped_demo\<lparr>mem := write64 0 (read64 (mem mapped_demo) 0 AND NOT 1) (mem mapped_demo)\<rparr>"
proof -
  have "pt_i 0x600000 = 0" by (simp add: pt_i_def)
  then show ?thesis
    using unmap_page_absent_writes_low_memory[of mapped_demo "0x600000" "[]"] mapped_demo_path by simp
qed

theorem unmap_page_unmaps_witness:
  "mmu_walk (mem (unmap_page 0x400000 mapped_demo)) 0x10000 0x400010 = None"
proof -
  have "page_of 0x400010 = page_of 0x400000" by (simp add: page_of_def del: table_address)
  then show ?thesis
    using unmap_page_unmaps[of mapped_demo "0x400000" "[]" "0x400010"] mapped_demo_path by simp
qed

lemma new_flag_bits:
  fixes e flags :: u64
  shows "page_of ((e AND NOT 0x1FF) OR (flags AND 0x1FF)) = page_of e"
    "((e AND NOT 0x1FF) OR (flags AND 0x1FF)) AND 1 = flags AND 1"
    "((e AND NOT 0x1FF) OR (flags AND 0x1FF)) AND 4 = flags AND 4"
    "((e AND NOT 0x1FF) OR (flags AND 0x1FF)) AND 0x80 = flags AND 0x80"
  by (simp_all add: page_of_def bit.conj_disj_distrib2 and.assoc del: table_address)

lemma map_page_flags_small:
  assumes "path_ok (mem s) (paging_root s) v ps" "has2 (mem s) (paging_root s) v"
    and "entry (mem s) (page_of (pde_of (mem s) (paging_root s) v)) (pt_i v) AND 1 \<noteq> 0"
  shows "map_page_flags v flags s = set_entry (page_of (pde_of (mem s) (paging_root s) v)) (pt_i v)
    ((entry (mem s) (page_of (pde_of (mem s) (paging_root s) v)) (pt_i v) AND NOT 0x1FF)
       OR (flags AND 0x1FF)) s"
proof -
  have h3: "has3 (mem s) (paging_root s) v" using assms(2) by (simp add: has2_def)
  show ?thesis
    using assms(2,3) path_ok_level3(6)[OF assms(1) h3]
    by (simp add: map_page_flags_def path_defs Let_def)
qed

text \<open>
  C29: \<^verbatim>\<open>map_page_flags(v, flags)\<close>, with the present bit in \<open>flags\<close>, on a page mapped
  through a page table keeps every translation of its 2 MiB region, and makes \<open>v\<close>
  user-accessible exactly if \<open>flags\<close> has the user bit and the three levels above allow it.
\<close>

theorem map_page_flags_correct:
  assumes "path_ok (mem s) (paging_root s) v ps" "has2 (mem s) (paging_root s) v"
    and "entry (mem s) (page_of (pde_of (mem s) (paging_root s) v)) (pt_i v) AND 1 \<noteq> 0"
    and "flags AND PAGE_PRESENT \<noteq> 0" "va AND NOT 0x1FFFFF = v AND NOT 0x1FFFFF"
  shows "mmu_walk (mem (map_page_flags v flags s)) (paging_root s) va = mmu_walk (mem s) (paging_root s) va
    \<and> (mmu_user (mem (map_page_flags v flags s)) (paging_root s) v \<longleftrightarrow>
         flags AND PAGE_USER \<noteq> 0 \<and> pde_of (mem s) (paging_root s) v AND PAGE_USER \<noteq> 0
         \<and> entry (mem s) (tab3 (mem s) (paging_root s) v) (pdpt_i v) AND PAGE_USER \<noteq> 0
         \<and> entry (mem s) (paging_root s) (pml4_i v) AND PAGE_USER \<noteq> 0)"
proof -
  let ?r = "paging_root s"
  let ?pt = "page_of (pde_of (mem s) ?r v)"
  let ?e = "entry (mem s) ?pt (pt_i v)"
  let ?n = "(?e AND NOT 0x1FF) OR (flags AND 0x1FF)"
  let ?m = "write64 (slot ?pt (pt_i v)) ?n (mem s)"
  have m: "mem (map_page_flags v flags s) = ?m"
    unfolding map_page_flags_small[OF assms(1-3)] by (rule set_entry_fields(5))
  note st = store_leaf[OF assms(1,2), of ?n]
  have walk: "mmu_walk ?m ?r va = mmu_walk (mem s) ?r va"
  proof (cases "page_of va = page_of v")
    case True
    have "path_ok (mem s) ?r va ps" "has2 (mem s) ?r va"
      using assms(1,2) by (simp_all only: same_page_path[OF True])
    from walk_full_path(1)[OF this] have "mmu_walk (mem s) ?r va = Some (page_of ?e OR (va AND 0xFFF))"
      unfolding same_page_path[OF True] same_page_indices[OF True] Let_def using assms(3) by simp
    then show ?thesis
      using walk_stored_leaf[OF assms(1,2) True, of ?n] assms(4)
      by (simp only: new_flag_bits if_False simp_thms)
  next
    case False
    then show ?thesis using region_store_leaf[OF assms(1,2,5)] by blast
  qed
  have "mmu_walk ?m ?r v \<noteq> None"
    using walk_stored_leaf[OF assms(1,2) refl, of ?n] assms(4)
    by (simp only: new_flag_bits if_False simp_thms option.distinct not_False_eq_True)
  then have "mmu_user ?m ?r v \<longleftrightarrow>
      entry (mem s) ?r (pml4_i v) AND 4 \<noteq> 0 \<and> entry (mem s) (tab3 (mem s) ?r v) (pdpt_i v) AND 4 \<noteq> 0
      \<and> pde_of (mem s) ?r v AND 4 \<noteq> 0 \<and> flags AND 4 \<noteq> 0"
    using walk_full_path(2)[OF st(1,2)] unfolding st(3-7) new_flag_bits by blast
  with walk show ?thesis unfolding m by blast
qed

theorem map_page_flags_correct_witness:
  "mmu_walk (mem (map_page_flags 0x400000 5 mapped_demo)) 0x10000 0x400010 =
     mmu_walk (mem mapped_demo) 0x10000 0x400010"
  using map_page_flags_correct[of mapped_demo "0x400000" "[]" 5 "0x400010"] mapped_demo_path
  by (simp add: mapped_demo_entry pt_i_def)

text \<open>
  On a 2 MiB mapping, \<^verbatim>\<open>map_page_flags\<close> with flags that lack bit 7 (those
  \<^verbatim>\<open>sys_mprotect\<close> passes) clears the page-size bit: the directory entry then designates
  the first page of the data as a page table, and its contents decide the translation.
\<close>

theorem map_page_flags_large_becomes_table:
  assumes "path_ok (mem s) (paging_root s) v ps" "has3 (mem s) (paging_root s) v"
    and "pde_of (mem s) (paging_root s) v AND 1 \<noteq> 0" "pde_of (mem s) (paging_root s) v AND PAGE_PS \<noteq> 0"
    and "flags AND PAGE_PRESENT \<noteq> 0" "flags AND PAGE_PS = 0"
  shows "mmu_walk (mem (map_page_flags v flags s)) (paging_root s) v =
    (let e = entry (mem (map_page_flags v flags s)) (page_of (pde_of (mem s) (paging_root s) v)) (pt_i v)
     in if e AND 1 = 0 then None else Some (page_of e OR (v AND 0xFFF)))"
proof -
  let ?r = "paging_root s"
  let ?t2 = "tab2 (mem s) ?r v"
  let ?n = "(pde_of (mem s) ?r v AND NOT 0x1FF) OR (flags AND 0x1FF)"
  let ?m = "write64 (slot ?t2 (pdt_i v)) ?n (mem s)"
  note up = path_ok_level3[OF assms(1,2)]
  have "map_page_flags v flags s = set_entry ?t2 (pdt_i v) ?n s"
    using assms(2-4) up(6) by (simp add: map_page_flags_def path_defs Let_def)
  then have m: "mem (map_page_flags v flags s) = ?m" by simp
  have e: "entry ?m ?r (pml4_i v) = entry (mem s) ?r (pml4_i v)"
    "entry ?m (tab3 (mem s) ?r v) (pdpt_i v) = entry (mem s) (tab3 (mem s) ?r v) (pdpt_i v)"
    "entry ?m ?t2 (pdt_i v) = ?n"
    using up by (auto simp: entry_write)
  have h: "entry (mem s) ?r (pml4_i v) AND 1 \<noteq> 0" "entry (mem s) (tab3 (mem s) ?r v) (pdpt_i v) AND 1 \<noteq> 0"
    "page_of (entry (mem s) ?r (pml4_i v)) = tab3 (mem s) ?r v"
    "page_of (entry (mem s) (tab3 (mem s) ?r v) (pdpt_i v)) = ?t2"
    using assms(2) by (simp_all add: path_defs)
  show ?thesis
    unfolding m mmu_walk_def Let_def e h(3,4) new_flag_bits using h(1,2) up(6) assms(5,6) by simp
qed

lemma boot_demo_path:
  "path_ok (mem boot_demo) 0x1000 0x800000 []" "has3 (mem boot_demo) 0x1000 0x800000"
  "pde_of (mem boot_demo) 0x1000 0x800000 = 0x800083"
proof -
  have p: "page_of 0x2007 = 0x2000" "page_of 0x3007 = 0x3000" "page_aligned 0x1000"
    by (simp_all add: page_of_def page_aligned_def del: table_address)
  have e: "entry (setup_paging m) 0x3000 4 = 0x800083" for m
    by (simp add: setup_paging_entries)
  show "path_ok (mem boot_demo) 0x1000 0x800000 []" "has3 (mem boot_demo) 0x1000 0x800000"
    "pde_of (mem boot_demo) 0x1000 0x800000 = 0x800083"
    by (simp_all add: boot_demo_def path_ok_def walk_tables_def path_defs setup_paging_entries(1,2) e p
        pml4_i_def pdpt_i_def pdt_i_def Let_def)
qed

theorem map_page_flags_large_becomes_table_witness:
  "mmu_walk (mem (map_page_flags 0x800000 7 boot_demo)) 0x1000 0x800000 =
     (let e = entry (mem (map_page_flags 0x800000 7 boot_demo)) 0x800000 0
      in if e AND 1 = 0 then None else Some (page_of e))"
proof -
  have "page_of 0x800083 = 0x800000" "pt_i 0x800000 = 0" "paging_root boot_demo = 0x1000"
    by (simp_all add: page_of_def pt_i_def boot_demo_def del: table_address)
  then show ?thesis
    using map_page_flags_large_becomes_table[of boot_demo "0x800000" "[]" 7] boot_demo_path
    by (simp add: Let_def)
qed

section \<open>What a translation depends on\<close>

text \<open>A walk depends only on the tables it visits.\<close>

lemma mmu_walk_cong:
  assumes "page_aligned root" "\<And>a. page_of a \<in> set (walk_tables m root va) \<Longrightarrow> m' a = m a"
  shows "mmu_walk m' root va = mmu_walk m root va"
  by (rule walk_slots_cong, rule entry_cong)
    (use assms walk_slots_aligned[OF assms(1)] in \<open>auto simp: walk_slots_def dest: set_zip_leftD\<close>)

lemma boot_walk_tables:
  assumes "va < 0x40000000"
  shows "walk_tables (setup_paging m) 0x1000 va = [0x1000, 0x2000, 0x3000]"
proof -
  have p: "page_of 0x2007 = 0x2000" "page_of 0x3007 = 0x3000"
    by (simp_all add: page_of_def del: table_address)
  have "(push_bit 21 (pdt_i va) OR 0x83) AND 0x80 \<noteq> 0"
    by (rule and_bit_nonzero) (simp add: word_bits)
  then show ?thesis
    using low_gib_indices[OF assms] by (simp add: walk_tables_def setup_paging_entries p Let_def)
qed

end
