(* ===== verification/Ipc.thy ===== *)
theory Ipc
  imports Mukrn_Prelude
begin

text \<open>
  Task descriptors and their message queues (\<^verbatim>\<open>kernel/include/task.h\<close> and the queue
  code of \<^verbatim>\<open>kernel/task.c\<close> and \<^verbatim>\<open>kernel/idt.c\<close>). Every task owns a ring of 16
  message slots with 32-bit head, tail and count. The two producers, \<^verbatim>\<open>sys_send\<close> and the
  keyboard interrupt, fill the slot at the head and then advance; the consumer
  \<^verbatim>\<open>sys_recv\<close> reads the slot at the tail and then advances. The interface
  \<open>bounded_fifo\<close> states the queue contract and is interpreted on the ring.
\<close>

section \<open>Descriptors\<close>

abbreviation IPC_QUEUE_SIZE :: u32 where "IPC_QUEUE_SIZE \<equiv> 16"
abbreviation IPC_MAX_DATA :: u64 where "IPC_MAX_DATA \<equiv> 64"

record ipc_msg =
  sender_pid :: u64
  msg_type :: u64
  msg_data :: "u8 list" \<comment> \<open>64 bytes\<close>
  msg_length :: u64

datatype task_state = TASK_EXITED | TASK_READY | TASK_RUNNING | TASK_BLOCKED

record task =
  t_rsp :: u64
  t_pid :: u64
  t_state :: task_state
  stack_phys :: u64
  user_stack_phys :: u64
  pml4_phys :: u64
  load_addr :: u64
  code_pages :: u64
  wait_idx :: int
  ipc_queue :: "ipc_msg list" \<comment> \<open>16 slots\<close>
  ipc_head :: u32
  ipc_tail :: u32
  ipc_count :: u32

text \<open>Statically allocated descriptors start out as zero bytes.\<close>

definition zero_msg :: ipc_msg where
  "zero_msg = \<lparr>sender_pid = 0, msg_type = 0, msg_data = replicate 64 0, msg_length = 0\<rparr>"

definition zero_task :: task where
  "zero_task = \<lparr>t_rsp = 0, t_pid = 0, t_state = TASK_EXITED, stack_phys = 0, user_stack_phys = 0,
     pml4_phys = 0, load_addr = 0, code_pages = 0, wait_idx = 0, ipc_queue = replicate 16 zero_msg,
     ipc_head = 0, ipc_tail = 0, ipc_count = 0\<rparr>"

section \<open>Queue operations\<close>

definition ipc_init_task :: "task \<Rightarrow> task" where
  "ipc_init_task t = t\<lparr>ipc_head := 0, ipc_tail := 0, ipc_count := 0\<rparr>"

text \<open>
  The stores of a producer into the head slot (bytes of \<open>data\<close> beyond the new ones keep
  their old values), then the update of head and count.
\<close>

definition ipc_fill :: "u64 \<Rightarrow> u64 \<Rightarrow> u8 list \<Rightarrow> task \<Rightarrow> task" where
  "ipc_fill sender typ bytes t =
     (let h = unat (ipc_head t); msg = ipc_queue t ! h
      in t\<lparr>ipc_queue := (ipc_queue t)[h := msg\<lparr>sender_pid := sender, msg_type := typ,
              msg_length := of_nat (length bytes),
              msg_data := bytes @ drop (length bytes) (msg_data msg)\<rparr>]\<rparr>)"

definition ipc_advance :: "task \<Rightarrow> task" where
  "ipc_advance t =
     t\<lparr>ipc_head := (ipc_head t + 1) mod IPC_QUEUE_SIZE, ipc_count := ipc_count t + 1\<rparr>"

definition ipc_wake :: "task \<Rightarrow> task" where
  "ipc_wake t = (if t_state t = TASK_BLOCKED then t\<lparr>t_state := TASK_READY\<rparr> else t)"

definition ipc_put :: "u64 \<Rightarrow> u64 \<Rightarrow> u8 list \<Rightarrow> task \<Rightarrow> task" where
  "ipc_put sender typ bytes t = ipc_wake (ipc_advance (ipc_fill sender typ bytes t))"

definition ipc_head_msg :: "task \<Rightarrow> ipc_msg" where
  "ipc_head_msg t = ipc_queue t ! unat (ipc_tail t)"

definition ipc_drop :: "task \<Rightarrow> task" where
  "ipc_drop t = t\<lparr>ipc_tail := (ipc_tail t + 1) mod IPC_QUEUE_SIZE, ipc_count := ipc_count t - 1\<rparr>"

section \<open>Abstraction to a list of messages\<close>

definition ipc_ok :: "task \<Rightarrow> bool" where
  "ipc_ok t \<longleftrightarrow>
     length (ipc_queue t) = 16 \<and> ipc_head t < 16 \<and> ipc_tail t < 16 \<and> ipc_count t \<le> 16
     \<and> unat (ipc_head t) = (unat (ipc_tail t) + unat (ipc_count t)) mod 16
     \<and> (\<forall>m \<in> set (ipc_queue t). length (msg_data m) = 64 \<and> msg_length m \<le> 64)"

type_synonym message = "u64 \<times> u64 \<times> u8 list"

definition msg_view :: "ipc_msg \<Rightarrow> message" where
  "msg_view m = (sender_pid m, msg_type m, take (unat (msg_length m)) (msg_data m))"

text \<open>The pending messages, oldest first.\<close>

definition ring_slots :: "task \<Rightarrow> nat list" where
  "ring_slots t = map (\<lambda>k. (unat (ipc_tail t) + k) mod 16) [0..<unat (ipc_count t)]"

definition inbox :: "task \<Rightarrow> message list" where
  "inbox t = map (\<lambda>i. msg_view (ipc_queue t ! i)) (ring_slots t)"

lemma length_inbox [simp]: "length (inbox t) = unat (ipc_count t)"
  by (simp add: inbox_def ring_slots_def)

lemma ring_index:
  fixes h :: u32
  assumes "h < 16"
  shows "unat ((h + 1) mod 16) = (unat h + 1) mod 16"
  using assms by (simp add: word_less_nat_alt unat_mod unat_word_ariths)

lemma ipc_ok_bounds:
  assumes "ipc_ok t"
  shows "unat (ipc_head t) < 16" "unat (ipc_tail t) < 16" "unat (ipc_count t) \<le> 16"
  using assms by (simp_all add: ipc_ok_def word_less_nat_alt word_le_nat_alt)

text \<open>While the ring is not full, the head slot is not one of the pending ones.\<close>

lemma ring_distance:
  fixes a c k n :: nat
  assumes "k < c" "c < n"
  shows "(a + k) mod n \<noteq> (a + c) mod n"
proof
  assume "(a + k) mod n = (a + c) mod n"
  then have "n dvd (a + c) - (a + k)"
    using assms(1) by (metis mod_eq_dvd_iff_nat nat_add_left_cancel_le less_imp_le)
  with assms show False by (auto dest: dvd_imp_le)
qed

lemma head_not_pending:
  assumes "ipc_ok t" "ipc_count t < 16"
  shows "unat (ipc_head t) \<notin> set (ring_slots t)"
proof
  assume "unat (ipc_head t) \<in> set (ring_slots t)"
  then obtain k where k: "k < unat (ipc_count t)"
      "unat (ipc_head t) = (unat (ipc_tail t) + k) mod 16"
    by (auto simp: ring_slots_def)
  moreover have "unat (ipc_head t) = (unat (ipc_tail t) + unat (ipc_count t)) mod 16"
    using assms(1) by (simp add: ipc_ok_def)
  moreover have "unat (ipc_count t) < 16"
    using assms(2) by (simp add: word_less_nat_alt)
  ultimately show False using ring_distance[of k "unat (ipc_count t)" 16] by metis
qed

lemma ipc_fill_other:
  assumes "i \<noteq> unat (ipc_head t)"
  shows "ipc_queue (ipc_fill sender typ bytes t) ! i = ipc_queue t ! i"
  using assms by (simp add: ipc_fill_def Let_def)

lemma ipc_fill_head:
  assumes "ipc_ok t" "length bytes \<le> 64"
  shows "msg_view (ipc_queue (ipc_fill sender typ bytes t) ! unat (ipc_head t)) = (sender, typ, bytes)"
proof -
  have "unat (of_nat (length bytes) :: u64) = length bytes"
    using assms(2) by (simp add: unat_of_nat take_bit_nat_eq_self_iff)
  then show ?thesis
    using assms ipc_ok_bounds[OF assms(1)]
    by (simp add: ipc_fill_def Let_def msg_view_def ipc_ok_def)
qed

lemma ipc_fill_fields [simp]:
  "ipc_head (ipc_fill sender typ bytes t) = ipc_head t"
  "ipc_tail (ipc_fill sender typ bytes t) = ipc_tail t"
  "ipc_count (ipc_fill sender typ bytes t) = ipc_count t"
  "t_state (ipc_fill sender typ bytes t) = t_state t"
  "t_pid (ipc_fill sender typ bytes t) = t_pid t"
  "wait_idx (ipc_fill sender typ bytes t) = wait_idx t"
  by (simp_all add: ipc_fill_def Let_def)

lemma ipc_fill_ok:
  assumes "ipc_ok t" "length bytes \<le> 64"
  shows "ipc_ok (ipc_fill sender typ bytes t)"
proof -
  have l: "(of_nat (length bytes) :: u64) \<le> 64"
    using assms(2) by (simp add: word_le_nat_alt unat_of_nat take_bit_nat_eq_self_iff)
  have h: "unat (ipc_head t) < length (ipc_queue t)"
    using assms(1) ipc_ok_bounds(1)[OF assms(1)] by (simp add: ipc_ok_def)
  then have "length (msg_data (ipc_queue t ! unat (ipc_head t))) = 64"
    using assms(1) nth_mem by (fastforce simp: ipc_ok_def)
  moreover have "set (ipc_queue (ipc_fill sender typ bytes t)) \<subseteq>
      insert (ipc_queue (ipc_fill sender typ bytes t) ! unat (ipc_head t)) (set (ipc_queue t))"
    using h set_update_subset_insert[of "ipc_queue t"] by (simp add: ipc_fill_def Let_def)
  moreover have "length (ipc_queue (ipc_fill sender typ bytes t)) = length (ipc_queue t)"
    by (simp add: ipc_fill_def Let_def)
  ultimately show ?thesis
    using assms l h by (auto simp: ipc_ok_def ipc_fill_def Let_def)
qed

lemma ipc_advance_ok:
  assumes "ipc_ok t" "ipc_count t < 16"
  shows "ipc_ok (ipc_advance t)"
proof -
  have c: "unat (ipc_count t + 1) = unat (ipc_count t) + 1"
    using assms(2) by (simp add: word_less_nat_alt unat_word_ariths)
  have "unat ((ipc_head t + 1) mod 16) = (unat (ipc_tail t) + (unat (ipc_count t) + 1)) mod 16"
    using ring_index[of "ipc_head t"] assms(1) by (simp add: ipc_ok_def mod_simps add.assoc)
  then show ?thesis
    using assms c by (simp add: ipc_ok_def ipc_advance_def word_less_nat_alt word_le_nat_alt unat_mod)
qed

lemma inbox_advance:
  assumes "ipc_ok t" "ipc_count t < 16"
  shows "inbox (ipc_advance t) = inbox t @ [msg_view (ipc_queue t ! unat (ipc_head t))]"
proof -
  have "unat (ipc_count t + 1) = Suc (unat (ipc_count t))"
    using assms(2) by (simp add: word_less_nat_alt unat_word_ariths)
  then show ?thesis
    using assms(1) by (simp add: inbox_def ring_slots_def ipc_advance_def ipc_ok_def)
qed

lemma inbox_fill:
  assumes "ipc_ok t" "ipc_count t < 16"
  shows "inbox (ipc_fill sender typ bytes t) = inbox t"
proof -
  have "ring_slots (ipc_fill sender typ bytes t) = ring_slots t" by (simp add: ring_slots_def)
  then show ?thesis
    using head_not_pending[OF assms]
    by (auto simp: inbox_def intro!: arg_cong[of _ _ msg_view] ipc_fill_other)
qed

lemma ipc_wake_simps [simp]:
  "ipc_ok (ipc_wake t) = ipc_ok t" "inbox (ipc_wake t) = inbox t"
  "ipc_count (ipc_wake t) = ipc_count t" "wait_idx (ipc_wake t) = wait_idx t"
  "t_pid (ipc_wake t) = t_pid t"
  by (simp_all add: ipc_wake_def ipc_ok_def inbox_def ring_slots_def)

lemma ipc_put_correct:
  assumes "ipc_ok t" "ipc_count t < 16" "length bytes \<le> 64"
  shows "ipc_ok (ipc_put sender typ bytes t)"
    "inbox (ipc_put sender typ bytes t) = inbox t @ [(sender, typ, bytes)]"
  using assms ipc_fill_ok[OF assms(1,3)]
  by (simp_all add: ipc_put_def ipc_advance_ok inbox_advance inbox_fill ipc_fill_head)

lemma ipc_drop_correct:
  assumes "ipc_ok t" "ipc_count t \<noteq> 0"
  shows "ipc_ok (ipc_drop t)" "inbox t = msg_view (ipc_head_msg t) # inbox (ipc_drop t)"
proof -
  obtain n where n: "unat (ipc_count t) = Suc n"
    using assms(2) by (metis not0_implies_Suc unat_eq_zero)
  have c: "unat (ipc_count t - 1) = n"
    using n assms(2) by (simp add: unat_minus_one)
  have tail: "unat ((ipc_tail t + 1) mod 16) = (unat (ipc_tail t) + 1) mod 16"
    using assms(1) by (intro ring_index) (simp add: ipc_ok_def)
  show "ipc_ok (ipc_drop t)"
    using assms c n tail
    by (simp add: ipc_ok_def ipc_drop_def word_less_nat_alt word_le_nat_alt unat_mod mod_simps)
  have "[0..<Suc n] = 0 # map Suc [0..<n]"
    by (simp add: upt_conv_Cons map_Suc_upt del: upt_Suc)
  then show "inbox t = msg_view (ipc_head_msg t) # inbox (ipc_drop t)"
    using ipc_ok_bounds(2)[OF assms(1)] c n tail
    by (simp add: inbox_def ring_slots_def ipc_drop_def ipc_head_msg_def mod_simps o_def del: upt_Suc)
qed

lemma ipc_init_ok:
  assumes "length (ipc_queue t) = 16" "\<forall>m \<in> set (ipc_queue t). length (msg_data m) = 64 \<and> msg_length m \<le> 64"
  shows "ipc_ok (ipc_init_task t)" "inbox (ipc_init_task t) = []"
  using assms by (simp_all add: ipc_init_task_def ipc_ok_def inbox_def ring_slots_def)

section \<open>The queue contract\<close>

text \<open>
  A bounded first-in first-out queue: what a client of the message queue may rely on.
  \<open>valid\<close> says which messages fit in a slot.
\<close>

datatype 'm queue_op = Enq 'm | Deq

text \<open>Run a sequence of operations; the result lists what was received, oldest first.\<close>

fun queue_run ::
  "('m \<Rightarrow> 'q \<Rightarrow> 'q option) \<Rightarrow> ('q \<Rightarrow> ('m \<times> 'q) option) \<Rightarrow> 'm queue_op list \<Rightarrow> 'q \<Rightarrow> 'm list \<times> 'q"
where
  "queue_run enq deq [] q = ([], q)"
| "queue_run enq deq (Enq m # ops) q =
     queue_run enq deq ops (case enq m q of None \<Rightarrow> q | Some q' \<Rightarrow> q')"
| "queue_run enq deq (Deq # ops) q =
     (case deq q of
        None \<Rightarrow> queue_run enq deq ops q
      | Some (m, q') \<Rightarrow> let (ms, q'') = queue_run enq deq ops q' in (m # ms, q''))"

text \<open>The specification: the same operations on a list of at most \<open>n\<close> messages.\<close>

definition list_enq :: "nat \<Rightarrow> 'm \<Rightarrow> 'm list \<Rightarrow> 'm list option" where
  "list_enq n m xs = (if n \<le> length xs then None else Some (xs @ [m]))"

fun list_deq :: "'m list \<Rightarrow> ('m \<times> 'm list) option" where
  "list_deq [] = None"
| "list_deq (m # xs) = Some (m, xs)"

locale bounded_fifo =
  fixes enq :: "'m \<Rightarrow> 'q \<Rightarrow> 'q option"
    and deq :: "'q \<Rightarrow> ('m \<times> 'q) option"
    and contents :: "'q \<Rightarrow> 'm list"
    and ok :: "'q \<Rightarrow> bool"
    and valid :: "'m \<Rightarrow> bool"
    and cap :: nat
  assumes enq_law: "ok q \<Longrightarrow> valid m \<Longrightarrow>
      (case enq m q of None \<Rightarrow> cap \<le> length (contents q)
       | Some q' \<Rightarrow> length (contents q) < cap \<and> ok q' \<and> contents q' = contents q @ [m])"
    and deq_law: "ok q \<Longrightarrow>
      (case deq q of None \<Rightarrow> contents q = []
       | Some (m, q') \<Rightarrow> ok q' \<and> contents q = m # contents q')"
begin

lemma enq_abs:
  "ok q \<Longrightarrow> valid m \<Longrightarrow> map_option contents (enq m q) = list_enq cap m (contents q)"
  using enq_law[of q m] by (auto simp: list_enq_def split: option.splits)

lemma deq_abs:
  "ok q \<Longrightarrow> map_option (\<lambda>(m, q'). (m, contents q')) (deq q) = list_deq (contents q)"
  using deq_law[of q] by (auto split: option.splits)

lemma keeps_ok:
  "ok q \<Longrightarrow> valid m \<Longrightarrow> enq m q = Some q' \<Longrightarrow> ok q'"
  "ok q \<Longrightarrow> deq q = Some (m, q') \<Longrightarrow> ok q'"
  using enq_law[of q m] deq_law[of q] by auto

text \<open>Every run on the implementation is the run on the list.\<close>

lemma run_refines:
  assumes "ok q" "\<forall>m. Enq m \<in> set ops \<longrightarrow> valid m"
  shows "ok (snd (queue_run enq deq ops q))
    \<and> map_prod id contents (queue_run enq deq ops q) =
        queue_run (list_enq cap) list_deq ops (contents q)"
  using assms
proof (induction ops arbitrary: q)
  case Nil
  then show ?case by simp
next
  case (Cons op ops)
  show ?case
  proof (cases op)
    case (Enq m)
    have valid: "valid m" "\<forall>m. Enq m \<in> set ops \<longrightarrow> valid m"
      using Cons.prems(2) Enq by auto
    show ?thesis
      using Cons.IH Cons.prems(1) valid enq_abs[OF Cons.prems(1) valid(1)]
        keeps_ok(1)[OF Cons.prems(1) valid(1)] Enq
      by (cases "enq m q") (auto split: option.splits)
  next
    case Deq
    have valid: "\<forall>m. Enq m \<in> set ops \<longrightarrow> valid m"
      using Cons.prems(2) by auto
    show ?thesis
    proof (cases "deq q")
      case None
      then show ?thesis
        using Cons.IH[OF Cons.prems(1) valid] Deq deq_abs[OF Cons.prems(1)] by simp
    next
      case (Some r)
      then obtain m q' where r: "deq q = Some (m, q')" by (cases r) auto
      have q': "ok q'" using keeps_ok(2)[OF Cons.prems(1) r] .
      have "list_deq (contents q) = Some (m, contents q')"
        using deq_abs[OF Cons.prems(1)] r by simp
      then show ?thesis
        using Cons.IH[OF q' valid] r Deq
        by (cases "queue_run enq deq ops q'"; cases "queue_run (list_enq cap) list_deq ops (contents q')") auto
    qed
  qed
qed

end

definition ipc_enqueue :: "message \<Rightarrow> task \<Rightarrow> task option" where
  "ipc_enqueue m t =
     (if ipc_count t \<ge> IPC_QUEUE_SIZE then None
      else case m of (sender, typ, bytes) \<Rightarrow> Some (ipc_put sender typ bytes t))"

definition ipc_dequeue :: "task \<Rightarrow> (message \<times> task) option" where
  "ipc_dequeue t = (if ipc_count t = 0 then None else Some (msg_view (ipc_head_msg t), ipc_drop t))"

interpretation ring: bounded_fifo ipc_enqueue ipc_dequeue inbox ipc_ok "\<lambda>(_, _, bytes). length bytes \<le> 64" 16
proof
  fix q and m :: message
  assume a: "ipc_ok q" "case m of (_, _, bytes) \<Rightarrow> length bytes \<le> 64"
  show "case ipc_enqueue m q of None \<Rightarrow> 16 \<le> length (inbox q)
      | Some q' \<Rightarrow> length (inbox q) < 16 \<and> ipc_ok q' \<and> inbox q' = inbox q @ [m]"
    using a ipc_put_correct[OF a(1)]
    by (auto simp: ipc_enqueue_def word_le_nat_alt word_less_nat_alt not_le split: prod.splits)
next
  fix q
  assume "ipc_ok q"
  then show "case ipc_dequeue q of None \<Rightarrow> inbox q = []
      | Some (m, q') \<Rightarrow> ipc_ok q' \<and> inbox q = m # inbox q'"
    using ipc_drop_correct[of q] by (auto simp: ipc_dequeue_def inbox_def ring_slots_def)
qed

section \<open>Properties\<close>

text \<open>
  C2: the ring buffer implements a queue of capacity 16: for any sequence of sends (of at
  most 64 bytes each) and receives, from any well-formed ring, the messages received and the
  messages left are those of a list of at most 16 messages on which a send to a full
  queue and a receive from an empty one do nothing, and the ring stays well formed.
\<close>

theorem ring_refines_queue:
  assumes "ipc_ok t" "\<forall>sender typ bytes. Enq (sender, typ, bytes) \<in> set ops \<longrightarrow> length bytes \<le> 64"
  shows "ipc_ok (snd (queue_run ipc_enqueue ipc_dequeue ops t))
    \<and> map_prod id inbox (queue_run ipc_enqueue ipc_dequeue ops t) =
        queue_run (list_enq 16) list_deq ops (inbox t)"
  using assms by (intro ring.run_refines) auto

lemma zero_task_ok: "ipc_ok zero_task" "inbox zero_task = []"
  by (simp_all add: zero_task_def zero_msg_def ipc_ok_def inbox_def ring_slots_def)

theorem ring_refines_queue_witness:
  "fst (queue_run ipc_enqueue ipc_dequeue [Enq (1, 2, [3]), Enq (4, 5, []), Deq, Deq, Deq] zero_task)
     = [(1, 2, [3]), (4, 5, [])]"
proof -
  let ?ops = "[Enq (1, 2, [3]), Enq (4, 5, []), Deq, Deq, Deq] :: message queue_op list"
  have "map_prod id inbox (queue_run ipc_enqueue ipc_dequeue ?ops zero_task) =
      queue_run (list_enq 16) list_deq ?ops []"
    using ring_refines_queue[of zero_task ?ops] zero_task_ok by auto
  also have "\<dots> = ([(1, 2, [3]), (4, 5, [])], [])"
    by (simp add: list_enq_def)
  finally show ?thesis by (simp add: map_prod_def split_beta)
qed

text \<open>
  C40: a system call runs with interrupts enabled (the gate of vector 0x80 is a trap gate), so
  the keyboard interrupt can arrive after \<^verbatim>\<open>sys_send\<close> has filled the head slot of a task
  and before it advances the head. Then the message being sent is overwritten: the receiver
  gets the scan code and, in place of the message, whatever the following slot held before.
\<close>

theorem send_interrupted_by_keyboard:
  assumes "ipc_ok t" "ipc_count t < 15" "length bytes \<le> 64"
  shows "inbox (ipc_advance (ipc_put 0 0 [sc] (ipc_fill sender typ bytes t))) =
    inbox t @ [(0, 0, [sc]), msg_view (ipc_queue t ! ((unat (ipc_head t) + 1) mod 16))]"
proof -
  let ?u = "ipc_put 0 0 [sc] (ipc_fill sender typ bytes t)"
  have c: "ipc_count t < 16" using assms(2) by (simp add: word_less_nat_alt)
  have u: "ipc_ok ?u" "inbox ?u = inbox t @ [(0, 0, [sc])]"
    using ipc_put_correct[of "ipc_fill sender typ bytes t" "[sc]" 0 0] ipc_fill_ok[OF assms(1,3)] c
    by (simp_all add: inbox_fill[OF assms(1) c])
  have count: "ipc_count ?u < 16"
    using assms(2)
    by (simp add: ipc_put_def ipc_advance_def word_less_nat_alt unat_word_ariths)
  have head: "unat (ipc_head ?u) = (unat (ipc_head t) + 1) mod 16"
    using assms(1) ring_index[of "ipc_head t"]
    by (simp add: ipc_put_def ipc_wake_def ipc_advance_def ipc_ok_def)
  have "(unat (ipc_head t) + 1) mod 16 \<noteq> unat (ipc_head t)"
    using ipc_ok_bounds(1)[OF assms(1)] ring_distance[of 0 1 16 "unat (ipc_head t)"] by auto
  then have "ipc_queue ?u ! unat (ipc_head ?u) = ipc_queue t ! ((unat (ipc_head t) + 1) mod 16)"
    unfolding head by (simp add: ipc_put_def ipc_wake_def ipc_advance_def ipc_fill_other)
  then show ?thesis using inbox_advance[OF u(1) count] u(2) by simp
qed

theorem send_interrupted_by_keyboard_witness:
  "inbox (ipc_advance (ipc_put 0 0 [0x1E] (ipc_fill 3 7 [1, 2] zero_task))) = [(0, 0, [0x1E]), (0, 0, [])]"
  using send_interrupted_by_keyboard[of zero_task "[1, 2]" "0x1E" 3 7] zero_task_ok
  by (simp add: zero_task_def zero_msg_def msg_view_def)

end
