(* ===== verification/Kernel_State.thy ===== *)
theory Kernel_State
  imports Address_Spaces Ipc
begin

text \<open>
  The kernel's global state: the task table and counters of \<^verbatim>\<open>kernel/task.c\<close> and the
  interrupt tables of \<^verbatim>\<open>kernel/idt.c\<close>, on top of the paging state; and the accesses the
  kernel makes through pointers that come from user code, which go through the page tables
  of the current address space byte by byte and fault where nothing is mapped.
  A C \<^verbatim>\<open>int\<close> that only counts (\<^verbatim>\<open>num_tasks\<close>, \<^verbatim>\<open>num_futex_waiters\<close>) is a \<open>nat\<close>; task
  indices, which can be negative, are \<open>int\<close>.
\<close>

section \<open>State\<close>

abbreviation MAX_TASKS :: nat where "MAX_TASKS \<equiv> 64"
abbreviation MAX_FUTEX_WAITERS :: nat where "MAX_FUTEX_WAITERS \<equiv> 128"
abbreviation HEAP_START :: u64 where "HEAP_START \<equiv> 0x600000"

record idt_entry =
  offset_0 :: u16
  selector :: u16
  ist :: u8
  gate_flags :: u8
  offset_1 :: u16
  offset_2 :: u32
  gate_reserved :: u32

record kstate = paging_state +
  tasks :: "task list"
  current_task :: int
  num_tasks :: nat
  next_pid :: u32
  heap_brk :: u64
  futex_waiters :: "(u64 \<times> int) list"
  num_futex_waiters :: nat
  ticks :: u64
  irq_handlers :: "int list"
  idt :: "idt_entry list"
  idtr_limit :: u16

text \<open>\<^verbatim>\<open>tasks[i]\<close> read and updated.\<close>

abbreviation task_at :: "kstate \<Rightarrow> nat \<Rightarrow> task" where
  "task_at s i \<equiv> tasks s ! i"

definition upd_task :: "nat \<Rightarrow> (task \<Rightarrow> task) \<Rightarrow> kstate \<Rightarrow> kstate" where
  "upd_task i f s = s\<lparr>tasks := (tasks s)[i := f (tasks s ! i)]\<rparr>"

definition set_state :: "nat \<Rightarrow> task_state \<Rightarrow> kstate \<Rightarrow> kstate" where
  "set_state i st = upd_task i (\<lambda>t. t\<lparr>t_state := st\<rparr>)"

text \<open>
  The index \<open>current_task\<close>, for the accesses \<^verbatim>\<open>tasks[current_task]\<close> that no test of
  \<^verbatim>\<open>current_task < 0\<close> precedes.
\<close>

definition current_index :: "kstate \<Rightarrow> nat res" where
  "current_index s =
     (if 0 \<le> current_task s \<and> current_task s < int MAX_TASKS then Inr (nat (current_task s))
      else Inl Undefined)"

text \<open>The first index below \<open>num_tasks\<close> whose descriptor satisfies \<open>p\<close>.\<close>

definition find_task :: "(nat \<Rightarrow> task \<Rightarrow> bool) \<Rightarrow> kstate \<Rightarrow> nat option" where
  "find_task p s = List.find (\<lambda>i. p i (tasks s ! i)) [0..<num_tasks s]"

lemma find_task_Some:
  assumes "find_task p s = Some i"
  shows "i < num_tasks s" "p i (tasks s ! i)" "\<And>j. j < i \<Longrightarrow> \<not> p j (tasks s ! j)"
  using assms by (auto simp: find_task_def find_Some_iff)

lemma find_task_None:
  "find_task p s = None \<longleftrightarrow> (\<forall>i < num_tasks s. \<not> p i (tasks s ! i))"
  by (auto simp: find_task_def find_None_iff)

section \<open>Access through user pointers\<close>

definition canonical :: "u64 \<Rightarrow> bool" where
  "canonical va \<longleftrightarrow> drop_bit 47 va = 0 \<or> drop_bit 47 va = 0x1FFFF"

definition translate :: "'a paging_state_scheme \<Rightarrow> u64 \<Rightarrow> u64 res" where
  "translate s va =
     (case (if canonical va then mmu_walk (mem s) (cr3 s) va else None) of
        None \<Rightarrow> Inl (Page_Fault va)
      | Some pa \<Rightarrow> Inr pa)"

primrec vread :: "nat \<Rightarrow> u64 \<Rightarrow> 'a paging_state_scheme \<Rightarrow> u8 list res" where
  "vread 0 va s = Inr []"
| "vread (Suc n) va s =
     bind_res (translate s va) (\<lambda>pa.
     bind_res (vread n (va + 1) s) (\<lambda>bs. Inr (mem s pa # bs)))"

primrec vwrite :: "u8 list \<Rightarrow> u64 \<Rightarrow> 'a paging_state_scheme \<Rightarrow> 'a paging_state_scheme res" where
  "vwrite [] va s = Inr s"
| "vwrite (b # bs) va s =
     bind_res (translate s va) (\<lambda>pa. vwrite bs (va + 1) (s\<lparr>mem := (mem s)(pa := b)\<rparr>))"

definition vread32 :: "u64 \<Rightarrow> 'a paging_state_scheme \<Rightarrow> u32 res" where
  "vread32 va s = bind_res (vread 4 va s) (\<lambda>bs. Inr (le_word bs))"

definition vread64 :: "u64 \<Rightarrow> 'a paging_state_scheme \<Rightarrow> u64 res" where
  "vread64 va s = bind_res (vread 8 va s) (\<lambda>bs. Inr (le_word bs))"

definition vwrite64 :: "u64 \<Rightarrow> u64 \<Rightarrow> 'a paging_state_scheme \<Rightarrow> 'a paging_state_scheme res" where
  "vwrite64 va v s = vwrite (le_bytes 8 v) va s"

text \<open>An access changes nothing but memory.\<close>

lemma vwrite_mem:
  "vwrite bs va s = Inr t \<Longrightarrow> \<exists>m. t = s\<lparr>mem := m\<rparr>"
proof (induction bs arbitrary: va s)
  case Nil
  then show ?case by (auto intro: exI[of _ "mem s"])
next
  case (Cons b bs)
  then obtain pa where "vwrite bs (va + 1) (s\<lparr>mem := (mem s)(pa := b)\<rparr>) = Inr t"
    by (auto simp: bind_res_Inr)
  from Cons.IH[OF this] show ?case by auto
qed

lemma vread_length: "vread n va s = Inr bs \<Longrightarrow> length bs = n"
  by (induction n arbitrary: va bs) (auto simp: bind_res_Inr)

section \<open>Well-formed kernel states\<close>

text \<open>
  What every operation keeps: the arrays have their sizes, counters and indices are in
  range, the message rings are well formed, and the address-space root the kernel remembers
  is the one the processor uses.
\<close>

definition task_ok :: "task \<Rightarrow> bool" where
  "task_ok t \<longleftrightarrow> ipc_ok t \<and> wait_idx t < int MAX_TASKS"

definition kernel_ok :: "kstate \<Rightarrow> bool" where
  "kernel_ok s \<longleftrightarrow>
     length (tasks s) = MAX_TASKS \<and> num_tasks s \<le> MAX_TASKS \<and> (\<forall>t \<in> set (tasks s). task_ok t)
     \<and> - 1 \<le> current_task s \<and> current_task s < int MAX_TASKS
     \<and> length (futex_waiters s) = MAX_FUTEX_WAITERS \<and> num_futex_waiters s \<le> MAX_FUTEX_WAITERS
     \<and> (\<forall>w \<in> set (futex_waiters s). 0 \<le> snd w \<and> snd w < int MAX_TASKS)
     \<and> length (irq_handlers s) = 16 \<and> (\<forall>h \<in> set (irq_handlers s). - 1 \<le> h \<and> h < int MAX_TASKS)
     \<and> paging_root s = cr3 s"

text \<open>Only the task that owns the processor is marked running.\<close>

definition one_running :: "kstate \<Rightarrow> bool" where
  "one_running s \<longleftrightarrow>
     (\<forall>i < length (tasks s). t_state (tasks s ! i) = TASK_RUNNING \<longrightarrow> int i = current_task s)"

text \<open>
  Process identifiers: distinct, and all handed out from a counter that has not wrapped
  (1 is reserved for \<^verbatim>\<open>init\<close>).
\<close>

definition pids_ok :: "kstate \<Rightarrow> bool" where
  "pids_ok s \<longleftrightarrow>
     (\<forall>i < num_tasks s. \<forall>j < num_tasks s. t_pid (tasks s ! i) = t_pid (tasks s ! j) \<longrightarrow> i = j)
     \<and> (\<forall>i < num_tasks s. t_pid (tasks s ! i) = 1
           \<or> 8 \<le> unat (t_pid (tasks s ! i)) \<and> unat (t_pid (tasks s ! i)) < unat (next_pid s))
     \<and> 8 \<le> unat (next_pid s) \<and> unat (next_pid s) \<le> 8 + num_tasks s"

lemma upd_task_fields [simp, frame_simps]:
  "mem (upd_task i f s) = mem s" "free_stack (upd_task i f s) = free_stack s"
  "paging_root (upd_task i f s) = paging_root s" "cr3 (upd_task i f s) = cr3 s"
  "current_task (upd_task i f s) = current_task s" "num_tasks (upd_task i f s) = num_tasks s"
  "next_pid (upd_task i f s) = next_pid s" "heap_brk (upd_task i f s) = heap_brk s"
  "futex_waiters (upd_task i f s) = futex_waiters s"
  "num_futex_waiters (upd_task i f s) = num_futex_waiters s"
  "ticks (upd_task i f s) = ticks s" "irq_handlers (upd_task i f s) = irq_handlers s"
  "idt (upd_task i f s) = idt s" "length (tasks (upd_task i f s)) = length (tasks s)"
  "io_log (upd_task i f s) = io_log s" "console (upd_task i f s) = console s"
  by (simp_all add: upd_task_def)

lemma upd_task_nth [simp]:
  "i < length (tasks s) \<Longrightarrow> tasks (upd_task i f s) ! j = (if j = i then f (tasks s ! i) else tasks s ! j)"
  by (auto simp: upd_task_def)

lemma set_state_fields [simp, frame_simps]:
  "mem (set_state i st s) = mem s" "free_stack (set_state i st s) = free_stack s"
  "paging_root (set_state i st s) = paging_root s" "cr3 (set_state i st s) = cr3 s"
  "current_task (set_state i st s) = current_task s" "num_tasks (set_state i st s) = num_tasks s"
  "next_pid (set_state i st s) = next_pid s" "heap_brk (set_state i st s) = heap_brk s"
  "futex_waiters (set_state i st s) = futex_waiters s"
  "num_futex_waiters (set_state i st s) = num_futex_waiters s"
  "ticks (set_state i st s) = ticks s" "irq_handlers (set_state i st s) = irq_handlers s"
  "idt (set_state i st s) = idt s" "length (tasks (set_state i st s)) = length (tasks s)"
  "io_log (set_state i st s) = io_log s" "console (set_state i st s) = console s"
  by (simp_all add: set_state_def)

lemma set_state_nth [simp]:
  "i < length (tasks s) \<Longrightarrow>
     tasks (set_state i st s) ! j = (if j = i then (tasks s ! i)\<lparr>t_state := st\<rparr> else tasks s ! j)"
  by (simp add: set_state_def)

lemma kernel_ok_upd_task:
  assumes "kernel_ok s" "i < MAX_TASKS" "task_ok (f (tasks s ! i))"
  shows "kernel_ok (upd_task i f s)"
  using assms set_update_subset_insert[of "tasks s" i]
  by (fastforce simp: kernel_ok_def upd_task_def)

lemma task_ok_simps [simp]:
  "task_ok (t\<lparr>t_state := st\<rparr>) = task_ok t" "task_ok (t\<lparr>t_rsp := v\<rparr>) = task_ok t"
  "task_ok (t\<lparr>stack_phys := v\<rparr>) = task_ok t"
  by (simp_all add: task_ok_def ipc_ok_def)

lemma kernel_ok_task:
  "kernel_ok s \<Longrightarrow> i < MAX_TASKS \<Longrightarrow> task_ok (tasks s ! i)"
  by (simp add: kernel_ok_def)

lemma kernel_ok_set_state:
  "kernel_ok s \<Longrightarrow> i < MAX_TASKS \<Longrightarrow> kernel_ok (set_state i st s)"
  unfolding set_state_def by (rule kernel_ok_upd_task) (simp_all add: kernel_ok_task)

text \<open>The invariants depend on the kernel's own fields only.\<close>

lemma invariants_machine [simp]:
  "kernel_ok (s\<lparr>mem := m\<rparr>) = kernel_ok s" "one_running (s\<lparr>mem := m\<rparr>) = one_running s"
  "pids_ok (s\<lparr>mem := m\<rparr>) = pids_ok s"
  "kernel_ok (kputs str s) = kernel_ok s" "one_running (kputs str s) = one_running s"
  "pids_ok (kputs str s) = pids_ok s"
  "kernel_ok (kputhex v s) = kernel_ok s" "one_running (kputhex v s) = one_running s"
  "pids_ok (kputhex v s) = pids_ok s"
  by (simp_all add: kernel_ok_def one_running_def pids_ok_def kputs_def kputhex_def)

lemma current_index_Inr:
  "current_index s = Inr i \<longleftrightarrow> 0 \<le> current_task s \<and> current_task s < int MAX_TASKS \<and> i = nat (current_task s)"
  by (auto simp: current_index_def)

end
