(* ===== verification/User_Memory.thy ===== *)
theory User_Memory
  imports Kernel_State
begin

text \<open>
  The memory system calls of \<^verbatim>\<open>kernel/task.c\<close>: each switches to an address space, walks
  the pages of a range and switches back.
\<close>

section \<open>Operations\<close>

definition round_up :: "u64 \<Rightarrow> u64 \<Rightarrow> u64" where
  "round_up virt sz = (virt + sz + 4095) AND NOT 0xFFF"

text \<open>Allocate a frame for page \<open>v\<close> and map it; \<open>False\<close>: no frame is free.\<close>

definition map_fresh :: "u64 \<Rightarrow> u64 \<Rightarrow> 'a paging_state_scheme \<Rightarrow> bool \<times> 'a paging_state_scheme" where
  "map_fresh flags v s =
     (let (page, s) = pmm_alloc_page s
      in if page = 0 then (False, s) else (True, map_page v page flags s))"

definition map_pages_at ::
  "u64 \<Rightarrow> u64 \<Rightarrow> u64 \<Rightarrow> u64 \<Rightarrow> 'a paging_state_scheme \<Rightarrow> (int \<times> 'a paging_state_scheme) res" where
  "map_pages_at pml4 virt sz flags s =
     (let old = paging_root s;
          s = paging_switch pml4 s;
          start = virt AND NOT 0xFFF;
          finish = round_up virt sz
      in bind_res (for_pages (map_fresh flags) start finish s)
           (\<lambda>(done, s). Inr (if done then 0 else - 1, paging_switch old s)))"

definition sys_mmap :: "u64 \<Rightarrow> u64 \<Rightarrow> u64 \<Rightarrow> kstate \<Rightarrow> (int \<times> kstate) res" where
  "sys_mmap virt sz flags s =
     (if current_task s < 0 then Inr (- 1, s)
      else
        let pg_flags = PAGE_PRESENT OR PAGE_USER;
            pg_flags = (if flags AND 2 \<noteq> 0 then pg_flags OR PAGE_WRITABLE else pg_flags);
            pg_flags = (if flags AND 4 \<noteq> 0 then pg_flags OR 0 else pg_flags)
        in map_pages_at (pml4_phys (task_at s (nat (current_task s)))) virt sz pg_flags s)"

definition sys_munmap :: "u64 \<Rightarrow> u64 \<Rightarrow> kstate \<Rightarrow> (int \<times> kstate) res" where
  "sys_munmap virt sz s =
     (if current_task s < 0 then Inr (- 1, s)
      else
        let old = paging_root s;
            s = paging_switch (pml4_phys (task_at s (nat (current_task s)))) s;
            start = virt AND NOT 0xFFF;
            finish = round_up virt sz
        in bind_res (for_pages (\<lambda>v s. (True, unmap_page v s)) start finish s)
             (\<lambda>(_, s). Inr (0, paging_switch old s)))"

definition sys_mprotect :: "u64 \<Rightarrow> u64 \<Rightarrow> u64 \<Rightarrow> kstate \<Rightarrow> (int \<times> kstate) res" where
  "sys_mprotect virt sz flags s =
     (if current_task s < 0 then Inr (- 1, s)
      else
        let old = paging_root s;
            s = paging_switch (pml4_phys (task_at s (nat (current_task s)))) s;
            start = virt AND NOT 0xFFF;
            finish = round_up virt sz;
            page_flags = PAGE_PRESENT OR PAGE_USER;
            page_flags = (if flags AND 1 \<noteq> 0 then page_flags OR PAGE_WRITABLE else page_flags)
        in bind_res (for_pages (\<lambda>v s. (True, map_page_flags v page_flags s)) start finish s)
             (\<lambda>(_, s). Inr (0, paging_switch old s)))"

text \<open>The break is one counter for all processes; its previous value is returned as an \<^verbatim>\<open>int\<close>.\<close>

definition sys_brk :: "u64 \<Rightarrow> kstate \<Rightarrow> (int \<times> kstate) res" where
  "sys_brk addr s =
     (if current_task s < 0 then Inr (- 1, s)
      else if addr = 0 then Inr (u64_to_int (heap_brk s), s)
      else
        let old = paging_root s;
            s = paging_switch (pml4_phys (task_at s (nat (current_task s)))) s
        in bind_res
             (if addr > heap_brk s
              then for_pages (map_fresh (PAGE_PRESENT OR PAGE_WRITABLE OR PAGE_USER)) (heap_brk s) addr s
              else Inr (True, s))
             (\<lambda>(done, s).
                if done
                then let s = paging_switch old s; prev = heap_brk s
                     in Inr (u64_to_int prev, s\<lparr>heap_brk := addr\<rparr>)
                else Inr (- 1, paging_switch old s)))"

definition sys_mmap_phys :: "u64 \<Rightarrow> u64 \<Rightarrow> u64 \<Rightarrow> u64 \<Rightarrow> kstate \<Rightarrow> (int \<times> kstate) res" where
  "sys_mmap_phys virt phys sz flags s =
     (if current_task s < 0 then Inr (- 1, s)
      else
        let pg_flags = PAGE_PRESENT OR PAGE_USER;
            pg_flags = (if flags AND 2 \<noteq> 0 then pg_flags OR PAGE_WRITABLE else pg_flags);
            pg_flags = (if flags AND 4 \<noteq> 0 then pg_flags OR 0x10 else pg_flags);
            old = paging_root s;
            s = paging_switch (pml4_phys (task_at s (nat (current_task s)))) s;
            vstart = virt AND NOT 0xFFF;
            vend = round_up virt sz;
            pstart = phys AND NOT 0xFFF
        in bind_res
             (for_pages (\<lambda>v s. (True, map_page v (pstart + (v - vstart)) pg_flags s)) vstart vend s)
             (\<lambda>(_, s). Inr (0, paging_switch old s)))"

text \<open>
  \<^verbatim>\<open>read_pte\<close> follows three levels only: the last entry it reads is the page-directory
  entry, whose frame is that of the page table.
\<close>

definition read_pte :: "memory \<Rightarrow> u64 \<Rightarrow> u64 \<Rightarrow> u64" where
  "read_pte m pml4 virt =
     (let e4 = entry m pml4 (pml4_i virt)
      in if e4 AND 1 = 0 then 0
         else
           let p = e4 AND NOT 0xFFF; pde = entry m p (pdpt_i virt)
           in if pde AND 1 = 0 then 0
              else if pde AND PAGE_PS \<noteq> 0 then (pde AND NOT 0x1FFFFF) OR (virt AND 0x1FFFFF)
              else
                let p = pde AND NOT 0xFFF; pte = entry m p (pdt_i virt)
                in if pte AND 1 = 0 then 0 else (pte AND NOT 0xFFF) OR (virt AND 0xFFF))"

definition free_user_page :: "u64 \<Rightarrow> u64 \<Rightarrow> 'a paging_state_scheme \<Rightarrow> 'a paging_state_scheme" where
  "free_user_page pml4 v s =
     (let phys = read_pte (mem s) pml4 v;
          s = (if phys \<noteq> 0 then pmm_free_page (phys AND NOT 0xFFF) s else s)
      in unmap_page v s)"

definition free_user_range ::
  "u64 \<Rightarrow> u64 \<Rightarrow> u64 \<Rightarrow> 'a paging_state_scheme \<Rightarrow> 'a paging_state_scheme res" where
  "free_user_range pml4 start finish s =
     (let old = paging_root s;
          s = paging_switch pml4 s
      in bind_res (for_pages (\<lambda>v s. (True, free_user_page pml4 v s)) start finish s)
           (\<lambda>(_, s). Inr (paging_switch old s)))"

section \<open>What the operations leave alone\<close>

text \<open>
  Everything the paging layer does keeps the kernel's own fields and the agreement of the
  remembered root with \<^verbatim>\<open>cr3\<close>.
\<close>

definition keeps_kernel :: "'a paging_state_scheme \<Rightarrow> 'a paging_state_scheme \<Rightarrow> bool" where
  "keeps_kernel s t \<longleftrightarrow>
     paging_state.more t = paging_state.more s \<and> paging_root t = paging_root s \<and> cr3 t = cr3 s"

lemma keeps_kernel_refl [simp, intro]: "keeps_kernel s s"
  by (simp add: keeps_kernel_def)

lemma keeps_kernel_trans: "keeps_kernel s t \<Longrightarrow> keeps_kernel t u \<Longrightarrow> keeps_kernel s u"
  by (simp add: keeps_kernel_def)

interpretation kk: step_contract keeps_kernel
  by unfold_locales (simp_all add: keeps_kernel_def)

lemma keeps_kernel_basic [simp, intro]:
  "keeps_kernel s (snd (pmm_alloc_page s))" "keeps_kernel s (pmm_free_page p s)"
  "keeps_kernel s (set_entry t i v s)" "keeps_kernel s (kputs str s)" "keeps_kernel s (kputhex w s)"
  by (simp_all add: keeps_kernel_def pmm_alloc_page_def pmm_free_page_def set_entry_def kputs_def
      kputhex_def Let_def)

lemma keeps_kernel_alloc: "pmm_alloc_page s = (p, t) \<Longrightarrow> keeps_kernel s t"
  using keeps_kernel_basic(1)[of s] by simp

lemma keeps_kernel_ensure: "ensure_table t i attr s = (r, u) \<Longrightarrow> keeps_kernel s u"
  by (auto simp: ensure_table_def Let_def split: prod.splits if_splits
      intro: keeps_kernel_trans dest!: keeps_kernel_alloc)

lemma keeps_kernel_fill: "keeps_kernel s (fill_split pde page s)"
  unfolding fill_split_def by (rule kk.fold_rel) simp

lemma keeps_kernel_split: "split_large v p t i e s = (r, u) \<Longrightarrow> keeps_kernel s u"
  by (auto simp: split_large_def Let_def keeps_kernel_def set_entry_def kputs_def kputhex_def
        keeps_kernel_fill[unfolded keeps_kernel_def]
      split: prod.splits if_splits dest!: keeps_kernel_alloc)

lemma keeps_kernel_map_page [simp, intro]: "keeps_kernel s (map_page v p flags s)"
proof -
  obtain r1 s1 where 1: "ensure_table (paging_root s) (pml4_i v) 3 s = (r1, s1)" by fastforce
  note k1 = keeps_kernel_ensure[OF 1]
  show ?thesis
  proof (cases r1)
    case None
    with 1 k1 show ?thesis by (simp add: map_page_def)
  next
    case (Some pml4e)
    obtain r2 s2 where 2: "ensure_table (pml4e AND NOT 0xFFF) (pdpt_i v) 3 s1 = (r2, s2)" by fastforce
    have k2: "keeps_kernel s s2" using keeps_kernel_trans[OF k1 keeps_kernel_ensure[OF 2]] .
    show ?thesis
      using 1 2 Some k2
      by (auto simp: map_page_def Let_def split: option.splits prod.splits if_splits
          intro: keeps_kernel_trans dest!: keeps_kernel_ensure keeps_kernel_split)
  qed
qed

lemma keeps_kernel_unmap [simp, intro]:
  "keeps_kernel s (unmap_page v s)" "keeps_kernel s (map_page_flags v flags s)"
  by (simp_all add: unmap_page_def map_page_flags_def Let_def)

lemma keeps_kernel_fresh [simp, intro]: "keeps_kernel s (snd (map_fresh flags v s))"
proof -
  obtain p t where a: "pmm_alloc_page s = (p, t)" by fastforce
  show ?thesis
    using keeps_kernel_trans[OF keeps_kernel_alloc[OF a]] keeps_kernel_alloc[OF a] a
    by (simp add: map_fresh_def)
qed

lemma keeps_kernel_free_page [simp, intro]: "keeps_kernel s (free_user_page pml4 v s)"
  by (auto simp: free_user_page_def Let_def intro: keeps_kernel_trans)

text \<open>Hence a switch, such a loop and the switch back keep the kernel state.\<close>

lemma switch_back:
  assumes "keeps_kernel (paging_switch pml4 s) t"
  shows "paging_state.more (paging_switch old t) = paging_state.more s"
    "paging_root (paging_switch old t) = old" "cr3 (paging_switch old t) = old"
  using assms by (simp_all add: keeps_kernel_def paging_switch_def)

lemma kernel_fields_cong:
  fixes s t :: kstate
  assumes "paging_state.more t = paging_state.more s"
  shows "tasks t = tasks s" "current_task t = current_task s" "num_tasks t = num_tasks s"
    "next_pid t = next_pid s" "heap_brk t = heap_brk s" "futex_waiters t = futex_waiters s"
    "num_futex_waiters t = num_futex_waiters s" "ticks t = ticks s" "irq_handlers t = irq_handlers s"
    "idt t = idt s" "idtr_limit t = idtr_limit s"
  using assms by (cases s; cases t; simp)+

text \<open>
  All three invariants at once, and the fact that no operation below touches the task table.
\<close>

definition kernel_inv :: "kstate \<Rightarrow> bool" where
  "kernel_inv s \<longleftrightarrow> kernel_ok s \<and> one_running s \<and> pids_ok s"

lemma kernel_inv_cong:
  fixes s t :: kstate
  assumes "paging_state.more t = paging_state.more s" "paging_root t = cr3 t" "kernel_inv s"
  shows "kernel_inv t"
  using assms(2,3) kernel_fields_cong[OF assms(1)]
  by (simp add: kernel_inv_def kernel_ok_def one_running_def pids_ok_def)

end
