(* ===== verification/Tasks.thy ===== *)
theory Tasks
  imports User_Memory
begin

text \<open>
  Processes and their system calls, \<^verbatim>\<open>kernel/task.c\<close>: messages, waiting, exit and kill,
  threads and futexes. Creation from a binary is in the theory \<open>Elf\<close>, sleeping in the theory
  \<open>Interrupts\<close>. A handler that cannot fail to return has type \<open>kstate \<Rightarrow> int \<times> kstate\<close>; one that
  follows user pointers, loops over pages or indexes \<^verbatim>\<open>tasks[current_task]\<close> without a
  test returns a result of type \<open>res\<close>.
\<close>

section \<open>Start and identity\<close>

definition task_init :: "kstate \<Rightarrow> kstate" where
  "task_init s =
     (let s = kputs (''[kernel] Task system init'' @ crlf) s
      in fold (\<lambda>i. set_state i TASK_EXITED) [0..<MAX_TASKS] s)"

definition sys_getpid :: "kstate \<Rightarrow> u64" where
  "sys_getpid s = (if current_task s < 0 then 0 else t_pid (task_at s (nat (current_task s))))"

definition sys_getticks :: "kstate \<Rightarrow> u64" where
  "sys_getticks s = ticks s"

text \<open>The state in which \<^verbatim>\<open>sys_shutdown\<close> halts for good.\<close>

definition sys_shutdown :: "kstate \<Rightarrow> kstate" where
  "sys_shutdown s = outw 0x604 0x2000 s"

section \<open>Messages\<close>

definition find_live :: "u64 \<Rightarrow> kstate \<Rightarrow> nat option" where
  "find_live pid = find_task (\<lambda>_ t. t_pid t = pid \<and> t_state t \<noteq> TASK_EXITED)"

definition sys_send :: "u64 \<Rightarrow> u64 \<Rightarrow> u64 \<Rightarrow> u64 \<Rightarrow> kstate \<Rightarrow> (int \<times> kstate) res" where
  "sys_send target_pid typ data len s =
     (case find_live target_pid s of
        None \<Rightarrow> Inr (- 1, s)
      | Some target \<Rightarrow>
          let t = task_at s target
          in if ipc_count t \<ge> IPC_QUEUE_SIZE then Inr (- 1, s)
             else
               let sender = (if current_task s < 0 then 0 else t_pid (task_at s (nat (current_task s))));
                   n = (if len > IPC_MAX_DATA then IPC_MAX_DATA else len)
               in bind_res (vread (unat n) data s) (\<lambda>bytes.
                    Inr (0, upd_task target (ipc_put sender typ bytes) s)))"

text \<open>
  \<^verbatim>\<open>ipc_msg_t\<close> is packed: sender at offset 0, type at 8, data at 16, length at 80. The
  stores are in the order of the code.
\<close>

definition sys_recv :: "u64 \<Rightarrow> kstate \<Rightarrow> (int \<times> kstate) res" where
  "sys_recv msg s =
     (if current_task s < 0 then Inr (- 1, s)
      else
        let i = nat (current_task s); t = task_at s i
        in if ipc_count t = 0 then Inr (- 1, s)
           else
             let src = ipc_head_msg t
             in bind_res (vwrite64 msg (sender_pid src) s) (\<lambda>s.
                bind_res (vwrite64 (msg + 8) (msg_type src) s) (\<lambda>s.
                bind_res (vwrite64 (msg + 80) (msg_length src) s) (\<lambda>s.
                bind_res (vwrite (take (unat (msg_length src)) (msg_data src)) (msg + 16) s) (\<lambda>s.
                  Inr (0, upd_task i ipc_drop s))))))"

section \<open>Waiting\<close>

definition sys_wait :: "u64 \<Rightarrow> kstate \<Rightarrow> (int \<times> kstate) res" where
  "sys_wait pid s =
     (case find_task (\<lambda>_ t. t_pid t = pid) s of
        None \<Rightarrow> Inr (- 1, s)
      | Some i \<Rightarrow>
          if t_state (task_at s i) = TASK_EXITED then Inr (0, s)
          else bind_res (current_index s) (\<lambda>c.
            Inr (0, set_state c TASK_BLOCKED (upd_task i (\<lambda>t. t\<lparr>wait_idx := current_task s\<rparr>) s))))"

definition sys_wait_any :: "kstate \<Rightarrow> (int \<times> kstate) res" where
  "sys_wait_any s =
     (case find_task (\<lambda>i t. t_state t = TASK_EXITED \<and> int i \<noteq> current_task s) s of
        Some i \<Rightarrow> Inr (u64_to_int (t_pid (task_at s i)), s)
      | None \<Rightarrow>
          let s = fold (\<lambda>i s. if t_state (task_at s i) \<noteq> TASK_EXITED \<and> int i \<noteq> current_task s
                              then upd_task i (\<lambda>t. t\<lparr>wait_idx := current_task s\<rparr>) s else s)
                    [0..<num_tasks s] s
          in bind_res (current_index s) (\<lambda>c. Inr (0, set_state c TASK_BLOCKED s)))"

text \<open>The numbers of the enumeration \<^verbatim>\<open>task_state_t\<close>.\<close>

fun state_number :: "task_state \<Rightarrow> int" where
  "state_number TASK_EXITED = 0"
| "state_number TASK_READY = 1"
| "state_number TASK_RUNNING = 2"
| "state_number TASK_BLOCKED = 3"

definition sys_getstate :: "u64 \<Rightarrow> kstate \<Rightarrow> int" where
  "sys_getstate pid s =
     (case find_task (\<lambda>_ t. t_pid t = pid) s of
        None \<Rightarrow> - 1
      | Some i \<Rightarrow> state_number (t_state (task_at s i)))"

section \<open>Exit and kill\<close>

definition free_task_memory :: "nat \<Rightarrow> kstate \<Rightarrow> kstate res" where
  "free_task_memory i s =
     (let t = task_at s i
      in if pml4_phys t \<noteq> 0 \<and> code_pages t \<noteq> 0
         then
           bind_res (free_user_range (pml4_phys t) (load_addr t) (load_addr t + code_pages t * 4096) s)
             (\<lambda>s. let stack_top = load_addr t + 0x100000
                  in free_user_range (pml4_phys t) (stack_top - 4 * 4096) stack_top s)
         else Inr s)"

definition sys_exit :: "kstate \<Rightarrow> kstate res" where
  "sys_exit s =
     (if current_task s < 0 then Inr s
      else
        let i = nat (current_task s);
            s = (if wait_idx (task_at s i) \<ge> 0
                 then set_state (nat (wait_idx (task_at s i))) TASK_READY s else s);
            s = (if stack_phys (task_at s i) \<noteq> 0
                 then upd_task i (\<lambda>t. t\<lparr>stack_phys := 0\<rparr>) (pmm_free_page (stack_phys (task_at s i)) s)
                 else s)
        in bind_res (free_task_memory i s) (\<lambda>s.
             let s = set_state i TASK_EXITED s;
                 s = kputs ''[kernel] Process #'' s;
                 s = kputhex (t_pid (task_at s i)) s
             in Inr (kputs ('' exited'' @ crlf) s)))"

definition sys_kill :: "u64 \<Rightarrow> kstate \<Rightarrow> (int \<times> kstate) res" where
  "sys_kill pid s =
     (case find_live pid s of
        None \<Rightarrow> Inr (- 1, s)
      | Some i \<Rightarrow>
          let s = set_state i TASK_EXITED s;
              s = (if stack_phys (task_at s i) \<noteq> 0 then pmm_free_page (stack_phys (task_at s i)) s else s)
          in bind_res (free_task_memory i s) (\<lambda>s. Inr (0, s)))"

section \<open>Threads\<close>

text \<open>\<^verbatim>\<open>*--sp = w\<close> for each word in turn.\<close>

primrec push_words :: "u64 list \<Rightarrow> u64 \<Rightarrow> memory \<Rightarrow> u64 \<times> memory" where
  "push_words [] sp m = (sp, m)"
| "push_words (w # ws) sp m = (let sp = sp - 8 in push_words ws sp (write64 sp w m))"

text \<open>\<^verbatim>\<open>sizeof(registers_t)\<close>: 22 words.\<close>

abbreviation FRAME_SIZE :: u64 where "FRAME_SIZE \<equiv> 176"

definition sys_clone :: "u64 \<Rightarrow> u64 \<Rightarrow> u64 \<Rightarrow> u64 \<Rightarrow> kstate \<Rightarrow> int \<times> kstate" where
  "sys_clone flags user_stack entry_pt arg s =
     (if current_task s < 0 then (- 1, s)
      else if num_tasks s \<ge> MAX_TASKS then (- 1, s)
      else
        let parent = task_at s (nat (current_task s));
            (kstack, s) = pmm_alloc_page s
        in if kstack = 0 then (- 1, s)
           else
             let (sp, m) = push_words ([0x23, user_stack, 0x202, 0x2B, entry_pt] @ replicate 7 0 @ [arg]
                               @ replicate 9 0) (kstack + FRAME_SIZE) (mem s);
                 s = s\<lparr>mem := m\<rparr>;
                 n = num_tasks s;
                 pid = ucast (next_pid s);
                 s = upd_task n (\<lambda>t. ipc_init_task (t\<lparr>t_rsp := sp, t_pid := pid,
                       t_state := TASK_READY, stack_phys := kstack, user_stack_phys := 0,
                       pml4_phys := pml4_phys parent, load_addr := load_addr parent, code_pages := 0,
                       wait_idx := - 1\<rparr>)) (s\<lparr>next_pid := next_pid s + 1\<rparr>);
                 s = s\<lparr>num_tasks := n + 1\<rparr>
             in (u64_to_int pid, s))"

section \<open>Futexes\<close>

function futex_wake_loop :: "u64 \<Rightarrow> int \<Rightarrow> nat \<Rightarrow> int \<Rightarrow> kstate \<Rightarrow> int \<times> kstate" where
  "futex_wake_loop uaddr val i woken s =
     (if i < num_futex_waiters s \<and> woken < val
      then
        if fst (futex_waiters s ! i) = uaddr
        then
          let idx = nat (snd (futex_waiters s ! i));
              blocked = (t_state (task_at s idx) = TASK_BLOCKED);
              s = (if blocked then set_state idx TASK_READY s else s);
              n = num_futex_waiters s - 1;
              s = s\<lparr>num_futex_waiters := n, futex_waiters := (futex_waiters s)[i := futex_waiters s ! n]\<rparr>
          in futex_wake_loop uaddr val i (if blocked then woken + 1 else woken) s
        else futex_wake_loop uaddr val (i + 1) woken s
      else (woken, s))"
  by pat_completeness auto
termination
  by (relation "measure (\<lambda>(uaddr, val, i, woken, s). num_futex_waiters s - i)")
    (auto simp: Let_def)

declare futex_wake_loop.simps [simp del]

definition sys_futex :: "u64 \<Rightarrow> int \<Rightarrow> u32 \<Rightarrow> kstate \<Rightarrow> (int \<times> kstate) res" where
  "sys_futex uaddr op val s =
     (if current_task s < 0 then Inr (- 1, s)
      else if op = 0 then
        bind_res (vread32 uaddr s) (\<lambda>v.
          if v \<noteq> val then Inr (- 1, s)
          else if num_futex_waiters s \<ge> MAX_FUTEX_WAITERS then Inr (- 1, s)
          else
            let n = num_futex_waiters s;
                s = s\<lparr>futex_waiters := (futex_waiters s)[n := (uaddr, current_task s)],
                      num_futex_waiters := n + 1\<rparr>
            in Inr (0, set_state (nat (current_task s)) TASK_BLOCKED s))
      else if op = 1 then Inr (futex_wake_loop uaddr (u32_to_int val) 0 0 s)
      else Inr (- 1, s))"

end
