(* ===== verification/Task_Invariants.thy ===== *)
theory Task_Invariants
  imports Tasks
begin

text \<open>
  Every system call of \<^verbatim>\<open>kernel/task.c\<close> modelled so far keeps the kernel invariant
  \<open>kernel_inv\<close>: array sizes and indices, well-formed message rings, at most the current task
  running, and distinct process identifiers.
\<close>

lemma kernel_inv_bounds:
  assumes "kernel_inv s"
  shows "length (tasks s) = 64" "num_tasks s \<le> 64" "current_task s < 64" "- 1 \<le> current_task s"
    "length (futex_waiters s) = 128" "num_futex_waiters s \<le> 128" "length (irq_handlers s) = 16"
    "paging_root s = cr3 s"
  using assms by (simp_all add: kernel_inv_def kernel_ok_def)

lemma kernel_inv_upd_task:
  assumes "kernel_inv s" "i < 64" "task_ok (f (tasks s ! i))" "t_pid (f (tasks s ! i)) = t_pid (tasks s ! i)"
    and "t_state (f (tasks s ! i)) = TASK_RUNNING \<longrightarrow>
           t_state (tasks s ! i) = TASK_RUNNING \<or> int i = current_task s"
  shows "kernel_inv (upd_task i f s)"
proof -
  have i: "i < length (tasks s)" using assms(1,2) by (simp add: kernel_inv_bounds)
  have "kernel_ok (upd_task i f s)"
    using assms by (intro kernel_ok_upd_task) (simp_all add: kernel_inv_def)
  moreover have "one_running (upd_task i f s)"
    unfolding one_running_def
  proof (intro allI impI)
    fix j
    assume j: "j < length (tasks (upd_task i f s))" "t_state (tasks (upd_task i f s) ! j) = TASK_RUNNING"
    have old: "t_state (tasks s ! j) = TASK_RUNNING \<Longrightarrow> int j = current_task s"
      using assms(1) j(1) by (simp add: kernel_inv_def one_running_def)
    show "int j = current_task (upd_task i f s)"
      using j(2) old assms(5) i by (cases "j = i") auto
  qed
  moreover have pid: "t_pid (tasks (upd_task i f s) ! j) = t_pid (tasks s ! j)" for j
    using assms(4) i by simp
  have "pids_ok (upd_task i f s)"
    using assms(1) unfolding kernel_inv_def pids_ok_def pid upd_task_fields by blast
  ultimately show ?thesis by (simp add: kernel_inv_def)
qed

lemma kernel_inv_task: "kernel_inv s \<Longrightarrow> i < 64 \<Longrightarrow> task_ok (tasks s ! i)"
  by (simp add: kernel_inv_def kernel_ok_task)

lemma find_task_less: "kernel_inv s \<Longrightarrow> find_task p s = Some i \<Longrightarrow> i < 64"
  using find_task_Some(1)[of p s i] kernel_inv_bounds(2)[of s] by linarith

lemma kernel_inv_set_state:
  assumes "kernel_inv s" "i < 64" "st = TASK_RUNNING \<longrightarrow> int i = current_task s"
  shows "kernel_inv (set_state i st s)"
  unfolding set_state_def
  by (rule kernel_inv_upd_task) (use assms in \<open>auto simp: kernel_inv_task\<close>)

lemma kernel_inv_machine [simp]:
  "kernel_inv (s\<lparr>mem := m\<rparr>) = kernel_inv s" "kernel_inv (kputs str s) = kernel_inv s"
  "kernel_inv (kputhex v s) = kernel_inv s"
  by (simp_all add: kernel_inv_def)

lemma kernel_inv_keeps: "keeps_kernel s t \<Longrightarrow> kernel_inv s \<Longrightarrow> kernel_inv t"
  using kernel_inv_cong[of t s] by (simp add: keeps_kernel_def kernel_inv_bounds)

lemma keeps_kernel_fields:
  fixes s t :: kstate
  assumes "keeps_kernel s t"
  shows "tasks t = tasks s" "current_task t = current_task s" "num_tasks t = num_tasks s"
    "next_pid t = next_pid s" "ticks t = ticks s"
  using assms kernel_fields_cong[of t s] by (simp_all add: keeps_kernel_def)

section \<open>Memory system calls\<close>

text \<open>
  Each of them is a switch, a loop of paging operations and the switch back, so it leaves
  the kernel's own fields alone.
\<close>

lemma switched_loop:
  fixes s t :: kstate
  assumes "for_pages body v e (paging_switch pml4 s) = Inr (b, t)"
    and "\<And>v s. keeps_kernel s (snd (body v s))" "paging_root s = cr3 s"
  shows "keeps_kernel s (paging_switch (cr3 s) t)"
  using switch_back[OF kk.for_pages_rel[OF assms(2,1)]] assms(3) by (simp add: keeps_kernel_def)

lemma map_pages_at_keeps:
  fixes s t :: kstate
  assumes "map_pages_at pml4 virt sz flags s = Inr (r, t)" "paging_root s = cr3 s"
  shows "keeps_kernel s t"
  using assms
  by (auto simp: map_pages_at_def Let_def bind_res_Inr intro!: switched_loop)

lemma memory_calls_keep:
  assumes "paging_root s = cr3 s"
  shows "sys_mmap virt sz flags s = Inr (r, t) \<Longrightarrow> keeps_kernel s t"
    and "sys_munmap virt sz s = Inr (r, t) \<Longrightarrow> keeps_kernel s t"
    and "sys_mprotect virt sz flags s = Inr (r, t) \<Longrightarrow> keeps_kernel s t"
    and "sys_mmap_phys virt phys sz flags s = Inr (r, t) \<Longrightarrow> keeps_kernel s t"
  using assms map_pages_at_keeps
  by (auto simp: sys_mmap_def sys_munmap_def sys_mprotect_def sys_mmap_phys_def Let_def bind_res_Inr
      split: if_splits intro!: switched_loop)

lemma sys_brk_keeps:
  assumes "sys_brk addr s = Inr (r, t)" "paging_root s = cr3 s"
  shows "\<exists>b. keeps_kernel (s\<lparr>heap_brk := b\<rparr>) t"
proof (cases "current_task s < 0 \<or> addr = 0")
  case True
  then have "t = s\<lparr>heap_brk := heap_brk s\<rparr>"
    using assms(1) by (auto simp: sys_brk_def split: if_splits)
  then show ?thesis by blast
next
  case False
  let ?s = "paging_switch (pml4_phys (task_at s (nat (current_task s)))) s"
  obtain fin u where run: "(if addr > heap_brk s
        then for_pages (map_fresh 7) (heap_brk s) addr ?s else Inr (True, ?s)) = Inr (fin, u)"
    and t: "t = (if fin then (paging_switch (paging_root s) u)\<lparr>heap_brk := addr\<rparr>
                 else paging_switch (paging_root s) u)"
    using assms(1) False
    by (fastforce simp: sys_brk_def Let_def bind_res_Inr paging_switch_def split: if_splits)
  have "keeps_kernel s (paging_switch (cr3 s) u)"
  proof (cases "addr > heap_brk s")
    case True
    then show ?thesis using run assms(2) by (auto intro: switched_loop)
  next
    case False
    then show ?thesis using run assms(2) by (auto simp: keeps_kernel_def paging_switch_def)
  qed
  then have "keeps_kernel (s\<lparr>heap_brk := if fin then addr else heap_brk s\<rparr>) t"
    using t assms(2) by (cases s; cases "paging_switch (paging_root s) u") (auto simp: keeps_kernel_def)
  then show ?thesis by blast
qed

lemma memory_calls_inv:
  assumes "kernel_inv s"
  shows "sys_mmap virt sz flags s = Inr (r, t) \<Longrightarrow> kernel_inv t"
    and "sys_munmap virt sz s = Inr (r, t) \<Longrightarrow> kernel_inv t"
    and "sys_mprotect virt sz flags s = Inr (r, t) \<Longrightarrow> kernel_inv t"
    and "sys_mmap_phys virt phys sz flags s = Inr (r, t) \<Longrightarrow> kernel_inv t"
    and "sys_brk addr s = Inr (r, t) \<Longrightarrow> kernel_inv t"
proof -
  note root = kernel_inv_bounds(8)[OF assms]
  note keep = memory_calls_keep[OF root, THEN kernel_inv_keeps, OF _ assms]
  show "sys_mmap virt sz flags s = Inr (r, t) \<Longrightarrow> kernel_inv t"
    "sys_munmap virt sz s = Inr (r, t) \<Longrightarrow> kernel_inv t"
    "sys_mprotect virt sz flags s = Inr (r, t) \<Longrightarrow> kernel_inv t"
    "sys_mmap_phys virt phys sz flags s = Inr (r, t) \<Longrightarrow> kernel_inv t"
    by (fact keep)+
  assume "sys_brk addr s = Inr (r, t)"
  then obtain b where "keeps_kernel (s\<lparr>heap_brk := b\<rparr>) t" using sys_brk_keeps root by blast
  moreover have "kernel_inv (s\<lparr>heap_brk := b\<rparr>)"
    using assms by (simp add: kernel_inv_def kernel_ok_def one_running_def pids_ok_def)
  ultimately show "kernel_inv t" by (rule kernel_inv_keeps)
qed

section \<open>Messages and waiting\<close>

lemma ipc_put_fields [simp]:
  "t_pid (ipc_put sender typ bytes t) = t_pid t" "wait_idx (ipc_put sender typ bytes t) = wait_idx t"
  "t_state (ipc_put sender typ bytes t) = (if t_state t = TASK_BLOCKED then TASK_READY else t_state t)"
  by (simp_all add: ipc_put_def ipc_wake_def ipc_advance_def)

lemma kernel_inv_ipc_put:
  assumes "kernel_inv s" "i < 64" "ipc_count (tasks s ! i) < 16" "length bytes \<le> 64"
  shows "kernel_inv (upd_task i (ipc_put sender typ bytes) s)"
  using assms kernel_inv_task[OF assms(1,2)]
  by (intro kernel_inv_upd_task) (auto simp: task_ok_def intro: ipc_put_correct)

lemma message_length:
  "unat (if len > IPC_MAX_DATA then IPC_MAX_DATA else len) \<le> 64"
  by (simp add: word_less_nat_alt)

lemma sys_send_inv:
  assumes "sys_send target typ data len s = Inr (r, t)" "kernel_inv s"
  shows "kernel_inv t"
proof (cases "find_live target s")
  case None
  then show ?thesis using assms by (simp add: sys_send_def)
next
  case (Some i)
  then have i: "i < 64"
    unfolding find_live_def by (rule find_task_less[OF assms(2)])
  show ?thesis
  proof (cases "ipc_count (tasks s ! i) \<ge> 16")
    case True
    then show ?thesis using assms Some by (simp add: sys_send_def Let_def)
  next
    case False
    then obtain sender bytes where "t = upd_task i (ipc_put sender typ bytes) s" "length bytes \<le> 64"
      using assms(1) Some message_length[of len]
      by (auto simp: sys_send_def Let_def bind_res_Inr dest!: vread_length split: if_splits)
    with False show ?thesis using kernel_inv_ipc_put[OF assms(2) i] by simp
  qed
qed

lemma sys_recv_inv:
  assumes "sys_recv msg s = Inr (r, t)" "kernel_inv s"
  shows "kernel_inv t"
proof (cases "current_task s < 0 \<or> ipc_count (tasks s ! nat (current_task s)) = 0")
  case True
  then show ?thesis using assms by (auto simp: sys_recv_def Let_def split: if_splits)
next
  case False
  let ?i = "nat (current_task s)"
  have i: "?i < 64" using kernel_inv_bounds(3)[OF assms(2)] by simp
  obtain m where t: "t = upd_task ?i ipc_drop (s\<lparr>mem := m\<rparr>)"
    using assms(1) False
    by (auto simp: sys_recv_def Let_def bind_res_Inr vwrite64_def dest!: vwrite_mem)
  have "task_ok (ipc_drop (tasks s ! ?i))"
    using kernel_inv_task[OF assms(2) i] False ipc_drop_correct(1)
    by (auto simp: task_ok_def ipc_drop_def)
  then show ?thesis
    unfolding t using assms(2) i by (intro kernel_inv_upd_task) (simp_all add: ipc_drop_def)
qed

lemma task_ok_wait: "task_ok t \<Longrightarrow> c < 64 \<Longrightarrow> task_ok (t\<lparr>wait_idx := c\<rparr>)"
  by (simp add: task_ok_def ipc_ok_def)

lemma kernel_inv_wait_idx:
  assumes "kernel_inv s" "i < 64"
  shows "kernel_inv (upd_task i (\<lambda>t. t\<lparr>wait_idx := current_task s\<rparr>) s)"
  using assms kernel_inv_bounds(3)[OF assms(1)] kernel_inv_task[OF assms]
  by (intro kernel_inv_upd_task) (simp_all add: task_ok_wait)

lemma sys_wait_inv:
  assumes "sys_wait pid s = Inr (r, t)" "kernel_inv s"
  shows "kernel_inv t"
proof (cases "find_task (\<lambda>_ t. t_pid t = pid) s")
  case None
  then show ?thesis using assms by (simp add: sys_wait_def)
next
  case (Some i)
  then have i: "i < 64" by (rule find_task_less[OF assms(2)])
  show ?thesis
    using assms Some kernel_inv_wait_idx[OF assms(2) i]
    by (auto simp: sys_wait_def bind_res_Inr current_index_Inr split: if_splits
        intro!: kernel_inv_set_state)
qed

lemma mark_waiters_inv:
  assumes "kernel_inv s" "set is \<subseteq> {..<64}"
  shows "kernel_inv (fold (\<lambda>i s. if p i s then upd_task i (\<lambda>t. t\<lparr>wait_idx := current_task s\<rparr>) s else s) is s)"
  using assms
proof (induction "is" arbitrary: s)
  case Nil
  then show ?case by simp
next
  case (Cons i "is")
  then show ?case using kernel_inv_wait_idx[of s i] by auto
qed

lemma sys_wait_any_inv:
  assumes "sys_wait_any s = Inr (r, t)" "kernel_inv s"
  shows "kernel_inv t"
proof (cases "find_task (\<lambda>i t. t_state t = TASK_EXITED \<and> int i \<noteq> current_task s) s")
  case (Some i)
  then show ?thesis using assms by (simp add: sys_wait_any_def)
next
  case None
  have "set [0..<num_tasks s] \<subseteq> {..<64}" using kernel_inv_bounds(2)[OF assms(2)] by auto
  then show ?thesis
    using assms None
      mark_waiters_inv[OF assms(2), of "[0..<num_tasks s]"
        "\<lambda>i s. t_state (task_at s i) \<noteq> TASK_EXITED \<and> int i \<noteq> current_task s"]
    by (auto simp: sys_wait_any_def bind_res_Inr current_index_Inr Let_def intro!: kernel_inv_set_state)
qed

section \<open>Exit and kill\<close>

lemma free_user_range_keeps:
  fixes s t :: kstate
  assumes "free_user_range pml4 a b s = Inr t" "paging_root s = cr3 s"
  shows "keeps_kernel s t"
  using assms by (auto simp: free_user_range_def Let_def bind_res_Inr intro!: switched_loop)

lemma free_task_memory_keeps:
  assumes "free_task_memory i s = Inr t" "paging_root s = cr3 s"
  shows "keeps_kernel s t"
proof (cases "pml4_phys (tasks s ! i) \<noteq> 0 \<and> code_pages (tasks s ! i) \<noteq> 0")
  case True
  then obtain a b c d p u where u: "free_user_range p a b s = Inr u" "free_user_range p c d u = Inr t"
    using assms(1) by (auto simp: free_task_memory_def Let_def bind_res_Inr)
  have k: "keeps_kernel s u" using free_user_range_keeps[OF u(1) assms(2)] .
  then have "paging_root u = cr3 u" using assms(2) by (simp add: keeps_kernel_def)
  then show ?thesis using keeps_kernel_trans[OF k free_user_range_keeps[OF u(2)]] by blast
next
  case False
  then show ?thesis using assms(1) by (auto simp: free_task_memory_def Let_def)
qed

lemma kernel_inv_free_page [simp]: "kernel_inv s \<Longrightarrow> kernel_inv (pmm_free_page p s)"
  by (rule kernel_inv_keeps[OF keeps_kernel_basic(2)])

lemma kernel_inv_stack_phys:
  assumes "kernel_inv s" "i < 64"
  shows "kernel_inv (upd_task i (\<lambda>t. t\<lparr>stack_phys := v\<rparr>) s)"
  using assms kernel_inv_task[OF assms] by (intro kernel_inv_upd_task) simp_all

lemma pmm_free_page_kernel [simp]:
  fixes s :: kstate
  shows "tasks (pmm_free_page p s) = tasks s" "current_task (pmm_free_page p s) = current_task s"
    "num_tasks (pmm_free_page p s) = num_tasks s" "paging_root (pmm_free_page p s) = paging_root s"
    "cr3 (pmm_free_page p s) = cr3 s"
  by (simp_all add: pmm_free_page_def)

text \<open>The state of \<^verbatim>\<open>sys_exit\<close> before it frees the process's memory.\<close>

definition exit_prefix :: "kstate \<Rightarrow> kstate" where
  "exit_prefix s =
     (let i = nat (current_task s);
          s = (if wait_idx (task_at s i) \<ge> 0
               then set_state (nat (wait_idx (task_at s i))) TASK_READY s else s)
      in (if stack_phys (task_at s i) \<noteq> 0
          then upd_task i (\<lambda>t. t\<lparr>stack_phys := 0\<rparr>) (pmm_free_page (stack_phys (task_at s i)) s)
          else s))"

lemma sys_exit_split:
  assumes "0 \<le> current_task s"
  shows "sys_exit s = bind_res (free_task_memory (nat (current_task s)) (exit_prefix s)) (\<lambda>u.
    let i = nat (current_task s); u = set_state i TASK_EXITED u;
        u = kputs ''[kernel] Process #'' u; u = kputhex (t_pid (task_at u i)) u
    in Inr (kputs ('' exited'' @ crlf) u))"
  using assms by (simp add: sys_exit_def exit_prefix_def Let_def)

lemma exit_prefix_inv:
  assumes "kernel_inv s" "0 \<le> current_task s"
  shows "kernel_inv (exit_prefix s)"
proof -
  let ?i = "nat (current_task s)"
  have i: "?i < 64" using kernel_inv_bounds(3)[OF assms(1)] assms(2) by simp
  have w: "wait_idx (tasks s ! ?i) < 64"
    using kernel_inv_task[OF assms(1) i] by (simp add: task_ok_def)
  define u where "u = (if wait_idx (tasks s ! ?i) \<ge> 0
      then set_state (nat (wait_idx (tasks s ! ?i))) TASK_READY s else s)"
  have "kernel_inv u"
    using assms(1) w by (auto simp: u_def intro!: kernel_inv_set_state)
  then have "kernel_inv (upd_task ?i (\<lambda>t. t\<lparr>stack_phys := 0\<rparr>) (pmm_free_page p u))" for p
    using i by (intro kernel_inv_stack_phys) simp_all
  with \<open>kernel_inv u\<close> show ?thesis
    by (simp add: exit_prefix_def Let_def u_def[symmetric])
qed

lemma exit_prefix_fields [simp]:
  "current_task (exit_prefix s) = current_task s" "num_tasks (exit_prefix s) = num_tasks s"
  by (simp_all add: exit_prefix_def Let_def)

lemma sys_exit_inv:
  assumes "sys_exit s = Inr t" "kernel_inv s"
  shows "kernel_inv t"
proof (cases "current_task s < 0")
  case True
  then show ?thesis using assms by (simp add: sys_exit_def)
next
  case False
  let ?i = "nat (current_task s)"
  have i: "?i < 64" using kernel_inv_bounds(3)[OF assms(2)] False by simp
  have p: "kernel_inv (exit_prefix s)" using exit_prefix_inv[OF assms(2)] False by simp
  obtain u where u: "free_task_memory ?i (exit_prefix s) = Inr u"
    and t: "t = kputs ('' exited'' @ crlf) (kputhex (t_pid (task_at (kputs ''[kernel] Process #''
              (set_state ?i TASK_EXITED u)) ?i)) (kputs ''[kernel] Process #'' (set_state ?i TASK_EXITED u)))"
    using assms(1) False by (auto simp: sys_exit_split Let_def bind_res_Inr)
  have "kernel_inv u"
    using kernel_inv_keeps[OF free_task_memory_keeps[OF u] p] kernel_inv_bounds(8)[OF p] by simp
  then show ?thesis unfolding t using i by (simp add: kernel_inv_set_state)
qed

lemma sys_exit_current:
  assumes "sys_exit s = Inr t" "kernel_inv s" "0 \<le> current_task s"
  shows "current_task t = current_task s" "t_state (task_at t (nat (current_task s))) = TASK_EXITED"
    "num_tasks t = num_tasks s"
proof -
  let ?i = "nat (current_task s)"
  have i: "?i < 64" using kernel_inv_bounds(3)[OF assms(2)] assms(3) by simp
  have p: "kernel_inv (exit_prefix s)" using exit_prefix_inv[OF assms(2,3)] .
  obtain u where u: "free_task_memory ?i (exit_prefix s) = Inr u"
    and t: "tasks t = tasks (set_state ?i TASK_EXITED u)" "current_task t = current_task u"
      "num_tasks t = num_tasks u"
    using assms(1,3) by (auto simp: sys_exit_split Let_def bind_res_Inr kputs_def kputhex_def)
  note k = free_task_memory_keeps[OF u kernel_inv_bounds(8)[OF p]]
  show "current_task t = current_task s" "num_tasks t = num_tasks s"
    using t keeps_kernel_fields[OF k] by simp_all
  have "?i < length (tasks u)" using i keeps_kernel_fields(1)[OF k] kernel_inv_bounds(1)[OF p] by simp
  then show "t_state (task_at t ?i) = TASK_EXITED" using t by simp
qed

lemma exit_prefix_stack:
  assumes "kernel_inv s" "0 \<le> current_task s"
  shows "stack_phys (task_at (exit_prefix s) (nat (current_task s))) = 0"
proof -
  let ?i = "nat (current_task s)"
  have "?i < length (tasks s)" using kernel_inv_bounds(1,3)[OF assms(1)] assms(2) by simp
  then show ?thesis by (simp add: exit_prefix_def Let_def)
qed

lemma sys_exit_stack:
  assumes "sys_exit s = Inr t" "kernel_inv s" "0 \<le> current_task s"
  shows "stack_phys (task_at t (nat (current_task s))) = 0"
proof -
  let ?i = "nat (current_task s)"
  have i: "?i < 64" using kernel_inv_bounds(3)[OF assms(2)] assms(3) by simp
  have p: "kernel_inv (exit_prefix s)" using exit_prefix_inv[OF assms(2,3)] .
  obtain u where u: "free_task_memory ?i (exit_prefix s) = Inr u"
    and t: "tasks t = tasks (set_state ?i TASK_EXITED u)"
    using assms(1,3) by (auto simp: sys_exit_split Let_def bind_res_Inr kputs_def kputhex_def)
  have "tasks u = tasks (exit_prefix s)"
    using keeps_kernel_fields(1)[OF free_task_memory_keeps[OF u kernel_inv_bounds(8)[OF p]]] .
  moreover have "?i < length (tasks u)" using i kernel_inv_bounds(1)[OF p] calculation by simp
  ultimately show ?thesis using t exit_prefix_stack[OF assms(2,3)] by simp
qed

lemma sys_kill_inv:
  assumes "sys_kill pid s = Inr (r, t)" "kernel_inv s"
  shows "kernel_inv t"
proof (cases "find_live pid s")
  case None
  then show ?thesis using assms by (simp add: sys_kill_def)
next
  case (Some i)
  then have i: "i < 64"
    unfolding find_live_def by (rule find_task_less[OF assms(2)])
  define u where "u = (let s = set_state i TASK_EXITED s
     in if stack_phys (task_at s i) \<noteq> 0 then pmm_free_page (stack_phys (task_at s i)) s else s)"
  have "kernel_inv u"
    using kernel_inv_set_state[OF assms(2) i, of TASK_EXITED] by (simp add: u_def Let_def)
  moreover have "free_task_memory i u = Inr t"
    using assms(1) Some by (auto simp: sys_kill_def u_def Let_def bind_res_Inr)
  ultimately show ?thesis
    using kernel_inv_keeps[OF free_task_memory_keeps] kernel_inv_bounds(8) by blast
qed

section \<open>Threads and futexes\<close>

text \<open>
  Adding a descriptor at the end of the table with the next process identifier.
\<close>

definition fresh_task :: "u64 \<Rightarrow> task \<Rightarrow> bool" where
  "fresh_task pid t \<longleftrightarrow> task_ok t \<and> t_pid t = pid \<and> t_state t = TASK_READY"

lemma pid_counter:
  assumes "pids_ok s" "num_tasks s < 64"
  shows "unat (next_pid s + 1) = unat (next_pid s) + 1" "unat (ucast (next_pid s) :: u64) = unat (next_pid s)"
  using assms by (simp_all add: pids_ok_def unat_word_ariths unat_ucast_u32)

definition pid_available :: "u64 \<Rightarrow> u32 \<Rightarrow> kstate \<Rightarrow> bool" where
  "pid_available pid np s \<longleftrightarrow>
     (\<forall>i < num_tasks s. t_pid (tasks s ! i) \<noteq> pid)
     \<and> (pid = 1 \<or> 8 \<le> unat pid \<and> unat pid < unat np)
     \<and> unat (next_pid s) \<le> unat np \<and> unat np \<le> 9 + num_tasks s"

lemma pid_available_next:
  assumes "pids_ok s" "num_tasks s < 64"
  shows "pid_available (ucast (next_pid s)) (next_pid s + 1) s"
proof -
  note cnt = pid_counter[OF assms]
  have "t_pid (tasks s ! i) \<noteq> ucast (next_pid s)" if "i < num_tasks s" for i
    using assms(1) that cnt(2) by (auto simp: pids_ok_def)
  then show ?thesis using assms(1) cnt by (auto simp: pid_available_def pids_ok_def)
qed

lemma pid_available_init:
  assumes "pids_ok s" "\<forall>i < num_tasks s. t_pid (tasks s ! i) \<noteq> 1"
  shows "pid_available 1 (next_pid s) s"
  using assms by (auto simp: pid_available_def pids_ok_def)

lemma kernel_inv_add_task:
  assumes "kernel_inv s" "num_tasks s < 64" "pid_available pid np s"
    and "fresh_task pid (f (tasks s ! num_tasks s))"
  shows "kernel_inv ((upd_task (num_tasks s) f (s\<lparr>next_pid := np\<rparr>))\<lparr>num_tasks := num_tasks s + 1\<rparr>)"
    (is "kernel_inv ?t")
proof -
  let ?n = "num_tasks s"
  have n: "?n < length (tasks s)" using assms(1,2) by (simp add: kernel_inv_bounds)
  have pids: "pids_ok s" using assms(1) by (simp add: kernel_inv_def)
  have ts: "tasks ?t ! j = (if j = ?n then f (tasks s ! ?n) else tasks s ! j)" for j
    using n by (simp add: upd_task_def)
  have "kernel_ok (upd_task ?n f s)"
    using assms by (intro kernel_ok_upd_task) (simp_all add: kernel_inv_def fresh_task_def)
  then have "kernel_ok ?t"
    using assms(2) by (simp add: kernel_ok_def upd_task_def)
  moreover have "one_running ?t"
    unfolding one_running_def ts
    using assms(1,4) by (auto simp: fresh_task_def kernel_inv_def one_running_def upd_task_def)
  moreover have "pids_ok ?t"
  proof -
    have new: "t_pid (tasks ?t ! ?n) = pid"
      using assms(4) unfolding ts by (simp add: fresh_task_def)
    have old: "t_pid (tasks ?t ! j) = t_pid (tasks s ! j)" if "j < ?n" for j
      using that unfolding ts by simp
    have diff: "t_pid (tasks ?t ! j) \<noteq> t_pid (tasks ?t ! ?n)" if "j < ?n" for j
      using assms(3) old[OF that] new that by (simp add: pid_available_def)
    have inj: "i = j" if "i < ?n + 1" "j < ?n + 1" "t_pid (tasks ?t ! i) = t_pid (tasks ?t ! j)" for i j
    proof (cases "i = ?n \<or> j = ?n")
      case True
      then show ?thesis using diff[of i] diff[of j] that by (metis Suc_eq_plus1 less_antisym)
    next
      case False
      then have "i < ?n" "j < ?n" using that by auto
      then show ?thesis using that(3) old pids by (auto simp: pids_ok_def)
    qed
    have np: "unat (next_pid s) \<le> unat np" "8 \<le> unat np" "unat np \<le> 9 + ?n"
      using assms(3) pids by (auto simp: pid_available_def pids_ok_def)
    have rng: "t_pid (tasks ?t ! j) = 1
        \<or> 8 \<le> unat (t_pid (tasks ?t ! j)) \<and> unat (t_pid (tasks ?t ! j)) < unat np"
      if "j < ?n + 1" for j
    proof (cases "j = ?n")
      case True
      then show ?thesis using new assms(3) by (simp add: pid_available_def)
    next
      case False
      then have j: "j < ?n" using that by simp
      show ?thesis using pids j np(1) unfolding old[OF j] by (fastforce simp: pids_ok_def)
    qed
    show ?thesis
      unfolding pids_ok_def using inj rng np by simp
  qed
  ultimately show ?thesis by (simp add: kernel_inv_def)
qed

lemma fresh_descriptor:
  assumes "task_ok t"
  shows "fresh_task pid (ipc_init_task (t\<lparr>t_rsp := a, t_pid := pid, t_state := TASK_READY,
    stack_phys := b, user_stack_phys := c, pml4_phys := d, load_addr := e, code_pages := g, wait_idx := - 1\<rparr>))"
  using assms by (simp add: fresh_task_def task_ok_def ipc_ok_def ipc_init_task_def)

lemma sys_clone_inv:
  assumes "sys_clone flags user_stack entry_pt arg s = (r, t)" "kernel_inv s"
  shows "kernel_inv t"
proof (cases "current_task s < 0 \<or> num_tasks s \<ge> 64")
  case True
  then show ?thesis using assms by (auto simp: sys_clone_def split: if_splits)
next
  case False
  obtain k u where k: "pmm_alloc_page s = (k, u)" by fastforce
  note keep = keeps_kernel_alloc[OF k]
  have u: "kernel_inv u" "num_tasks u < 64"
    using kernel_inv_keeps[OF keep assms(2)] keeps_kernel_fields[OF keep] False by simp_all
  show ?thesis
  proof (cases "k = 0")
    case True
    then show ?thesis using assms(1) k u(1) False by (simp add: sys_clone_def)
  next
    case nz: False
    let ?p = "task_at s (nat (current_task s))"
    obtain sp m where m: "push_words ([0x23, user_stack, 0x202, 0x2B, entry_pt] @ replicate 7 0 @ [arg]
        @ replicate 9 0) (k + FRAME_SIZE) (mem u) = (sp, m)" by fastforce
    let ?u = "u\<lparr>mem := m\<rparr>"
    let ?f = "\<lambda>t. ipc_init_task (t\<lparr>t_rsp := sp, t_pid := ucast (next_pid ?u), t_state := TASK_READY,
      stack_phys := k, user_stack_phys := 0, pml4_phys := pml4_phys ?p, load_addr := load_addr ?p,
      code_pages := 0, wait_idx := - 1\<rparr>)"
    have "t = (upd_task (num_tasks ?u) ?f (?u\<lparr>next_pid := next_pid ?u + 1\<rparr>))\<lparr>num_tasks := num_tasks ?u + 1\<rparr>"
      using assms(1) False nz k m by (simp add: sys_clone_def Let_def)
    moreover have "task_ok (tasks ?u ! num_tasks ?u)"
      using kernel_inv_task[OF u] by simp
    ultimately show ?thesis
      using kernel_inv_add_task[OF _ _ pid_available_next, of ?u ?f] u fresh_descriptor
      by (simp add: kernel_inv_def)
  qed
qed

lemma kernel_inv_futex:
  assumes "kernel_inv s" "length ws = 128" "\<forall>w \<in> set ws. 0 \<le> snd w \<and> snd w < 64" "n \<le> 128"
  shows "kernel_inv (s\<lparr>futex_waiters := ws, num_futex_waiters := n\<rparr>)"
    "kernel_inv (s\<lparr>num_futex_waiters := n, futex_waiters := ws\<rparr>)"
  using assms by (simp_all add: kernel_inv_def kernel_ok_def one_running_def pids_ok_def)

lemma kernel_inv_waiters:
  assumes "kernel_inv s" "i < 128"
  shows "0 \<le> snd (futex_waiters s ! i)" "snd (futex_waiters s ! i) < 64"
  using assms by (simp_all add: kernel_inv_def kernel_ok_def)

text \<open>One waiter is removed and, if it is still blocked, made ready.\<close>

lemma futex_step_inv:
  assumes "kernel_inv s" "i < num_futex_waiters s"
  defines "idx \<equiv> nat (snd (futex_waiters s ! i))"
    and "u \<equiv> (if t_state (task_at s (nat (snd (futex_waiters s ! i)))) = TASK_BLOCKED
              then set_state (nat (snd (futex_waiters s ! i))) TASK_READY s else s)"
  shows "kernel_inv (u\<lparr>num_futex_waiters := num_futex_waiters u - 1,
    futex_waiters := (futex_waiters u)[i := futex_waiters u ! (num_futex_waiters u - 1)]\<rparr>)"
proof -
  have i: "i < 128" using assms(2) kernel_inv_bounds(6)[OF assms(1)] by simp
  have u: "kernel_inv u"
    using kernel_inv_waiters[OF assms(1) i] assms(1) by (auto simp: u_def intro!: kernel_inv_set_state)
  have same: "futex_waiters u = futex_waiters s" "num_futex_waiters u = num_futex_waiters s"
    by (simp_all add: u_def)
  have ws: "\<forall>w \<in> set (futex_waiters u). 0 \<le> snd w \<and> snd w < 64"
    using u by (simp add: kernel_inv_def kernel_ok_def)
  let ?w = "futex_waiters u ! (num_futex_waiters u - 1)"
  have "?w \<in> set (futex_waiters u)"
    using i kernel_inv_bounds(5,6)[OF u] assms(2) by (intro nth_mem) simp
  then have "\<forall>w \<in> set ((futex_waiters u)[i := ?w]). 0 \<le> snd w \<and> snd w < 64"
    using ws set_update_subset_insert[of "futex_waiters u" i ?w] by blast
  then show ?thesis
    using u kernel_inv_bounds(5,6)[OF u] by (auto intro: kernel_inv_futex(2))
qed

lemma futex_wake_inv:
  "kernel_inv s \<Longrightarrow> kernel_inv (snd (futex_wake_loop uaddr val i woken s))"
proof (induction uaddr val i woken s rule: futex_wake_loop.induct)
  case (1 uaddr val i woken s)
  let ?w = "futex_waiters s ! i"
  show ?case
  proof (cases "i < num_futex_waiters s \<and> woken < val")
    case c: True
    show ?thesis
    proof (cases "fst ?w = uaddr")
      case True
      then show ?thesis
        using "1.IH"(1)[OF c True refl refl refl refl refl] futex_step_inv[OF "1.prems", of i] c
        by (subst futex_wake_loop.simps) (simp add: Let_def)
    next
      case False
      then show ?thesis
        using "1.IH"(2)[OF c False "1.prems"] c by (subst futex_wake_loop.simps) simp
    qed
  next
    case False
    show ?thesis
      using "1.prems" by (subst futex_wake_loop.simps) (simp only: False if_False snd_conv)
  qed
qed

lemma sys_futex_inv:
  assumes "sys_futex uaddr op val s = Inr (r, t)" "kernel_inv s"
  shows "kernel_inv t"
proof (cases "current_task s < 0")
  case True
  then show ?thesis using assms by (simp add: sys_futex_def)
next
  case c: False
  have i: "nat (current_task s) < 64" "current_task s < 64"
    using kernel_inv_bounds(3)[OF assms(2)] c by simp_all
  let ?n = "num_futex_waiters s"
  let ?s = "s\<lparr>futex_waiters := (futex_waiters s)[?n := (uaddr, current_task s)], num_futex_waiters := ?n + 1\<rparr>"
  have "\<forall>w \<in> set (futex_waiters s). 0 \<le> snd w \<and> snd w < 64"
    using assms(2) by (simp add: kernel_inv_def kernel_ok_def)
  then have add: "kernel_inv ?s" if "?n < 128"
    using that assms(2) c i kernel_inv_bounds(5)[OF assms(2)]
      set_update_subset_insert[of "futex_waiters s" ?n "(uaddr, current_task s)"]
    by (intro kernel_inv_futex) auto
  show ?thesis
  proof (cases "op = 0")
    case True
    then show ?thesis
      using assms c i add
      by (auto simp: sys_futex_def Let_def bind_res_Inr split: if_splits intro!: kernel_inv_set_state)
  next
    case False
    then show ?thesis
      using assms c futex_wake_inv[OF assms(2), of uaddr "u32_to_int val" 0 0]
      by (auto simp: sys_futex_def split: if_splits)
  qed
qed

lemmas task_call_invs = sys_send_inv sys_recv_inv sys_wait_inv sys_wait_any_inv sys_exit_inv
  sys_kill_inv sys_clone_inv sys_futex_inv memory_calls_inv

section \<open>An example state\<close>

text \<open>Three tasks, the first running, the second ready, the third blocked.\<close>

definition demo_task :: "u64 \<Rightarrow> task_state \<Rightarrow> u64 \<Rightarrow> task" where
  "demo_task pid st stack =
     zero_task\<lparr>t_pid := pid, t_state := st, t_rsp := stack, stack_phys := stack, wait_idx := - 1\<rparr>"

definition kernel_demo :: kstate where
  "kernel_demo = paging_state.extend boot_demo
     \<lparr>tasks = [demo_task 1 TASK_RUNNING 0x300000, demo_task 8 TASK_READY 0x301000,
                demo_task 9 TASK_BLOCKED 0x302000] @ replicate 61 zero_task,
      current_task = 0, num_tasks = 3, next_pid = 10, heap_brk = HEAP_START,
      futex_waiters = replicate 128 (0, 0), num_futex_waiters = 0, ticks = 0,
      irq_handlers = replicate 16 (- 1), idt = replicate 256 \<lparr>offset_0 = 0, selector = 0, ist = 0,
        gate_flags = 0, offset_1 = 0, offset_2 = 0, gate_reserved = 0\<rparr>, idtr_limit = 0\<rparr>"

lemma kernel_demo_fields [simp]:
  "mem kernel_demo = mem boot_demo" "free_stack kernel_demo = free_stack boot_demo"
  "paging_root kernel_demo = 0x1000" "cr3 kernel_demo = 0x1000"
  "tasks kernel_demo = [demo_task 1 TASK_RUNNING 0x300000, demo_task 8 TASK_READY 0x301000,
     demo_task 9 TASK_BLOCKED 0x302000] @ replicate 61 zero_task"
  "current_task kernel_demo = 0" "num_tasks kernel_demo = 3" "next_pid kernel_demo = 10"
  "heap_brk kernel_demo = HEAP_START" "futex_waiters kernel_demo = replicate 128 (0, 0)"
  "num_futex_waiters kernel_demo = 0" "ticks kernel_demo = 0" "irq_handlers kernel_demo = replicate 16 (- 1)"
  by (simp_all add: kernel_demo_def boot_demo_def paging_demo_def pmm_demo_def paging_state.defs
      pmm_state.defs)

lemma kernel_demo_tasks [simp]:
  "tasks kernel_demo ! 0 = demo_task 1 TASK_RUNNING 0x300000"
  "tasks kernel_demo ! Suc 0 = demo_task 8 TASK_READY 0x301000"
  "tasks kernel_demo ! 2 = demo_task 9 TASK_BLOCKED 0x302000"
  "length (tasks kernel_demo) = 64"
  by simp_all

lemma demo_task_simps [simp]:
  "t_pid (demo_task pid st stack) = pid" "t_state (demo_task pid st stack) = st"
  "stack_phys (demo_task pid st stack) = stack" "wait_idx (demo_task pid st stack) = - 1"
  "t_rsp (demo_task pid st stack) = stack" "ipc_count (demo_task pid st stack) = 0"
  "pml4_phys (demo_task pid st stack) = 0" "code_pages (demo_task pid st stack) = 0"
  "inbox (demo_task pid st stack) = []"
  by (simp_all add: demo_task_def zero_task_def inbox_def ring_slots_def)

lemma demo_task_ok: "task_ok (demo_task pid st stack)" "task_ok zero_task"
  using zero_task_ok by (simp_all add: task_ok_def ipc_ok_def demo_task_def zero_task_def)

lemma kernel_demo_inv: "kernel_inv kernel_demo"
proof -
  have split: "i = 0 \<or> i = 1 \<or> i = 2" if "i < 3" for i :: nat using that by auto
  have "kernel_ok kernel_demo" by (auto simp: kernel_ok_def demo_task_ok)
  moreover have "one_running kernel_demo"
    by (auto simp: one_running_def nth_append nth_Cons' zero_task_def split: if_splits)
  moreover have "pids_ok kernel_demo"
    by (auto simp: pids_ok_def dest!: split)
  ultimately show ?thesis by (simp add: kernel_inv_def)
qed

end
