(* ===== verification/Message_Delivery.thy ===== *)
theory Message_Delivery
  imports Task_Invariants
begin

text \<open>
  Sending and receiving a message, end to end: from the sender's buffer through the
  receiver's queue into the receiver's buffer.
\<close>

section \<open>Buffers\<close>

text \<open>Bytes stored at consecutive physical addresses.\<close>

primrec store :: "u8 list \<Rightarrow> u64 \<Rightarrow> memory \<Rightarrow> memory" where
  "store [] a m = m"
| "store (b # bs) a m = store bs (a + 1) (m(a := b))"

text \<open>
  The \<open>n\<close> bytes at virtual address \<open>va\<close> are the \<open>n\<close> bytes at physical address \<open>pa\<close>, and stay so
  when only those bytes change: the buffer does not contain the tables that map it.
\<close>

definition stable_buffer :: "'a paging_state_scheme \<Rightarrow> u64 \<Rightarrow> u64 \<Rightarrow> nat \<Rightarrow> bool" where
  "stable_buffer s va pa n \<longleftrightarrow>
     n < 2 ^ 64 \<and>
     (\<forall>m'. (\<forall>a. (\<forall>i < n. a \<noteq> pa + of_nat i) \<longrightarrow> m' a = mem s a) \<longrightarrow>
        (\<forall>i < n. translate (s\<lparr>mem := m'\<rparr>) (va + of_nat i) = Inr (pa + of_nat i)))"

lemma stable_buffer_write:
  assumes "stable_buffer s va pa n" "\<And>a. (\<forall>i < n. a \<noteq> pa + of_nat i) \<Longrightarrow> m' a = mem s a"
  shows "stable_buffer (s\<lparr>mem := m'\<rparr>) va pa n"
  using assms unfolding stable_buffer_def by simp

lemma stable_buffer_translate:
  assumes "stable_buffer s va pa n" "i < n"
  shows "translate s (va + of_nat i) = Inr (pa + of_nat i)"
proof -
  have "translate (s\<lparr>mem := mem s\<rparr>) (va + of_nat i) = Inr (pa + of_nat i)"
    using assms unfolding stable_buffer_def by blast
  then show ?thesis by simp
qed

lemma store_outside:
  "(\<forall>i < length bs. a \<noteq> p + of_nat i) \<Longrightarrow> store bs p m a = m a"
proof (induction bs arbitrary: p m)
  case Nil
  then show ?case by simp
next
  case (Cons b bs)
  have "a \<noteq> p" using Cons.prems[rule_format, of 0] by simp
  moreover have "\<forall>i < length bs. a \<noteq> (p + 1) + of_nat i"
    using Cons.prems[rule_format, of "Suc _"] by (auto simp: add.assoc)
  ultimately show ?case using Cons.IH[of "p + 1"] by simp
qed

lemma of_nat_inj64:
  fixes i j :: nat
  assumes "(of_nat i :: u64) = of_nat j" "i < 2 ^ 64" "j < 2 ^ 64"
  shows "i = j"
proof -
  have "unat (of_nat i :: u64) = i" "unat (of_nat j :: u64) = j"
    using assms(2,3) by (simp_all add: unat_of_nat take_bit_nat_eq_self_iff)
  with assms(1) show ?thesis by metis
qed

lemma store_nth:
  assumes "i < length bs" "length bs < 2 ^ 64"
  shows "store bs p m (p + of_nat i) = bs ! i"
  using assms
proof (induction bs arbitrary: p m i)
  case Nil
  then show ?case by simp
next
  case (Cons b bs)
  show ?case
  proof (cases i)
    case 0
    have "p \<noteq> (p + 1) + of_nat k" if "k < length bs" for k
    proof
      assume "p = (p + 1) + of_nat k"
      then have "(of_nat (Suc k) :: u64) = of_nat 0" by (simp add: add.assoc)
      then show False using of_nat_inj64[of "Suc k" 0] that Cons.prems(2) by simp
    qed
    then have "store bs (p + 1) (m(p := b)) p = (m(p := b)) p" by (intro store_outside) blast
    with 0 show ?thesis by simp
  next
    case (Suc k)
    then show ?thesis
      using Cons.IH[of k "p + 1" "m(p := b)"] Cons.prems by (simp add: add.assoc fun_upd_def)
  qed
qed

text \<open>The \<open>l\<close> bytes at offset \<open>k\<close> of the buffer at \<open>pa\<close>.\<close>

definition field :: "memory \<Rightarrow> u64 \<Rightarrow> nat \<Rightarrow> nat \<Rightarrow> u8 list" where
  "field m pa k l = map (\<lambda>i. m (pa + of_nat (k + i))) [0..<l]"

text \<open>Part of a stable buffer, written and read through the page tables.\<close>

lemma vwrite_stable:
  assumes "stable_buffer s va pa n" "k + length bs \<le> n"
  shows "vwrite bs (va + of_nat k) s = Inr (s\<lparr>mem := store bs (pa + of_nat k) (mem s)\<rparr>)"
  using assms
proof (induction bs arbitrary: s k)
  case Nil
  then show ?case by simp
next
  case (Cons b bs)
  define m1 where "m1 = (mem s)(pa + of_nat k := b)"
  let ?s = "s\<lparr>mem := m1\<rparr>"
  have k: "k < n" using Cons.prems(2) by simp
  have "stable_buffer ?s va pa n"
    using Cons.prems(1) k by (intro stable_buffer_write) (auto simp: m1_def)
  then have "vwrite bs (va + of_nat (Suc k)) ?s = Inr (?s\<lparr>mem := store bs (pa + of_nat (Suc k)) (mem ?s)\<rparr>)"
    using Cons.IH[of ?s "Suc k"] Cons.prems(2) by simp
  then show ?case
    using stable_buffer_translate[OF Cons.prems(1) k] by (simp add: add_ac m1_def[symmetric])
qed

lemma field_Suc: "field m pa k (Suc l) = m (pa + of_nat k) # field m pa (Suc k) l"
proof -
  have "[0..<Suc l] = 0 # map Suc [0..<l]"
    by (simp add: upt_conv_Cons map_Suc_upt del: upt_Suc)
  then show ?thesis by (simp add: field_def o_def add_ac del: upt_Suc)
qed

lemma vread_stable:
  assumes "stable_buffer s va pa n" "k + l \<le> n"
  shows "vread l (va + of_nat k) s = Inr (field (mem s) pa k l)"
  using assms(2)
proof (induction l arbitrary: k)
  case 0
  then show ?case by (simp add: field_def)
next
  case (Suc l)
  have "translate s (va + of_nat k) = Inr (pa + of_nat k)"
    using stable_buffer_translate[OF assms(1), of k] Suc.prems by simp
  then show ?case using Suc.IH[of "Suc k"] Suc.prems by (simp add: add_ac field_Suc)
qed

lemma store_stable:
  assumes "stable_buffer s va pa n" "k + length bs \<le> n"
  shows "stable_buffer (s\<lparr>mem := store bs (pa + of_nat k) (mem s)\<rparr>) va pa n"
proof (rule stable_buffer_write[OF assms(1)])
  fix a assume "\<forall>i < n. a \<noteq> pa + of_nat i"
  then have "\<forall>i < length bs. a \<noteq> (pa + of_nat k) + of_nat i"
    using assms(2) by (auto simp: add.assoc of_nat_add[symmetric] simp del: of_nat_add)
  then show "store bs (pa + of_nat k) (mem s) a = mem s a" by (rule store_outside)
qed

text \<open>What a field of the buffer holds after a store at another or the same offset.\<close>

lemma store_field_same:
  assumes "length bs < 2 ^ 64"
  shows "field (store bs (pa + of_nat k) m) pa k (length bs) = bs"
  by (rule nth_equalityI)
    (use assms store_nth[of _ bs "pa + of_nat k" m] in \<open>simp_all add: field_def add.assoc\<close>)

lemma store_field_other:
  assumes "k + length bs \<le> j \<or> j + l \<le> k" "k + length bs < 2 ^ 64" "j + l < 2 ^ 64"
  shows "field (store bs (pa + of_nat k) m) pa j l = field m pa j l"
proof -
  have "store bs (pa + of_nat k) m (pa + of_nat (j + i)) = m (pa + of_nat (j + i))" if "i < l" for i
  proof (rule store_outside, intro allI impI notI)
    fix x assume x: "x < length bs" "pa + of_nat (j + i) = pa + of_nat k + of_nat x"
    then have "(of_nat (j + i) :: u64) = of_nat (k + x)" by (simp add: add.assoc)
    then have "j + i = k + x"
      using of_nat_inj64[of "j + i" "k + x"] x(1) that assms(2,3) by linarith
    then show False using assms(1) x(1) that by linarith
  qed
  then show ?thesis by (simp add: field_def)
qed

lemma le_word_64: "le_word (le_bytes 8 (v :: u64)) = v"
  by (simp add: le_word_bytes take_bit_word_eq_self)

lemma stable_buffer_cong:
  assumes "mem t = mem s" "cr3 t = cr3 s"
  shows "stable_buffer t va pa n = stable_buffer s va pa n"
  using assms by (simp add: stable_buffer_def translate_def)

section \<open>Receiving\<close>

text \<open>The buffer of \<^verbatim>\<open>sys_recv\<close> after its four stores.\<close>

definition delivered :: "ipc_msg \<Rightarrow> u64 \<Rightarrow> memory \<Rightarrow> memory" where
  "delivered src pa m =
     store (take (unat (msg_length src)) (msg_data src)) (pa + of_nat 16)
       (store (le_bytes 8 (msg_length src)) (pa + of_nat 80)
         (store (le_bytes 8 (msg_type src)) (pa + of_nat 8)
           (store (le_bytes 8 (sender_pid src)) (pa + of_nat 0) m)))"

lemma delivered_fields:
  assumes "length (msg_data src) = 64" "msg_length src \<le> 64"
  shows "field (delivered src pa m) pa 0 8 = le_bytes 8 (sender_pid src)"
    "field (delivered src pa m) pa 8 8 = le_bytes 8 (msg_type src)"
    "field (delivered src pa m) pa 80 8 = le_bytes 8 (msg_length src)"
    "field (delivered src pa m) pa 16 (unat (msg_length src)) = take (unat (msg_length src)) (msg_data src)"
proof -
  let ?data = "take (unat (msg_length src)) (msg_data src)"
  have l: "unat (msg_length src) \<le> 64" using assms(2) by (simp add: word_le_nat_alt)
  have len: "length ?data = unat (msg_length src)" using l assms(1) by simp
  have same: "field (store (le_bytes 8 v) (pa + of_nat k) m) pa k 8 = le_bytes 8 v" for v :: u64 and k m
    using store_field_same[of "le_bytes 8 v" pa k m] by simp
  have word: "field (store (le_bytes 8 v) (pa + of_nat k) m) pa j 8 = field m pa j 8"
    if "k + 8 \<le> j \<or> j + 8 \<le> k" "k < 1000" "j < 1000" for v :: u64 and k j m
    using store_field_other[of k "le_bytes 8 v" j 8 pa m] that by simp
  have data: "field (store ?data (pa + of_nat 16) m) pa j 8 = field m pa j 8"
    if "j + 8 \<le> 16 \<or> 80 \<le> j" "j < 1000" for j m
    using store_field_other[of 16 ?data j 8 pa m] that l len by auto
  show "field (delivered src pa m) pa 0 8 = le_bytes 8 (sender_pid src)"
    "field (delivered src pa m) pa 8 8 = le_bytes 8 (msg_type src)"
    "field (delivered src pa m) pa 80 8 = le_bytes 8 (msg_length src)"
    unfolding delivered_def
    using data[of 0] data[of 8] data[of 80] word[of 80 0] word[of 80 8] word[of 8 0]
      same[of _ 0] same[of _ 8] same[of _ 80] by simp_all
  show "field (delivered src pa m) pa 16 (unat (msg_length src)) = ?data"
    unfolding delivered_def using l store_field_same[of ?data pa 16] by (simp only: len) simp
qed

lemma sys_recv_stores:
  assumes "0 \<le> current_task s" "ipc_count (task_at s (nat (current_task s))) \<noteq> 0"
    and "stable_buffer s msg pa 88"
    and "length (msg_data (ipc_head_msg (task_at s (nat (current_task s))))) = 64"
      "msg_length (ipc_head_msg (task_at s (nat (current_task s)))) \<le> 64"
  defines "m' \<equiv> delivered (ipc_head_msg (task_at s (nat (current_task s)))) pa (mem s)"
  shows "sys_recv msg s = Inr (0, upd_task (nat (current_task s)) ipc_drop (s\<lparr>mem := m'\<rparr>))"
    "stable_buffer (s\<lparr>mem := m'\<rparr>) msg pa 88"
proof -
  let ?src = "ipc_head_msg (task_at s (nat (current_task s)))"
  let ?data = "take (unat (msg_length ?src)) (msg_data ?src)"
  have l: "length ?data \<le> 64" using assms(5) by (simp add: word_le_nat_alt)
  define m1 where "m1 = store (le_bytes 8 (sender_pid ?src)) (pa + of_nat 0) (mem s)"
  define m2 where "m2 = store (le_bytes 8 (msg_type ?src)) (pa + of_nat 8) m1"
  define m3 where "m3 = store (le_bytes 8 (msg_length ?src)) (pa + of_nat 80) m2"
  note w = vwrite_stable[where va = msg and pa = pa and n = 88] and st = store_stable[where va = msg and pa = pa and n = 88]
  have 1: "vwrite (le_bytes 8 (sender_pid ?src)) msg s = Inr (s\<lparr>mem := m1\<rparr>)" "stable_buffer (s\<lparr>mem := m1\<rparr>) msg pa 88"
    using w[OF assms(3), of 0 "le_bytes 8 (sender_pid ?src)"] st[OF assms(3), of 0 "le_bytes 8 (sender_pid ?src)"]
    by (simp_all add: m1_def)
  have 2: "vwrite (le_bytes 8 (msg_type ?src)) (msg + 8) (s\<lparr>mem := m1\<rparr>) = Inr (s\<lparr>mem := m2\<rparr>)"
    "stable_buffer (s\<lparr>mem := m2\<rparr>) msg pa 88"
    using w[OF 1(2), of 8 "le_bytes 8 (msg_type ?src)"] st[OF 1(2), of 8 "le_bytes 8 (msg_type ?src)"]
    by (simp_all add: m2_def)
  have 3: "vwrite (le_bytes 8 (msg_length ?src)) (msg + 80) (s\<lparr>mem := m2\<rparr>) = Inr (s\<lparr>mem := m3\<rparr>)"
    "stable_buffer (s\<lparr>mem := m3\<rparr>) msg pa 88"
    using w[OF 2(2), of 80 "le_bytes 8 (msg_length ?src)"] st[OF 2(2), of 80 "le_bytes 8 (msg_length ?src)"]
    by (simp_all add: m3_def)
  have m': "m' = store ?data (pa + of_nat 16) m3"
    by (simp add: m'_def delivered_def m1_def m2_def m3_def)
  have 4: "vwrite ?data (msg + 16) (s\<lparr>mem := m3\<rparr>) = Inr (s\<lparr>mem := m'\<rparr>)"
    using w[OF 3(2), of 16 ?data] l unfolding m' by simp
  show "stable_buffer (s\<lparr>mem := m'\<rparr>) msg pa 88"
    using st[OF 3(2), of 16 ?data] l unfolding m' by simp
  show "sys_recv msg s = Inr (0, upd_task (nat (current_task s)) ipc_drop (s\<lparr>mem := m'\<rparr>))"
    using assms(1,2) 1(1) 2(1) 3(1) 4 by (simp add: sys_recv_def Let_def vwrite64_def)
qed

lemma sys_recv_delivered:
  assumes "kernel_inv s" "0 \<le> current_task s" "stable_buffer s msg pa 88"
    and "inbox (task_at s (nat (current_task s))) = (sender, typ, bytes) # rest"
  obtains src where "length (msg_data src) = 64" "msg_length src \<le> 64" "sender_pid src = sender" "msg_type src = typ"
    "take (unat (msg_length src)) (msg_data src) = bytes" "length bytes = unat (msg_length src)"
    "stable_buffer (s\<lparr>mem := delivered src pa (mem s)\<rparr>) msg pa 88"
    "sys_recv msg s = Inr (0, upd_task (nat (current_task s)) ipc_drop (s\<lparr>mem := delivered src pa (mem s)\<rparr>))"
    "inbox (ipc_drop (task_at s (nat (current_task s)))) = rest" "nat (current_task s) < length (tasks s)"
proof -
  let ?i = "nat (current_task s)"
  let ?t = "task_at s ?i"
  let ?src = "ipc_head_msg ?t"
  have i: "?i < 64" "?i < length (tasks s)"
    using kernel_inv_bounds(1,3)[OF assms(1)] assms(2) by auto
  have ok: "ipc_ok ?t" using kernel_inv_task[OF assms(1) i(1)] by (simp add: task_ok_def)
  have ne: "ipc_count ?t \<noteq> 0" using assms(4) length_inbox[of ?t] by auto
  have "?src \<in> set (ipc_queue ?t)"
    using ok ipc_ok_bounds(2)[OF ok] by (auto simp: ipc_head_msg_def ipc_ok_def)
  then have src: "length (msg_data ?src) = 64" "msg_length ?src \<le> 64"
    using ok by (simp_all add: ipc_ok_def)
  have view: "msg_view ?src = (sender, typ, bytes)" "inbox (ipc_drop ?t) = rest"
    using ipc_drop_correct(2)[OF ok ne] assms(4) by simp_all
  then have v: "sender_pid ?src = sender" "msg_type ?src = typ" "take (unat (msg_length ?src)) (msg_data ?src) = bytes"
    by (simp_all add: msg_view_def)
  have len: "length bytes = unat (msg_length ?src)"
    using v(3) src by (auto simp: word_le_nat_alt)
  show ?thesis using that[OF src v len] sys_recv_stores[OF assms(2) ne assms(3) src] view(2) i(2) by blast
qed

text \<open>
  \<^verbatim>\<open>sys_recv\<close> with a pending message and a mapped buffer of 88 bytes returns 0, removes
  exactly the oldest message from the caller's queue, and leaves it in the buffer: sender,
  type, length and data, readable there by the caller.
\<close>

theorem sys_recv_delivers:
  assumes "kernel_inv s" "0 \<le> current_task s" "stable_buffer s msg pa 88"
    and "inbox (task_at s (nat (current_task s))) = (sender, typ, bytes) # rest"
  shows "\<exists>t. sys_recv msg s = Inr (0, t) \<and> inbox (task_at t (nat (current_task s))) = rest
    \<and> vread64 msg t = Inr sender \<and> vread64 (msg + 8) t = Inr typ
    \<and> vread64 (msg + 80) t = Inr (of_nat (length bytes)) \<and> vread (length bytes) (msg + 16) t = Inr bytes"
proof -
  let ?i = "nat (current_task s)"
  obtain src where src: "length (msg_data src) = 64" "msg_length src \<le> 64" "sender_pid src = sender" "msg_type src = typ"
    "take (unat (msg_length src)) (msg_data src) = bytes" "length bytes = unat (msg_length src)"
    "stable_buffer (s\<lparr>mem := delivered src pa (mem s)\<rparr>) msg pa 88"
    "sys_recv msg s = Inr (0, upd_task ?i ipc_drop (s\<lparr>mem := delivered src pa (mem s)\<rparr>))"
    "inbox (ipc_drop (task_at s ?i)) = rest" "?i < length (tasks s)"
    using sys_recv_delivered[OF assms] by blast
  let ?u = "upd_task ?i ipc_drop (s\<lparr>mem := delivered src pa (mem s)\<rparr>)"
  have st: "stable_buffer ?u msg pa 88"
    using src(7) stable_buffer_cong[of ?u "s\<lparr>mem := delivered src pa (mem s)\<rparr>"] by simp
  note rd = vread_stable[OF st] and fl = delivered_fields[OF src(1,2), where pa = pa and m = "mem s"]
  have "vread64 msg ?u = Inr sender"
    using rd[of 0 8] fl(1) src(3) by (simp add: vread64_def le_word_64 del: vread.simps)
  moreover have "vread64 (msg + 8) ?u = Inr typ"
    using rd[of 8 8] fl(2) src(4) by (simp add: vread64_def le_word_64 del: vread.simps)
  moreover have "vread64 (msg + 80) ?u = Inr (of_nat (length bytes))"
    using rd[of 80 8] fl(3) src(6) by (simp add: vread64_def le_word_64 del: vread.simps)
  moreover have "vread (length bytes) (msg + 16) ?u = Inr bytes"
    using rd[of 16 "length bytes"] fl(4) src(2,5,6) by (simp add: word_le_nat_alt del: vread.simps)
  ultimately show ?thesis using src(8-10) by auto
qed

section \<open>Buffers that are mapped\<close>

lemma stable_bufferI:
  assumes "n < 2 ^ 64" "page_aligned (cr3 s)"
    and "\<And>i. i < n \<Longrightarrow> canonical (va + of_nat i)"
    and "\<And>i. i < n \<Longrightarrow> mmu_walk (mem s) (cr3 s) (va + of_nat i) = Some (pa + of_nat i)"
    and "\<And>i j. i < n \<Longrightarrow> j < n \<Longrightarrow> page_of (pa + of_nat j) \<notin> set (walk_tables (mem s) (cr3 s) (va + of_nat i))"
  shows "stable_buffer s va pa n"
  unfolding stable_buffer_def
proof (intro conjI allI impI)
  fix m' i
  assume m': "\<forall>a. (\<forall>i<n. a \<noteq> pa + of_nat i) \<longrightarrow> m' a = mem s a" and i: "i < n"
  have "mmu_walk m' (cr3 s) (va + of_nat i) = mmu_walk (mem s) (cr3 s) (va + of_nat i)"
  proof (rule mmu_walk_cong[OF assms(2)])
    fix a assume "page_of a \<in> set (walk_tables (mem s) (cr3 s) (va + of_nat i))"
    then have "\<forall>j<n. a \<noteq> pa + of_nat j" using assms(5)[OF i] by metis
    then show "m' a = mem s a" using m' by blast
  qed
  then show "translate (s\<lparr>mem := m'\<rparr>) (va + of_nat i) = Inr (pa + of_nat i)"
    using assms(3,4)[OF i] by (simp add: translate_def)
qed (use assms(1) in simp)

text \<open>Under the boot tables, any low buffer away from them.\<close>

lemma boot_buffer:
  assumes "mem s = setup_paging m" "cr3 s = 0x1000" "0x4000 \<le> unat va" "unat va + n \<le> 0x40000000"
  shows "stable_buffer s va va n"
proof (rule stable_bufferI)
  have u: "unat (va + of_nat i) = unat va + i" if "i < n" for i
    using that assms(4) by (simp add: unat_word_ariths unat_of_nat take_bit_nat_eq_self_iff)
  have low: "va + of_nat i < 0x40000000" if "i < n" for i
    using u[OF that] that assms(4) by (simp add: word_less_nat_alt)
  show "n < 2 ^ 64" "page_aligned (cr3 s)" using assms(2,4) by (simp_all add: page_aligned_def)
  fix i assume i: "i < n"
  have "unat (drop_bit 47 (va + of_nat i)) = 0"
    using u[OF i] i assms(4) by (simp add: drop_bit_eq_div unat_div)
  then show "canonical (va + of_nat i)" by (simp add: canonical_def unat_eq_zero)
  have "va + of_nat i < 0x1000000000000" using low[OF i] by (simp add: word_less_nat_alt)
  from boot_identity[OF this] show "mmu_walk (mem s) (cr3 s) (va + of_nat i) = Some (va + of_nat i)"
    using low[OF i] assms(1,2) by simp
  fix j assume j: "j < n"
  have "0x4000 \<le> unat (page_of (va + of_nat j))"
    using u[OF j] assms(3) by (simp add: unat_page_of less_eq_div_iff_mult_less_eq)
  then show "page_of (va + of_nat j) \<notin> set (walk_tables (mem s) (cr3 s) (va + of_nat i))"
    using assms(1,2) boot_walk_tables[OF low[OF i], of m] by auto
qed

definition inbox_demo :: kstate where
  "inbox_demo = upd_task 0 (ipc_put 8 5 [1, 2]) kernel_demo"

lemma inbox_demo_facts:
  "kernel_inv inbox_demo" "inbox (task_at inbox_demo 0) = [(8, 5, [1, 2])]"
proof -
  have ok: "ipc_ok (demo_task 1 TASK_RUNNING 0x300000)" using demo_task_ok(1) by (simp add: task_ok_def)
  show "kernel_inv inbox_demo"
    unfolding inbox_demo_def by (rule kernel_inv_ipc_put[OF kernel_demo_inv]) simp_all
  show "inbox (task_at inbox_demo 0) = [(8, 5, [1, 2])]"
    using ipc_put_correct(2)[OF ok, of "[1, 2]" 8 5] by (simp add: inbox_demo_def del: kernel_demo_fields(5))
qed

theorem sys_recv_delivers_witness:
  "\<exists>t. sys_recv 0x500000 inbox_demo = Inr (0, t) \<and> vread64 0x500000 t = Inr 8 \<and> vread 2 0x500010 t = Inr [1, 2]"
proof -
  have "stable_buffer inbox_demo 0x500000 0x500000 88"
    by (rule boot_buffer[of _ "mem pmm_demo"]) (simp_all add: inbox_demo_def boot_demo_def)
  then show ?thesis
    using sys_recv_delivers[OF inbox_demo_facts(1), of "0x500000" "0x500000" 8 5 "[1, 2]" "[]"] inbox_demo_facts(2)
    by (auto simp: inbox_demo_def numeral_2_eq_2 simp del: vread.simps kernel_demo_fields(5))
qed

section \<open>Sending\<close>

lemma message_size: "unat (if len > IPC_MAX_DATA then IPC_MAX_DATA else len) = min (unat len) 64"
  by (simp add: word_less_nat_alt min_def)

lemma find_live_Some:
  assumes "find_live pid s = Some i"
  shows "i < num_tasks s" "t_pid (task_at s i) = pid" "t_state (task_at s i) \<noteq> TASK_EXITED"
  using find_task_Some[of _ s i] assms by (auto simp: find_live_def)

lemma sys_send_puts:
  assumes "kernel_inv s" "find_live pid s = Some i" "length (inbox (task_at s i)) < 16"
    and "vread (min (unat len) 64) data s = Inr bytes"
  shows "sys_send pid typ data len s = Inr (0, upd_task i (ipc_put (sys_getpid s) typ bytes) s)"
    "inbox (ipc_put sender typ bytes (task_at s i)) = inbox (task_at s i) @ [(sender, typ, bytes)]" "i < length (tasks s)"
proof -
  have i: "i < 64" "i < length (tasks s)"
    using find_live_Some(1)[OF assms(2)] kernel_inv_bounds(1,2)[OF assms(1)] by auto
  have ok: "ipc_ok (task_at s i)" using kernel_inv_task[OF assms(1) i(1)] by (simp add: task_ok_def)
  have room: "ipc_count (task_at s i) < 16" using assms(3) by (simp add: word_less_nat_alt)
  have "length bytes \<le> 64" using vread_length[OF assms(4)] by simp
  then show "inbox (ipc_put sender typ bytes (task_at s i)) = inbox (task_at s i) @ [(sender, typ, bytes)]"
    using ipc_put_correct(2)[OF ok room] by simp
  show "sys_send pid typ data len s = Inr (0, upd_task i (ipc_put (sys_getpid s) typ bytes) s)" "i < length (tasks s)"
    using i assms(2,4) room[unfolded not_le[symmetric]]
    by (simp_all only: sys_send_def Let_def message_size sys_getpid_def option.case if_False bind_res_simps)
qed

text \<open>
  C6: \<^verbatim>\<open>sys_send\<close> to a live task with room in its queue, from readable memory, returns 0 and
  appends the message, cut to 64 bytes and stamped with the sender's process identifier, at
  the end of that task's queue; a blocked receiver becomes ready; every other task, and
  memory, are unchanged.
\<close>

theorem sys_send_delivers:
  assumes "kernel_inv s" "find_live pid s = Some i" "length (inbox (task_at s i)) < 16"
    and "vread (min (unat len) 64) data s = Inr bytes"
  shows "\<exists>t. sys_send pid typ data len s = Inr (0, t)
    \<and> inbox (task_at t i) = inbox (task_at s i) @ [(sys_getpid s, typ, bytes)]
    \<and> t_state (task_at t i) = (if t_state (task_at s i) = TASK_BLOCKED then TASK_READY else t_state (task_at s i))
    \<and> (\<forall>j. j \<noteq> i \<longrightarrow> task_at t j = task_at s j) \<and> mem t = mem s"
  using sys_send_puts[OF assms] by auto

theorem sys_send_delivers_witness:
  "\<exists>t bytes. sys_send 9 7 0x500000 2 kernel_demo = Inr (0, t)
      \<and> inbox (task_at t 2) = [(sys_getpid kernel_demo, 7, bytes)]
      \<and> t_state (task_at t 2) = TASK_READY"
proof -
  have "stable_buffer kernel_demo 0x500000 0x500000 2"
    by (rule boot_buffer[of _ "mem pmm_demo"]) (simp_all add: boot_demo_def)
  from vread_stable[OF this, of 0 2] obtain bytes where b: "vread 2 0x500000 kernel_demo = Inr bytes" by auto
  have "find_live 9 kernel_demo = Some 2"
    by (simp add: find_live_def find_task_def upt_rec)
  moreover have "min (unat (2 :: u64)) 64 = 2" by simp
  ultimately show ?thesis
    using sys_send_delivers[OF kernel_demo_inv, of 9 2 2 "0x500000" bytes 7] b
    by (auto simp del: kernel_demo_fields(5) vread.simps)
qed

text \<open>
  C30: \<^verbatim>\<open>sys_send\<close> to a process that does not exist or has exited, or whose queue holds 16
  messages, returns \<open>- 1\<close> and changes nothing.
\<close>

theorem sys_send_refuses:
  assumes "case find_live pid s of None \<Rightarrow> True | Some i \<Rightarrow> 16 \<le> length (inbox (task_at s i))"
  shows "sys_send pid typ data len s = Inr (- 1, s)"
  using assms by (auto simp: sys_send_def Let_def word_le_nat_alt split: option.splits)

theorem sys_send_refuses_witness: "sys_send 77 0 0 0 kernel_demo = Inr (- 1, kernel_demo)"
proof -
  have "find_live 77 kernel_demo = None" by (simp add: find_live_def find_task_def upt_rec)
  then show ?thesis using sys_send_refuses[of kernel_demo 77] by simp
qed

text \<open>
  The data pointer is not checked: when its first byte does not translate, a send to a
  task with room faults in kernel mode, which is a panic.
\<close>

theorem sys_send_bad_pointer_faults:
  assumes "find_live pid s = Some i" "length (inbox (task_at s i)) < 16" "len \<noteq> 0"
    and "translate s data = Inl f"
  shows "sys_send pid typ data len s = Inl f"
proof -
  have "0 < min (unat len) 64" using assms(3) by (simp add: unat_gt_0)
  then obtain n where n: "min (unat len) 64 = Suc n" using not0_implies_Suc by blast
  have "ipc_count (task_at s i) < 16" using assms(2) by (simp add: word_less_nat_alt)
  then have "\<not> 16 \<le> ipc_count (task_at s i)" by simp
  then show ?thesis
    using assms(1,4) n
    by (simp only: sys_send_def Let_def message_size option.case if_False vread.simps bind_res_simps)
qed

theorem sys_send_bad_pointer_faults_witness:
  "sys_send 9 0 0x50000000 1 kernel_demo = Inl (Page_Fault 0x50000000)"
proof -
  have "find_live 9 kernel_demo = Some 2"
    by (simp add: find_live_def find_task_def upt_rec)
  moreover have "translate kernel_demo 0x50000000 = Inl (Page_Fault 0x50000000)"
    using boot_identity[of "0x50000000" "mem pmm_demo"] by (simp add: translate_def boot_demo_def)
  ultimately show ?thesis
    using sys_send_bad_pointer_faults[of 9 kernel_demo 2 1 "0x50000000"] by (simp del: kernel_demo_fields(5))
qed

end
