(* ===== verification/Elf.thy ===== *)
theory Elf
  imports Task_Invariants
begin

text \<open>
  Creating processes, \<^verbatim>\<open>task_create\<close>, \<^verbatim>\<open>create_elf\<close> and \<^verbatim>\<open>sys_spawn_at\<close> of
  \<^verbatim>\<open>kernel/task.c\<close> with the structures of \<^verbatim>\<open>kernel/include/elf.h\<close>. The loader reads
  the headers from its buffer at every use, through the current address space, which changes
  while it runs; a header field is therefore a virtual read in the state of the moment. The
  binary is where the caller says and never trusted to be well formed.
\<close>

section \<open>Header fields\<close>

abbreviation ELF_MAGIC :: u32 where "ELF_MAGIC \<equiv> 0x464C457F"
abbreviation PT_LOAD :: u32 where "PT_LOAD \<equiv> 1"

definition vread16 :: "u64 \<Rightarrow> 'a paging_state_scheme \<Rightarrow> u16 res" where
  "vread16 va s = bind_res (vread 2 va s) (\<lambda>bs. Inr (le_word bs))"

text \<open>\<^verbatim>\<open>elf64_hdr_t\<close>, 64 bytes packed: the fields the loader uses.\<close>

definition hdr_entry :: "u64 \<Rightarrow> 'a paging_state_scheme \<Rightarrow> u64 res" where
  "hdr_entry hdr = vread64 (hdr + 24)"

definition hdr_phoff :: "u64 \<Rightarrow> 'a paging_state_scheme \<Rightarrow> u64 res" where
  "hdr_phoff hdr = vread64 (hdr + 32)"

definition hdr_phentsize :: "u64 \<Rightarrow> 'a paging_state_scheme \<Rightarrow> u16 res" where
  "hdr_phentsize hdr = vread16 (hdr + 54)"

definition hdr_phnum :: "u64 \<Rightarrow> 'a paging_state_scheme \<Rightarrow> u16 res" where
  "hdr_phnum hdr = vread16 (hdr + 56)"

text \<open>\<^verbatim>\<open>elf64_phdr_t\<close>, packed.\<close>

definition ph_type :: "u64 \<Rightarrow> 'a paging_state_scheme \<Rightarrow> u32 res" where
  "ph_type ph = vread32 ph"

definition ph_flags :: "u64 \<Rightarrow> 'a paging_state_scheme \<Rightarrow> u32 res" where
  "ph_flags ph = vread32 (ph + 4)"

definition ph_offset :: "u64 \<Rightarrow> 'a paging_state_scheme \<Rightarrow> u64 res" where
  "ph_offset ph = vread64 (ph + 8)"

definition ph_vaddr :: "u64 \<Rightarrow> 'a paging_state_scheme \<Rightarrow> u64 res" where
  "ph_vaddr ph = vread64 (ph + 16)"

definition ph_filesz :: "u64 \<Rightarrow> 'a paging_state_scheme \<Rightarrow> u64 res" where
  "ph_filesz ph = vread64 (ph + 32)"

definition ph_memsz :: "u64 \<Rightarrow> 'a paging_state_scheme \<Rightarrow> u64 res" where
  "ph_memsz ph = vread64 (ph + 40)"

text \<open>
  \<^verbatim>\<open>buf + hdr->phoff + i * hdr->phentsize\<close>; the product of the two 16-bit values is
  computed as an \<^verbatim>\<open>int\<close>.
\<close>

definition phdr_addr :: "u64 \<Rightarrow> nat \<Rightarrow> 'a paging_state_scheme \<Rightarrow> u64 res" where
  "phdr_addr buf i s =
     bind_res (hdr_phoff buf s) (\<lambda>phoff.
     bind_res (hdr_phentsize buf s) (\<lambda>phentsize.
       if i * unat phentsize \<ge> 2 ^ 31 then Inl Undefined
       else Inr (buf + phoff + of_nat (i * unat phentsize))))"

section \<open>Loops of the loader\<close>

primrec alloc_buf :: "nat \<Rightarrow> u64 list \<Rightarrow> 'a pmm_state_scheme \<Rightarrow> u64 list option \<times> 'a pmm_state_scheme" where
  "alloc_buf 0 ps s = (Some ps, s)"
| "alloc_buf (Suc n) ps s =
     (let (p, s) = pmm_alloc_page s
      in if p = 0 then (None, fold pmm_free_page ps s) else alloc_buf n (ps @ [p]) s)"

primrec vcopy :: "nat \<Rightarrow> u64 \<Rightarrow> u64 \<Rightarrow> 'a paging_state_scheme \<Rightarrow> 'a paging_state_scheme res" where
  "vcopy 0 dst src s = Inr s"
| "vcopy (Suc n) dst src s =
     bind_res (vread 1 src s) (\<lambda>b. bind_res (vwrite b dst s) (\<lambda>s. vcopy n (dst + 1) (src + 1) s))"

text \<open>The highest end of a loadable segment.\<close>

function elf_max_vaddr :: "u64 \<Rightarrow> nat \<Rightarrow> u64 \<Rightarrow> 'a paging_state_scheme \<Rightarrow> u64 res" where
  "elf_max_vaddr buf i max_vaddr s =
     bind_res (hdr_phnum buf s) (\<lambda>phnum.
       if i < unat phnum
       then
         bind_res (phdr_addr buf i s) (\<lambda>ph.
         bind_res (ph_type ph s) (\<lambda>typ.
           if typ \<noteq> PT_LOAD then elf_max_vaddr buf (i + 1) max_vaddr s
           else
             bind_res (ph_vaddr ph s) (\<lambda>vaddr.
             bind_res (ph_memsz ph s) (\<lambda>memsz.
               elf_max_vaddr buf (i + 1)
                 (if vaddr + memsz > max_vaddr then vaddr + memsz else max_vaddr) s))))
       else Inr max_vaddr)"
  by pat_completeness auto

lemma phnum_bound: "i < unat (phnum :: u16) \<Longrightarrow> 65535 - i < 65536 - i"
  using unsigned_less[of phnum, where 'a = nat] by simp

termination elf_max_vaddr
  by (relation "measure (\<lambda>(buf, i, max_vaddr, s). 65536 - i)") (simp_all add: phnum_bound)

text \<open>Fresh pages for one segment; \<open>False\<close>: out of memory.\<close>

function elf_map_loop ::
  "u64 \<Rightarrow> u64 \<Rightarrow> u64 \<Rightarrow> 'a paging_state_scheme \<Rightarrow> (bool \<times> 'a paging_state_scheme) res" where
  "elf_map_loop ph v vend s =
     (if v < vend
      then
        let (page, s) = pmm_alloc_page s
        in if page = 0 then Inr (False, s)
           else bind_res (ph_flags ph s) (\<lambda>flags.
             let pg = PAGE_PRESENT OR PAGE_USER OR PAGE_WRITABLE;
                 pg = (if flags AND 2 = 0 then pg AND NOT PAGE_WRITABLE else pg);
                 s = map_page v page pg s
             in if v + 4096 < v then Inl Diverges else elf_map_loop ph (v + 4096) vend s)
      else Inr (True, s))"
  by pat_completeness auto
termination
  by (relation "measure (\<lambda>(ph, v, vend, s). 2 ^ 64 - unat v)") (simp, use no_wrap_step in simp)

text \<open>The file contents of one segment, byte by byte.\<close>

lemma next_byte:
  fixes j n :: u64
  assumes "j < n"
  shows "2 ^ 64 - unat (j + 1) < 2 ^ 64 - unat j"
proof -
  have "unat (j + 1) = unat j + 1"
    using assms unsigned_less[of n, where 'a = nat] by (simp add: unat_word_ariths word_less_nat_alt)
  then show ?thesis using unsigned_less[of j, where 'a = nat] by simp
qed

function elf_copy_loop ::
  "u64 \<Rightarrow> u64 \<Rightarrow> u64 \<Rightarrow> 'a paging_state_scheme \<Rightarrow> 'a paging_state_scheme res" where
  "elf_copy_loop ph src j s =
     bind_res (ph_filesz ph s) (\<lambda>filesz.
       if j < filesz
       then
         bind_res (ph_vaddr ph s) (\<lambda>vaddr.
         bind_res (vread 1 (src + j) s) (\<lambda>b.
         bind_res (vwrite b (vaddr + j) s) (\<lambda>s. elf_copy_loop ph src (j + 1) s)))
       else Inr s)"
  by pat_completeness auto
termination
  by (relation "measure (\<lambda>(ph, src, j, s). 2 ^ 64 - unat j)") (simp, use next_byte in simp)

definition elf_load_segment ::
  "u64 \<Rightarrow> u64 \<Rightarrow> 'a paging_state_scheme \<Rightarrow> (bool \<times> 'a paging_state_scheme) res" where
  "elf_load_segment buf ph s =
     bind_res (ph_type ph s) (\<lambda>typ.
       if typ \<noteq> PT_LOAD then Inr (True, s)
       else
         bind_res (ph_vaddr ph s) (\<lambda>vaddr.
         bind_res (ph_memsz ph s) (\<lambda>memsz.
         bind_res (elf_map_loop ph (vaddr AND NOT 0xFFF) ((vaddr + memsz + 4095) AND NOT 0xFFF) s)
           (\<lambda>(ok, s).
             if ok
             then bind_res (ph_offset ph s) (\<lambda>offset.
                  bind_res (elf_copy_loop ph (buf + offset) 0 s) (\<lambda>s. Inr (True, s)))
             else Inr (False, s)))))"

function elf_load_segments ::
  "u64 \<Rightarrow> nat \<Rightarrow> 'a paging_state_scheme \<Rightarrow> (bool \<times> 'a paging_state_scheme) res" where
  "elf_load_segments buf i s =
     bind_res (hdr_phnum buf s) (\<lambda>phnum.
       if i < unat phnum
       then
         bind_res (phdr_addr buf i s) (\<lambda>ph.
         bind_res (elf_load_segment buf ph s) (\<lambda>(ok, s).
           if ok then elf_load_segments buf (i + 1) s else Inr (False, s)))
       else Inr (True, s))"
  by pat_completeness auto
termination
  by (relation "measure (\<lambda>(buf, i, s). 65536 - i)") (simp_all add: phnum_bound)

declare elf_max_vaddr.simps [simp del] elf_map_loop.simps [simp del] elf_copy_loop.simps [simp del]
  elf_load_segments.simps [simp del]

text \<open>Fresh user pages at the given addresses, in order; \<open>False\<close>: out of memory.\<close>

primrec map_list :: "u64 list \<Rightarrow> 'a paging_state_scheme \<Rightarrow> bool \<times> 'a paging_state_scheme" where
  "map_list [] s = (True, s)"
| "map_list (v # vs) s =
     (let (ok, s) = map_fresh (PAGE_PRESENT OR PAGE_WRITABLE OR PAGE_USER) v s
      in if ok then map_list vs s else (False, s))"

definition stack_pages :: "u64 \<Rightarrow> u64 list" where
  "stack_pages stack_top = map (\<lambda>i. stack_top - of_nat (i + 1) * 4096) [0..<4]"

text \<open>The saved frame of a process that has not run yet.\<close>

definition initial_frame :: "u64 \<Rightarrow> u64 \<Rightarrow> u64 list" where
  "initial_frame stack_top rip = [0x23, stack_top, 0x202, 0x2B, rip, 0, 0] @ replicate 15 0"

text \<open>
  The descriptor both creation paths fill in, at index \<open>ti\<close>; \<open>want_pid > 0\<close> is used as it is.
\<close>

definition install_task ::
  "nat \<Rightarrow> u64 \<Rightarrow> u64 \<Rightarrow> u64 \<Rightarrow> u64 \<Rightarrow> u64 \<Rightarrow> kstate \<Rightarrow> u64 \<times> kstate" where
  "install_task ti kstack want_pid new_pml4 addr pages s =
     (let pid = (if want_pid > 0 then want_pid else ucast (next_pid s));
          s = (if want_pid > 0 then s else s\<lparr>next_pid := next_pid s + 1\<rparr>)
      in (pid, upd_task ti (\<lambda>t. ipc_init_task (t\<lparr>t_rsp := kstack, t_pid := pid, t_state := TASK_READY,
            stack_phys := kstack, user_stack_phys := 0, pml4_phys := new_pml4, load_addr := addr,
            code_pages := pages, wait_idx := - 1\<rparr>)) s))"

section \<open>Creation\<close>

text \<open>
  \<^verbatim>\<open>reuse\<close>: \<open>None\<close> when a live task already has the identifier, otherwise the last
  exited one that has it, if any.
\<close>

definition find_reuse :: "u64 \<Rightarrow> kstate \<Rightarrow> nat option option" where
  "find_reuse want_pid s =
     (if want_pid > 0
      then
        if find_live want_pid s \<noteq> None then None
        else Some (List.find (\<lambda>i. t_pid (task_at s i) = want_pid) (rev [0..<num_tasks s]))
      else Some None)"

text \<open>Load the segments and map the stack in the new address space, then switch back.\<close>

definition elf_load_image ::
  "u64 \<Rightarrow> u64 \<Rightarrow> u64 \<Rightarrow> 'a paging_state_scheme \<Rightarrow> (bool \<times> 'a paging_state_scheme) res" where
  "elf_load_image buf new_pml4 user_stack_top s =
     (let old_root = paging_root s;
          s = paging_switch new_pml4 s
      in bind_res (elf_load_segments buf 0 s) (\<lambda>(ok, s).
           if \<not> ok then Inr (False, paging_switch old_root s)
           else let (ok, s) = map_list (stack_pages user_stack_top) s
                in Inr (ok, paging_switch old_root s)))"

text \<open>Release the buffer, build the saved frame and fill in the descriptor.\<close>

definition elf_install ::
  "u64 list \<Rightarrow> u64 \<Rightarrow> nat option \<Rightarrow> u64 \<Rightarrow> u64 \<Rightarrow> u64 \<Rightarrow> kstate \<Rightarrow> (int \<times> kstate) res" where
  "elf_install buf_pages kstack reuse want_pid new_pml4 max_vaddr s =
     (let s = fold pmm_free_page buf_pages s
      in bind_res (hdr_entry (hd buf_pages) s) (\<lambda>rip.
           let (_, m) = push_words (initial_frame (max_vaddr + 0x20000) rip) (kstack + FRAME_SIZE) (mem s);
               s = s\<lparr>mem := m\<rparr>;
               ti = (case reuse of Some i \<Rightarrow> i | None \<Rightarrow> num_tasks s);
               (pid, s) = install_task ti kstack want_pid new_pml4 0x400000
                            ((max_vaddr - 0x400000 + 4095) div 4096) s;
               s = (if reuse = None then s\<lparr>num_tasks := num_tasks s + 1\<rparr> else s);
               s = kputhex pid (kputs ''[kernel] ELF process #'' s)
           in Inr (u64_to_int pid, kputs ('' created'' @ crlf) s)))"

text \<open>The part of \<^verbatim>\<open>create_elf\<close> from the checked header on.\<close>

definition elf_create_task ::
  "u64 list \<Rightarrow> u64 \<Rightarrow> u64 \<Rightarrow> kstate \<Rightarrow> (int \<times> kstate) res" where
  "elf_create_task buf_pages want_pid max_vaddr s =
     (if num_tasks s \<ge> MAX_TASKS then Inr (- 1, fold pmm_free_page buf_pages s)
      else
        let (kstack, s) = pmm_alloc_page s
        in if kstack = 0 then Inr (- 1, fold pmm_free_page buf_pages s)
           else
             case find_reuse want_pid s of
               None \<Rightarrow> Inr (- 1, fold pmm_free_page buf_pages (pmm_free_page kstack s))
             | Some reuse \<Rightarrow>
                 let (new_pml4, s) = paging_clone_kernel s
                 in if new_pml4 = 0
                    then Inr (- 1, fold pmm_free_page buf_pages (pmm_free_page kstack s))
                    else
                      bind_res (elf_load_image (hd buf_pages) new_pml4 (max_vaddr + 0x20000) s)
                        (\<lambda>(ok, s).
                           if ok then elf_install buf_pages kstack reuse want_pid new_pml4 max_vaddr s
                           else Inr (- 1, s)))"

definition create_elf :: "u64 \<Rightarrow> u64 \<Rightarrow> u64 \<Rightarrow> kstate \<Rightarrow> (int \<times> kstate) res" where
  "create_elf binary sz want_pid s =
     (if sz < 64 then Inr (- 1, s)
      else if sz > 65536 then Inr (- 1, s)
      else
        case alloc_buf (unat ((sz + 4095) div 4096)) [] s of
          (None, s) \<Rightarrow> Inr (- 1, s)
        | (Some buf_pages, s) \<Rightarrow>
            let buf = hd buf_pages
            in bind_res (vcopy (unat sz) buf binary s) (\<lambda>s.
               bind_res (vread32 buf s) (\<lambda>magic.
                 if magic \<noteq> ELF_MAGIC then Inr (- 1, fold pmm_free_page buf_pages s)
                 else
                   bind_res (elf_max_vaddr buf 0 0 s) (\<lambda>max_vaddr.
                     elf_create_task buf_pages want_pid ((max_vaddr + 4095) AND NOT 4095) s))))"

text \<open>
  \<^verbatim>\<open>task_create\<close> for a flat binary. When a code or stack page cannot be allocated it
  returns without switching back to the old address space.
\<close>

definition flat_install ::
  "u64 \<Rightarrow> u64 \<Rightarrow> u64 \<Rightarrow> u64 \<Rightarrow> u64 \<Rightarrow> kstate \<Rightarrow> int \<times> kstate" where
  "flat_install kstack want_pid new_pml4 addr pages s =
     (let (_, m) = push_words (initial_frame (addr + 0x100000) addr) (kstack + FRAME_SIZE) (mem s);
          s = s\<lparr>mem := m\<rparr>;
          (pid, s) = install_task (num_tasks s) kstack want_pid new_pml4 addr pages s;
          s = s\<lparr>num_tasks := num_tasks s + 1\<rparr>;
          s = kputhex pid (kputs ''[kernel] Process #'' s)
      in (u64_to_int pid, kputs ('' created'' @ crlf) s))"

definition flat_load ::
  "u64 \<Rightarrow> u64 \<Rightarrow> u64 \<Rightarrow> u64 \<Rightarrow> 'a paging_state_scheme \<Rightarrow> (bool \<times> 'a paging_state_scheme) res" where
  "flat_load binary sz addr new_pml4 s =
     (let old_root = paging_root s;
          s = paging_switch new_pml4 s;
          (ok, s) = map_list (map (\<lambda>i. addr + of_nat i * 4096) [0..<unat ((sz + 4095) div 4096)]) s
      in if \<not> ok then Inr (False, s)
         else
           let (ok, s) = map_list (stack_pages (addr + 0x100000)) s
           in if \<not> ok then Inr (False, s)
              else bind_res (vcopy (unat sz) addr binary s) (\<lambda>s. Inr (True, paging_switch old_root s)))"

definition task_create :: "u64 \<Rightarrow> u64 \<Rightarrow> u64 \<Rightarrow> u64 \<Rightarrow> kstate \<Rightarrow> (int \<times> kstate) res" where
  "task_create binary sz addr want_pid s =
     bind_res (if sz \<ge> 4 then bind_res (vread32 binary s) (\<lambda>w. Inr (w = ELF_MAGIC)) else Inr False)
       (\<lambda>is_elf.
         if is_elf then create_elf binary sz want_pid s
         else if num_tasks s \<ge> MAX_TASKS then Inr (- 1, s)
         else if (sz + 4095) div 4096 > 16
         then Inr (- 1, kputs (''[kernel] Process too large'' @ crlf) s)
         else
           let (kstack, s) = pmm_alloc_page s
           in if kstack = 0 then Inr (- 1, kputs (''[kernel] No memory for process'' @ crlf) s)
              else if want_pid > 0 \<and> find_live want_pid s \<noteq> None then Inr (- 1, s)
              else
                let (new_pml4, s) = paging_clone_kernel s
                in if new_pml4 = 0 then Inr (- 1, s)
                   else
                     bind_res (flat_load binary sz addr new_pml4 s) (\<lambda>(ok, s).
                       Inr (if ok then flat_install kstack want_pid new_pml4 addr ((sz + 4095) div 4096) s
                            else (- 1, s))))"

definition create_process :: "u64 \<Rightarrow> u64 \<Rightarrow> u64 \<Rightarrow> kstate \<Rightarrow> kstate res" where
  "create_process binary sz addr s = bind_res (task_create binary sz addr 0 s) (\<lambda>(_, s). Inr s)"

definition sys_spawn_at :: "u64 \<Rightarrow> u64 \<Rightarrow> kstate \<Rightarrow> (int \<times> kstate) res" where
  "sys_spawn_at addr sz s =
     (if addr = 0 \<or> sz = 0 then Inr (- 1, s)
      else
        bind_res (if sz \<ge> 4 then bind_res (vread32 addr s) (\<lambda>w. Inr (w = ELF_MAGIC)) else Inr False)
          (\<lambda>is_elf. if is_elf then create_elf addr sz 0 s else Inr (- 1, s)))"

end
