(* ===== verification/Elf_Invariants.thy ===== *)
theory Elf_Invariants
  imports Elf
begin

text \<open>
  Process creation keeps the kernel invariant, whatever the binary contains.
\<close>

section \<open>The loader leaves the kernel's own fields alone\<close>

lemma keeps_kernel_mem [simp, intro]: "keeps_kernel s (s\<lparr>mem := m\<rparr>)"
  by (simp add: keeps_kernel_def)

lemma keeps_kernel_vwrite: "vwrite bs va s = Inr t \<Longrightarrow> keeps_kernel s t"
  by (auto dest: vwrite_mem)

lemma keeps_kernel_vcopy: "vcopy n dst src s = Inr t \<Longrightarrow> keeps_kernel s t"
proof (induction n arbitrary: dst src s)
  case 0
  then show ?case by simp
next
  case (Suc n)
  then obtain u b where "vwrite b dst s = Inr u" "vcopy n (dst + 1) (src + 1) u = Inr t"
    by (auto simp: bind_res_Inr simp del: vread.simps)
  then show ?case using Suc.IH keeps_kernel_vwrite keeps_kernel_trans by blast
qed

lemma keeps_kernel_alloc_buf:
  fixes s :: "'a paging_state_scheme"
  shows "alloc_buf n ps s = (r, t) \<Longrightarrow> keeps_kernel s t"
proof (induction n arbitrary: ps s)
  case 0
  then show ?case by simp
next
  case (Suc n)
  obtain p u where u: "pmm_alloc_page s = (p, u)" by fastforce
  note k = keeps_kernel_alloc[OF u]
  show ?case
  proof (cases "p = 0")
    case True
    then have "t = fold pmm_free_page ps u" using Suc.prems u by simp
    then show ?thesis using keeps_kernel_trans[OF k] kk.fold_rel[of pmm_free_page u ps] by simp
  next
    case False
    then show ?thesis using Suc.IH[of "ps @ [p]" u] Suc.prems u keeps_kernel_trans[OF k] by simp
  qed
qed

lemma keeps_kernel_free_all [simp, intro]:
  fixes s :: "'a paging_state_scheme"
  shows "keeps_kernel s (fold pmm_free_page ps s)"
  by (rule kk.fold_rel) simp

lemma keeps_kernel_map_list: "map_list vs s = (ok, t) \<Longrightarrow> keeps_kernel s t"
proof (induction vs arbitrary: s)
  case Nil
  then show ?case by simp
next
  case (Cons v vs)
  obtain b u where u: "map_fresh 7 v s = (b, u)" by fastforce
  have "keeps_kernel s u" using keeps_kernel_fresh[of s 7 v] u by simp
  then show ?case
    using Cons u keeps_kernel_trans by (fastforce split: if_splits)
qed

lemma keeps_kernel_elf_map:
  "elf_map_loop ph v vend s = Inr (ok, t) \<Longrightarrow> keeps_kernel s t"
proof (induction ph v vend s rule: elf_map_loop.induct)
  case (1 ph v vend s)
  obtain p u where u: "pmm_alloc_page s = (p, u)" by fastforce
  note k = keeps_kernel_alloc[OF u]
  show ?case
  proof (cases "v < vend \<and> p \<noteq> 0")
    case True
    then obtain flags pg where f: "ph_flags ph u = Inr flags"
      "pg = (if flags AND 2 = 0 then (PAGE_PRESENT OR PAGE_USER OR PAGE_WRITABLE) AND NOT PAGE_WRITABLE
             else PAGE_PRESENT OR PAGE_USER OR PAGE_WRITABLE)"
      "\<not> v + 4096 < v" "elf_map_loop ph (v + 4096) vend (map_page v p pg u) = Inr (ok, t)"
      using "1.prems" u
      by (subst (asm) elf_map_loop.simps) (auto simp: Let_def bind_res_Inr split: if_splits)
    have "keeps_kernel (map_page v p pg u) t"
      using "1.IH"[OF conjunct1[OF True] refl u[symmetric] conjunct2[OF True] f(1) refl refl refl f(3)] f(2,4)
      by (simp only:)
    then show ?thesis
      using keeps_kernel_trans[OF k] keeps_kernel_trans[OF keeps_kernel_map_page] by blast
  next
    case False
    then show ?thesis
      using "1.prems" u k by (subst (asm) elf_map_loop.simps) (auto split: if_splits)
  qed
qed

lemma keeps_kernel_elf_copy:
  "elf_copy_loop ph src j s = Inr t \<Longrightarrow> keeps_kernel s t"
proof (induction ph src j s rule: elf_copy_loop.induct)
  case (1 ph src j s)
  obtain filesz where f: "ph_filesz ph s = Inr filesz"
    using "1.prems" by (subst (asm) elf_copy_loop.simps) (auto simp: bind_res_Inr)
  show ?case
  proof (cases "j < filesz")
    case True
    then obtain va b u where u: "ph_vaddr ph s = Inr va" "vread 1 (src + j) s = Inr b"
      "vwrite b (va + j) s = Inr u" "elf_copy_loop ph src (j + 1) u = Inr t"
      using "1.prems" f
      by (subst (asm) elf_copy_loop.simps) (auto simp: bind_res_Inr simp del: vread.simps)
    then show ?thesis
      using "1.IH"[OF f True u(1,2,3,4)] keeps_kernel_vwrite[OF u(3)] keeps_kernel_trans by blast
  next
    case False
    then show ?thesis using "1.prems" f by (subst (asm) elf_copy_loop.simps) simp
  qed
qed

lemma keeps_kernel_segment:
  assumes "elf_load_segment buf ph s = Inr (ok, t)"
  shows "keeps_kernel s t"
proof -
  obtain ty where ty: "ph_type ph s = Inr ty"
    using assms by (auto simp: elf_load_segment_def bind_res_Inr)
  show ?thesis
  proof (cases "ty = PT_LOAD")
    case True
    then obtain a b ok' u where u: "elf_map_loop ph a b s = Inr (ok', u)"
      "u = t \<or> (\<exists>src. elf_copy_loop ph src 0 u = Inr t)"
      using assms ty
      by (auto simp: elf_load_segment_def bind_res_Inr split: if_splits) blast+
    then show ?thesis
      using keeps_kernel_elf_map[OF u(1)] keeps_kernel_elf_copy keeps_kernel_trans by blast
  next
    case False
    then show ?thesis using assms ty by (simp add: elf_load_segment_def)
  qed
qed

lemma keeps_kernel_segments:
  "elf_load_segments buf i s = Inr (ok, t) \<Longrightarrow> keeps_kernel s t"
proof (induction buf i s rule: elf_load_segments.induct)
  case (1 buf i s)
  obtain phnum where n: "hdr_phnum buf s = Inr phnum"
    using "1.prems" by (subst (asm) elf_load_segments.simps) (auto simp: bind_res_Inr)
  show ?case
  proof (cases "i < unat phnum")
    case True
    then obtain ph ok' u where u: "phdr_addr buf i s = Inr ph" "elf_load_segment buf ph s = Inr (ok', u)"
      "if ok' then elf_load_segments buf (i + 1) u = Inr (ok, t) else u = t"
      using "1.prems" n
      by (subst (asm) elf_load_segments.simps) (auto simp: bind_res_Inr split: if_splits)
    note k = keeps_kernel_segment[OF u(2)]
    show ?thesis
    proof (cases ok')
      case True
      then show ?thesis
        using "1.IH"[OF n \<open>i < unat phnum\<close> u(1,2) refl True] u(3) keeps_kernel_trans[OF k] by simp
    next
      case False
      then show ?thesis using u(3) k by simp
    qed
  next
    case False
    then show ?thesis using "1.prems" n by (subst (asm) elf_load_segments.simps) simp
  qed
qed

lemma keeps_kernel_load_image:
  fixes s t :: "'a paging_state_scheme"
  assumes "elf_load_image buf pml4 stack_top s = Inr (ok, t)" "paging_root s = cr3 s"
  shows "keeps_kernel s t"
proof -
  obtain ok' u where u: "elf_load_segments buf 0 (paging_switch pml4 s) = Inr (ok', u)"
    "\<exists>w. keeps_kernel u w \<and> t = paging_switch (paging_root s) w"
    using assms(1)
    by (auto simp: elf_load_image_def Let_def bind_res_Inr split: if_splits prod.splits
        dest: keeps_kernel_map_list)
  then obtain w where w: "keeps_kernel (paging_switch pml4 s) w" "t = paging_switch (paging_root s) w"
    using keeps_kernel_segments[OF u(1)] keeps_kernel_trans by blast
  then show ?thesis using switch_back[OF w(1)] assms(2) by (simp add: keeps_kernel_def)
qed

lemma keeps_kernel_clone_entries: "keeps_kernel s (clone_entries src dst s)"
  unfolding clone_entries_def by (rule kk.fold_rel) simp

lemma keeps_kernel_after:
  assumes "keeps_kernel s t"
  shows "keeps_kernel s (set_entry a i v t)" "keeps_kernel s (kputs str t)"
    "keeps_kernel s (clone_entries src dst t)"
  using keeps_kernel_trans[OF assms] keeps_kernel_clone_entries by auto

lemma keeps_kernel_clone: "paging_clone_kernel s = (r, t) \<Longrightarrow> keeps_kernel s t"
proof -
  assume run: "paging_clone_kernel s = (r, t)"
  obtain a s1 where 1: "pmm_alloc_page s = (a, s1)" by fastforce
  obtain b s2 where 2: "pmm_alloc_page s1 = (b, s2)" by fastforce
  obtain c s3 where 3: "pmm_alloc_page s2 = (c, s3)" by fastforce
  have k: "keeps_kernel s s3"
    using keeps_kernel_alloc[OF 1] keeps_kernel_alloc[OF 2] keeps_kernel_alloc[OF 3] keeps_kernel_trans
    by blast
  show ?thesis
    using run 1 2 3 k
    by (auto simp: paging_clone_kernel_def Let_def split: if_splits intro!: keeps_kernel_after)
qed

section \<open>Creation keeps the invariant\<close>

text \<open>
  The identifiers a task may be created with: the next one of the counter (\<open>want_pid = 0\<close>),
  or 1, for \<^verbatim>\<open>init\<close>, while no task has it.
\<close>

definition want_ok :: "u64 \<Rightarrow> kstate \<Rightarrow> bool" where
  "want_ok w s \<longleftrightarrow> w = 0 \<or> w = 1 \<and> (\<forall>i < num_tasks s. t_pid (tasks s ! i) \<noteq> 1)"

lemma want_ok_0 [simp]: "want_ok 0 s"
  by (simp add: want_ok_def)

lemma want_ok_keeps: "keeps_kernel s t \<Longrightarrow> want_ok w t = want_ok w s"
  by (simp add: want_ok_def keeps_kernel_fields)

lemma want_ok_mem [simp]: "want_ok w (s\<lparr>mem := m\<rparr>) = want_ok w s"
  by (simp add: want_ok_def)

lemma want_ok_reuse: "want_ok w s \<Longrightarrow> find_reuse w s = Some None"
  by (auto simp: want_ok_def find_reuse_def find_live_def find_task_None find_None_iff)

lemma current_task_output:
  "current_task (kputs str s) = current_task s" "current_task (kputhex v s) = current_task s"
  by (simp_all add: kputs_def kputhex_def)

lemma keeps_created:
  "keeps_kernel s t \<Longrightarrow> kernel_inv s \<Longrightarrow> kernel_inv t \<and> current_task t = current_task s"
  by (simp add: kernel_inv_keeps keeps_kernel_fields)

lemma install_task_inv:
  assumes "kernel_inv s" "num_tasks s < 64" "want_ok w s"
    and "install_task (num_tasks s) kstack w pml4 addr pages s = (pid, t)"
  shows "kernel_inv (t\<lparr>num_tasks := num_tasks t + 1\<rparr>)" "current_task t = current_task s"
proof -
  let ?np = "if w > 0 then next_pid s else next_pid s + 1"
  let ?f = "\<lambda>t. ipc_init_task (t\<lparr>t_rsp := kstack, t_pid := pid, t_state := TASK_READY,
    stack_phys := kstack, user_stack_phys := 0, pml4_phys := pml4, load_addr := addr,
    code_pages := pages, wait_idx := - 1\<rparr>)"
  have t: "t = upd_task (num_tasks s) ?f (s\<lparr>next_pid := ?np\<rparr>)"
    "pid = (if w > 0 then w else ucast (next_pid s))"
    using assms(4) by (auto simp: install_task_def Let_def)
  have "pid_available pid ?np s"
    using assms(1-3) pid_available_next pid_available_init unfolding t(2)
    by (auto simp: want_ok_def kernel_inv_def)
  then show "kernel_inv (t\<lparr>num_tasks := num_tasks t + 1\<rparr>)" "current_task t = current_task s"
    using kernel_inv_add_task[OF assms(1,2), of pid ?np ?f] kernel_inv_task[OF assms(1,2)] fresh_descriptor t(1)
    by simp_all
qed

lemma elf_install_inv:
  assumes "elf_install buf_pages kstack None w pml4 mv s = Inr (r, t)" "kernel_inv s" "num_tasks s < 64"
    and "want_ok w s"
  shows "kernel_inv t \<and> current_task t = current_task s"
proof -
  let ?s = "fold pmm_free_page buf_pages s"
  have s: "kernel_inv ?s" "num_tasks ?s < 64" "want_ok w ?s"
    using kernel_inv_keeps[OF keeps_kernel_free_all assms(2)] want_ok_keeps[OF keeps_kernel_free_all]
      keeps_kernel_fields(3)[OF keeps_kernel_free_all[of s buf_pages]] assms(3,4) by simp_all
  obtain rip where rip: "hdr_entry (hd buf_pages) ?s = Inr rip"
    using assms(1) by (auto simp: elf_install_def Let_def bind_res_Inr)
  obtain sp m where m: "push_words (initial_frame (mv + 0x20000) rip) (kstack + FRAME_SIZE) (mem ?s) = (sp, m)"
    by fastforce
  obtain pid u where u: "install_task (num_tasks ?s) kstack w pml4 0x400000
      ((mv - 0x400000 + 4095) div 4096) (?s\<lparr>mem := m\<rparr>) = (pid, u)" by fastforce
  have "t = kputs ('' created'' @ crlf) (kputhex pid (kputs ''[kernel] ELF process #''
      (u\<lparr>num_tasks := num_tasks u + 1\<rparr>)))"
    using assms(1) rip m u by (simp add: elf_install_def Let_def)
  then show ?thesis
    using install_task_inv[of "?s\<lparr>mem := m\<rparr>"] s u keeps_kernel_fields(2)[OF keeps_kernel_free_all[of s buf_pages]]
    by (simp add: current_task_output)
qed

lemma elf_create_task_inv:
  assumes "elf_create_task buf_pages w mv s = Inr (r, t)" "kernel_inv s" "want_ok w s"
  shows "kernel_inv t \<and> current_task t = current_task s"
proof (cases "num_tasks s \<ge> 64")
  case True
  then have "t = fold pmm_free_page buf_pages s" using assms(1) by (simp add: elf_create_task_def)
  then show ?thesis using keeps_created[OF keeps_kernel_free_all assms(2)] by simp
next
  case room: False
  obtain k u where k: "pmm_alloc_page s = (k, u)" by fastforce
  obtain p x where p: "paging_clone_kernel u = (p, x)" by fastforce
  have ku: "keeps_kernel s u" using keeps_kernel_alloc[OF k] .
  have kx: "keeps_kernel s x" using keeps_kernel_trans[OF ku keeps_kernel_clone[OF p]] .
  have x: "kernel_inv x" "num_tasks x < 64" "want_ok w x"
    using kernel_inv_keeps[OF kx assms(2)] keeps_kernel_fields(3)[OF kx] want_ok_keeps[OF kx] room assms(3)
    by simp_all
  have reuse: "find_reuse w u = Some None" using want_ok_reuse want_ok_keeps[OF ku] assms(3) by blast
  show ?thesis
  proof (cases "k = 0 \<or> p = 0")
    case True
    then have "keeps_kernel s t"
      using assms(1) room k p ku kx reuse
      by (auto simp: elf_create_task_def split: if_splits
          intro: keeps_kernel_trans[OF _ keeps_kernel_free_all] keeps_kernel_trans[OF _ keeps_kernel_basic(2)])
    then show ?thesis using keeps_created assms(2) by blast
  next
    case False
    then obtain ok v where v: "elf_load_image (hd buf_pages) p (mv + 0x20000) x = Inr (ok, v)"
      "if ok then elf_install buf_pages k None w p mv v = Inr (r, t) else t = v"
      using assms(1) room k p reuse by (auto simp: elf_create_task_def bind_res_Inr split: if_splits)
    note kv = keeps_kernel_load_image[OF v(1) kernel_inv_bounds(8)[OF x(1)]]
    have "kernel_inv v" "num_tasks v < 64" "want_ok w v"
      using kernel_inv_keeps[OF kv x(1)] keeps_kernel_fields(3)[OF kv] want_ok_keeps[OF kv] x(2,3) by simp_all
    then show ?thesis
      using v(2) elf_install_inv[of buf_pages k w p mv v r t] keeps_kernel_fields(2)[OF kv]
        keeps_kernel_fields(2)[OF kx] by (cases ok) simp_all
  qed
qed

lemma create_elf_inv:
  assumes "create_elf binary sz w s = Inr (r, t)" "kernel_inv s" "want_ok w s"
  shows "kernel_inv t \<and> current_task t = current_task s"
proof (cases "sz < 64 \<or> sz > 65536")
  case True
  then show ?thesis using assms by (auto simp: create_elf_def split: if_splits)
next
  case False
  obtain ps u where u: "alloc_buf (unat ((sz + 4095) div 4096)) [] s = (ps, u)" by fastforce
  have ku: "kernel_inv u" "want_ok w u"
    using kernel_inv_keeps[OF keeps_kernel_alloc_buf[OF u] assms(2)]
      want_ok_keeps[OF keeps_kernel_alloc_buf[OF u]] assms(3) by simp_all
  show ?thesis
  proof (cases ps)
    case None
    then show ?thesis
      using assms(1) False u ku keeps_kernel_fields(2)[OF keeps_kernel_alloc_buf[OF u]] by (simp add: create_elf_def)
  next
    case (Some bs)
    then obtain x where x: "vcopy (unat sz) (hd bs) binary u = Inr x"
      "t = fold pmm_free_page bs x \<or> (\<exists>mv. elf_create_task bs w mv x = Inr (r, t))"
      using assms(1) False u by (auto simp: create_elf_def Let_def bind_res_Inr split: if_splits)
    have "kernel_inv x" "want_ok w x"
      using kernel_inv_keeps[OF keeps_kernel_vcopy[OF x(1)] ku(1)]
        want_ok_keeps[OF keeps_kernel_vcopy[OF x(1)]] ku(2) by simp_all
    then show ?thesis
      using x(2) elf_create_task_inv keeps_created[OF keeps_kernel_free_all]
        keeps_kernel_fields(2)[OF keeps_kernel_alloc_buf[OF u]] keeps_kernel_fields(2)[OF keeps_kernel_vcopy[OF x(1)]]
      by metis
  qed
qed

lemma sys_spawn_at_inv:
  assumes "sys_spawn_at addr sz s = Inr (r, t)" "kernel_inv s"
  shows "kernel_inv t"
  using assms create_elf_inv[OF _ _ want_ok_0, THEN conjunct1]
  by (auto simp: sys_spawn_at_def bind_res_Inr split: if_splits)

section \<open>Flat binaries\<close>

text \<open>
  When a page is missing, \<^verbatim>\<open>task_create\<close> returns in the new address space: the root
  changes, and the processor's with it.
\<close>

lemma flat_load_keeps:
  assumes "flat_load binary sz addr pml4 s = Inr (ok, t)" "paging_root s = cr3 s"
  shows "paging_state.more t = paging_state.more s" "paging_root t = cr3 t"
proof -
  obtain a u where u: "map_list (map (\<lambda>i. addr + of_nat i * 4096) [0..<unat ((sz + 4095) div 4096)])
      (paging_switch pml4 s) = (a, u)" by fastforce
  obtain b v where v: "map_list (stack_pages (addr + 0x100000)) u = (b, v)" by fastforce
  have k: "keeps_kernel (paging_switch pml4 s) u" "keeps_kernel (paging_switch pml4 s) v"
    using keeps_kernel_map_list[OF u] keeps_kernel_map_list[OF v] keeps_kernel_trans by blast+
  have "t = u \<or> t = v \<or> (\<exists>w. keeps_kernel v w \<and> t = paging_switch (paging_root s) w)"
    using assms(1) u v by (auto simp: flat_load_def Let_def bind_res_Inr split: if_splits dest: keeps_kernel_vcopy)
  then show "paging_state.more t = paging_state.more s" "paging_root t = cr3 t"
    using k keeps_kernel_trans[OF k(2)] by (auto simp: keeps_kernel_def paging_switch_def)
qed

lemma flat_install_inv:
  assumes "flat_install kstack w pml4 addr pages s = (r, t)" "kernel_inv s" "num_tasks s < 64" "want_ok w s"
  shows "kernel_inv t \<and> current_task t = current_task s"
proof -
  obtain sp m where m: "push_words (initial_frame (addr + 0x100000) addr) (kstack + FRAME_SIZE) (mem s) = (sp, m)"
    by fastforce
  obtain pid u where u: "install_task (num_tasks s) kstack w pml4 addr pages (s\<lparr>mem := m\<rparr>) = (pid, u)"
    by fastforce
  have "t = kputs ('' created'' @ crlf) (kputhex pid (kputs ''[kernel] Process #''
      (u\<lparr>num_tasks := num_tasks u + 1\<rparr>)))"
    using assms(1) m u by (simp add: flat_install_def Let_def)
  then show ?thesis
    using install_task_inv[of "s\<lparr>mem := m\<rparr>"] assms(2-4) u by (simp add: current_task_output)
qed

lemma task_create_inv:
  assumes "task_create binary sz addr w s = Inr (r, t)" "kernel_inv s" "want_ok w s"
  shows "kernel_inv t \<and> current_task t = current_task s"
proof -
  obtain elf where elf: "(if sz \<ge> 4 then bind_res (vread32 binary s) (\<lambda>w. Inr (w = ELF_MAGIC)) else Inr False)
      = Inr elf"
    using assms(1) by (auto simp: task_create_def bind_res_Inr)
  obtain k u where k: "pmm_alloc_page s = (k, u)" by fastforce
  obtain p x where p: "paging_clone_kernel u = (p, x)" by fastforce
  have ku: "keeps_kernel s u" using keeps_kernel_alloc[OF k] .
  have kx: "keeps_kernel s x" using keeps_kernel_trans[OF ku keeps_kernel_clone[OF p]] .
  have x: "kernel_inv x" using kernel_inv_keeps[OF kx assms(2)] .
  consider "create_elf binary sz w s = Inr (r, t)" | "keeps_kernel s t"
    | ok v where "flat_load binary sz addr p x = Inr (ok, v)" "num_tasks s < 64"
      "(if ok then flat_install k w p addr ((sz + 4095) div 4096) v else (- 1, v)) = (r, t)"
    using assms(1) elf k p ku kx keeps_kernel_after(2)[OF ku] keeps_kernel_after(2)[OF keeps_kernel_refl[of s]]
    by (auto simp: task_create_def bind_res_Inr split: if_splits)
  then show ?thesis
  proof cases
    case 1
    then show ?thesis using create_elf_inv assms(2,3) by blast
  next
    case 2
    then show ?thesis using keeps_created assms(2) by blast
  next
    case 3
    note f = flat_load_keeps[OF 3(1) kernel_inv_bounds(8)[OF x]]
    have v: "kernel_inv v" using kernel_inv_cong[OF f x] .
    have "num_tasks v < 64" "want_ok w v"
      using kernel_fields_cong[OF f(1)] keeps_kernel_fields[OF kx] 3(2) assms(3) by (simp_all add: want_ok_def)
    then show ?thesis
      using 3(3) v flat_install_inv[of k w p addr "(sz + 4095) div 4096" v r t] kernel_fields_cong(2)[OF f(1)]
        keeps_kernel_fields(2)[OF kx]
      by (auto split: if_splits)
  qed
qed

end
