(* ===== verification/Interrupts.thy ===== *)
theory Interrupts
  imports Elf_Invariants
begin

text \<open>
  \<^verbatim>\<open>kernel/idt.c\<close> and \<^verbatim>\<open>kernel/syscall.c\<close>: the interrupt descriptor table, the
  interrupt controller and timer set-up, the scheduler, the system-call dispatcher and the
  common interrupt handler, with the sleep of \<^verbatim>\<open>kernel/task.c\<close>, which waits for timer
  interrupts. A saved register frame is 22 words in memory at the address the assembly
  stubs pass (\<^verbatim>\<open>registers_t\<close>).
\<close>

section \<open>Interrupt tables\<close>

definition idt_set_entry :: "nat \<Rightarrow> u64 \<Rightarrow> u8 \<Rightarrow> kstate \<Rightarrow> kstate" where
  "idt_set_entry n handler flags s =
     s\<lparr>idt := (idt s)[n := \<lparr>offset_0 = ucast (handler AND 0xFFFF), selector = 0x18, ist = 0,
          gate_flags = flags, offset_1 = ucast (drop_bit 16 handler AND 0xFFFF),
          offset_2 = ucast (drop_bit 32 handler AND 0xFFFFFFFF), gate_reserved = 0\<rparr>]\<rparr>"

text \<open>The addresses \<open>isr\<close> of the assembly stubs are a parameter.\<close>

definition idt_init :: "(nat \<Rightarrow> u64) \<Rightarrow> kstate \<Rightarrow> kstate" where
  "idt_init isr s =
     (let s = s\<lparr>idtr_limit := 256 * 16 - 1\<rparr>;
          s = s\<lparr>irq_handlers := fold (\<lambda>i hs. hs[i := - 1]) [0..<16] (irq_handlers s)\<rparr>;
          s = fold (\<lambda>i. idt_set_entry i 0 0x8E) [0..<48] s;
          s = fold (\<lambda>i. idt_set_entry i (isr i) 0x8E) [0..<48] s
      in idt_set_entry 0x80 (isr 128) 0xEF s)"

definition pic_remap :: "kstate \<Rightarrow> kstate" where
  "pic_remap s =
     (let s = io_wait (outb 0x20 0x11 s);
          s = io_wait (outb 0xA0 0x11 s);
          s = io_wait (outb 0x21 0x20 s);
          s = io_wait (outb 0xA1 0x28 s);
          s = io_wait (outb 0x21 0x04 s);
          s = io_wait (outb 0xA1 0x02 s);
          s = io_wait (outb 0x21 0x01 s);
          s = io_wait (outb 0xA1 0x01 s);
          s = outb 0x21 0xFC s
      in outb 0xA1 0xFF s)"

definition pit_init :: "u32 \<Rightarrow> kstate \<Rightarrow> kstate res" where
  "pit_init frequency s =
     (if frequency = 0 then Inl Undefined
      else
        let divisor = 1193182 div frequency;
            s = outb 0x43 0x36 s;
            s = outb 0x40 (ucast (divisor AND 0xFF)) s
        in Inr (outb 0x40 (ucast (drop_bit 8 divisor AND 0xFF)) s))"

definition sys_irq_register :: "u64 \<Rightarrow> kstate \<Rightarrow> int \<times> kstate" where
  "sys_irq_register irq s =
     (if irq \<ge> 16 then (- 1, s)
      else if current_task s < 0 then (- 1, s)
      else (0, s\<lparr>irq_handlers := (irq_handlers s)[unat irq := current_task s]\<rparr>))"

section \<open>Hardware interrupts\<close>

definition keyboard_irq :: "kstate \<Rightarrow> kstate" where
  "keyboard_irq s =
     (let idx = irq_handlers s ! 1
      in if 0 \<le> idx \<and> idx < int MAX_TASKS \<and> t_state (task_at s (nat idx)) \<noteq> TASK_EXITED
         then
           let (sc, s) = inb 0x60 s
           in if ipc_count (task_at s (nat idx)) < IPC_QUEUE_SIZE
              then upd_task (nat idx) (ipc_put 0 0 [sc]) s
              else s
         else s)"

text \<open>Vectors 32 to 47, up to the point where the timer may reschedule.\<close>

definition irq_common :: "nat \<Rightarrow> kstate \<Rightarrow> kstate" where
  "irq_common n s =
     (let s = (if n \<ge> 40 then outb 0xA0 0x20 s else s);
          s = outb 0x20 0x20 s;
          s = (if n = 32 then s\<lparr>ticks := ticks s + 1\<rparr> else s)
      in if n = 33 then keyboard_irq s else s)"

text \<open>
  \<^verbatim>\<open>sys_nanosleep\<close> halts until the tick counter has advanced far enough. Each \<^verbatim>\<open>hlt\<close>
  ends with the next interrupt of the sequence \<open>irqs\<close>; an interrupt taken here interrupts
  kernel code, so the timer does not reschedule. If the sequence ends first, the sleeper
  is still waiting.
\<close>

primrec nanosleep_loop :: "nat list \<Rightarrow> u64 \<Rightarrow> u64 \<Rightarrow> kstate \<Rightarrow> kstate res" where
  "nanosleep_loop [] start target s =
     (if ticks s - start < target then bind_res (current_index s) (\<lambda>_. Inl Waiting) else Inr s)"
| "nanosleep_loop (n # irqs) start target s =
     (if ticks s - start < target
      then bind_res (current_index s) (\<lambda>c.
             nanosleep_loop irqs start target (irq_common n (set_state c TASK_BLOCKED s)))
      else Inr s)"

definition sys_nanosleep :: "nat list \<Rightarrow> u64 \<Rightarrow> kstate \<Rightarrow> (int \<times> kstate) res" where
  "sys_nanosleep irqs ns s =
     (let start = ticks s; target = ns div 2000000
      in bind_res (nanosleep_loop irqs start target s) (\<lambda>s.
         bind_res (current_index s) (\<lambda>c. Inr (0, set_state c TASK_RUNNING s))))"

section \<open>System calls\<close>

definition ret_int :: "int \<times> kstate \<Rightarrow> (u64 \<times> kstate) res" where
  "ret_int r = Inr (int_to_u64 (fst r), snd r)"

definition syscall_handler ::
  "nat list \<Rightarrow> u64 \<Rightarrow> u64 \<Rightarrow> u64 \<Rightarrow> u64 \<Rightarrow> u64 \<Rightarrow> kstate \<Rightarrow> (u64 \<times> kstate) res" where
  "syscall_handler irqs n arg1 arg2 arg3 arg4 s =
     (if n = 0 then bind_res (sys_exit s) (\<lambda>s. Inr (0, s))
      else if n = 1 then Inr (sys_getpid s, s)
      else if n = 2 then bind_res (sys_send arg1 arg2 arg3 arg4 s) ret_int
      else if n = 3 then bind_res (sys_recv arg1 s) ret_int
      else if n = 4 then (let (v, s) = inb (ucast arg1) s in Inr (ucast v, s))
      else if n = 5 then Inr (0, outb (ucast arg1) (ucast arg2) s)
      else if n = 7 then bind_res (sys_wait arg1 s) ret_int
      else if n = 8 then bind_res (sys_wait_any s) ret_int
      else if n = 9 then ret_int (sys_getstate arg1 s, s)
      else if n = 10 then ret_int (sys_irq_register arg1 s)
      else if n = 11 then bind_res (sys_mmap arg1 arg2 arg3 s) ret_int
      else if n = 12 then bind_res (sys_munmap arg1 arg2 s) ret_int
      else if n = 13 then bind_res (sys_kill arg1 s) ret_int
      else if n = 14 then bind_res (sys_nanosleep irqs arg1 s) ret_int
      else if n = 15 then Inr (sys_getticks s, s)
      else if n = 16 then Inr (0, outb 0xE9 (ucast arg1) s)
      else if n = 17 then Inl Halted
      else if n = 18 then bind_res (sys_mprotect arg1 arg2 arg3 s) ret_int
      else if n = 19 then bind_res (sys_brk arg1 s) ret_int
      else if n = 20 then
        (let s = outb 0x20 0x20 s in Inr (0, if arg1 \<ge> 8 then outb 0xA0 0x20 s else s))
      else if n = 21 then ret_int (sys_clone arg1 arg2 arg3 arg4 s)
      else if n = 22 then bind_res (sys_futex arg1 (u64_to_int arg2) (ucast arg3) s) ret_int
      else if n = 23 then bind_res (sys_mmap_phys arg1 arg2 arg3 arg4 s) ret_int
      else if n = 24 then (let (v, s) = inw (ucast arg1) s in Inr (ucast v, s))
      else if n = 25 then Inr (0, outw (ucast arg1) (ucast arg2) s)
      else if n = 26 then bind_res (sys_spawn_at arg1 arg2 s) ret_int
      else if n = 27 then Inr (0, s)
      else Inr (0, kputs crlf (kputhex n (kputs ''[kernel] Unknown syscall: '' s))))"

section \<open>Frames and scheduling\<close>

text \<open>Word \<open>k\<close> of the frame at \<open>r\<close>; the indices follow \<^verbatim>\<open>registers_t\<close>.\<close>

definition reg :: "memory \<Rightarrow> u64 \<Rightarrow> nat \<Rightarrow> u64" where
  "reg m r k = read64 m (slot r (of_nat k))"

abbreviation "R_RBP \<equiv> 8 :: nat"
abbreviation "R_RDI \<equiv> 9 :: nat"
abbreviation "R_RSI \<equiv> 10 :: nat"
abbreviation "R_RDX \<equiv> 11 :: nat"
abbreviation "R_RCX \<equiv> 12 :: nat"
abbreviation "R_RAX \<equiv> 14 :: nat"
abbreviation "R_INT_NO \<equiv> 15 :: nat"
abbreviation "R_ERR \<equiv> 16 :: nat"
abbreviation "R_RIP \<equiv> 17 :: nat"
abbreviation "R_CS \<equiv> 18 :: nat"
abbreviation "R_RSP \<equiv> 20 :: nat"
abbreviation "FRAME_WORDS \<equiv> 22 :: nat"

definition frame_of :: "memory \<Rightarrow> u64 \<Rightarrow> u64 list" where
  "frame_of m r = map (reg m r) [0..<FRAME_WORDS]"

definition copy_frame :: "u64 \<Rightarrow> u64 \<Rightarrow> memory \<Rightarrow> memory" where
  "copy_frame dst r m = fold (\<lambda>i m. write64 (slot dst (of_nat i)) (reg m r i) m) [0..<FRAME_WORDS] m"

definition save_frame :: "u64 \<Rightarrow> kstate \<Rightarrow> kstate res" where
  "save_frame r s =
     bind_res (current_index s) (\<lambda>c.
       let dst = stack_phys (task_at s c);
           s = s\<lparr>mem := copy_frame dst r (mem s)\<rparr>
       in Inr (upd_task c (\<lambda>t. t\<lparr>t_rsp := dst\<rparr>) s))"

text \<open>The candidates of \<^verbatim>\<open>schedule_next\<close>, in the order it tries them.\<close>

definition candidates :: "kstate \<Rightarrow> int list" where
  "candidates s = map (\<lambda>i. (current_task s + int i) mod int (num_tasks s)) [1..<num_tasks s]"

definition schedule_next :: "kstate \<Rightarrow> int \<times> kstate" where
  "schedule_next s =
     (if num_tasks s \<le> 1 then (current_task s, s)
      else
        case List.find (\<lambda>n. t_state (task_at s (nat n)) = TASK_READY) (candidates s) of
          Some n \<Rightarrow> (n, set_state (nat n) TASK_RUNNING s)
        | None \<Rightarrow> (current_task s, s))"

text \<open>
  Both users of \<^verbatim>\<open>schedule_next\<close> go on in the same way: mark the task running, make it
  current, switch to its address space and return its saved frame.
\<close>

definition switch_to_next :: "kstate \<Rightarrow> (u64 \<times> kstate) res" where
  "switch_to_next s =
     (let (next, s) = schedule_next s
      in if next < 0 \<or> next \<ge> int MAX_TASKS then Inl Undefined
         else
           let n = nat next;
               s = set_state n TASK_RUNNING s;
               s = s\<lparr>current_task := next\<rparr>;
               s = (if pml4_phys (task_at s n) \<noteq> 0 then paging_switch (pml4_phys (task_at s n)) s else s)
           in Inr (t_rsp (task_at s n), s))"

definition schedule :: "u64 \<Rightarrow> kstate \<Rightarrow> (u64 \<times> kstate) res" where
  "schedule r s =
     bind_res
       (if current_task s \<ge> 0
        then bind_res (save_frame r s) (\<lambda>s. Inr (set_state (nat (current_task s)) TASK_READY s))
        else Inr s)
       switch_to_next"

section \<open>The common handler\<close>

definition puts_reg :: "string \<Rightarrow> u64 \<Rightarrow> kstate \<Rightarrow> kstate" where
  "puts_reg str v s = kputhex v (kputs str s)"

text \<open>The page-table dump of a kernel page fault at \<open>cr2\<close>.\<close>

definition dump_index :: "string \<Rightarrow> u64 \<Rightarrow> u64 \<Rightarrow> kstate \<Rightarrow> kstate" where
  "dump_index name i e s = kputhex e (kputs '']'' (kputhex i (kputs name s)))"

definition panic_tables :: "u64 \<Rightarrow> kstate \<Rightarrow> kstate" where
  "panic_tables cr2 s =
     (let m = mem s;
          s = puts_reg '' CR2: '' cr2 s;
          s = puts_reg '' CR3: '' (cr3 s) s;
          e4 = entry m (cr3 s) (pml4_i cr2);
          s = dump_index '' PML4['' (pml4_i cr2) e4 s
      in if e4 AND 1 = 0 then s
         else
           let e3 = entry m (e4 AND NOT 0xFFF) (pdpt_i cr2);
               s = dump_index '' PDPT['' (pdpt_i cr2) e3 s
           in if e3 AND 1 = 0 then s
              else
                let e2 = entry m (e3 AND NOT 0xFFF) (pdt_i cr2);
                    s = dump_index '' PDT['' (pdt_i cr2) e2 s
                in if e2 AND 1 \<noteq> 0 \<and> e2 AND PAGE_PS = 0
                   then dump_index '' PT['' (pt_i cr2) (entry m (e2 AND NOT 0xFFF) (pt_i cr2)) s
                   else s)"

text \<open>The state in which a panic halts the machine.\<close>

definition panic :: "u64 \<Rightarrow> u64 \<Rightarrow> kstate \<Rightarrow> kstate" where
  "panic cr2 r s =
     (let m = mem s; n = reg m r R_INT_NO;
          s = puts_reg (crlf @ ''[PANIC] Exception '') n s;
          s = puts_reg '' err: '' (reg m r R_ERR) s;
          s = puts_reg '' RIP: '' (reg m r R_RIP) s;
          s = puts_reg '' RSP: '' (reg m r R_RSP) s;
          s = puts_reg '' RBP: '' (reg m r R_RBP) s;
          s = (if n = 14 then panic_tables cr2 s else s)
      in kputs crlf s)"

text \<open>
  A page fault of user code: the process exits and the first ready task runs; if there is
  none, the processor halts.
\<close>

definition user_page_fault :: "u64 \<Rightarrow> u64 \<Rightarrow> kstate \<Rightarrow> (u64 \<times> kstate) res" where
  "user_page_fault cr2 r s =
     (let m = mem s;
          s = puts_reg (crlf @ ''[PF] PID '')
                (if current_task s \<ge> 0 then t_pid (task_at s (nat (current_task s))) else 0) s;
          s = puts_reg '' addr '' cr2 s;
          s = puts_reg '' RIP: '' (reg m r R_RIP) s;
          s = kputs crlf s
      in bind_res (sys_exit s) (\<lambda>s.
           case find_task (\<lambda>_ t. t_state t = TASK_READY) s of
             None \<Rightarrow> Inl Halted
           | Some i \<Rightarrow>
               let s = set_state i TASK_RUNNING s;
                   s = s\<lparr>current_task := int i\<rparr>;
                   s = (if pml4_phys (task_at s i) \<noteq> 0 then paging_switch (pml4_phys (task_at s i)) s else s)
               in Inr (t_rsp (task_at s i), s)))"

definition syscall_interrupt :: "nat list \<Rightarrow> u64 \<Rightarrow> kstate \<Rightarrow> (u64 \<times> kstate) res" where
  "syscall_interrupt irqs r s =
     (let m = mem s
      in bind_res (syscall_handler irqs (reg m r R_RAX) (reg m r R_RDI) (reg m r R_RSI)
                     (reg m r R_RDX) (reg m r R_RCX) s) (\<lambda>(rax, s).
           let s = s\<lparr>mem := write64 (slot r (of_nat R_RAX)) rax (mem s)\<rparr>
           in if num_tasks s > 1
              then
                bind_res (save_frame r s) (\<lambda>s.
                  let c = nat (current_task s);
                      s = (if t_state (task_at s c) \<noteq> TASK_BLOCKED \<and> t_state (task_at s c) \<noteq> TASK_EXITED
                           then set_state c TASK_READY s else s)
                  in switch_to_next s)
              else Inr (r, s)))"

definition isr_handler :: "nat list \<Rightarrow> u64 \<Rightarrow> u64 \<Rightarrow> kstate \<Rightarrow> (u64 \<times> kstate) res" where
  "isr_handler irqs cr2 r s =
     (let n = reg (mem s) r R_INT_NO; user = (reg (mem s) r R_CS AND 3 \<noteq> 0)
      in if n \<le> 31 then
           if n = 14 \<and> user then user_page_fault cr2 r s else Inl Halted
         else if n \<ge> 32 \<and> n \<le> 47 then
           let s = irq_common (unat n) s
           in if n = 32 \<and> num_tasks s > 1 \<and> user then schedule r s else Inr (r, s)
         else if n = 0x80 then syscall_interrupt irqs r s
         else Inr (r, s))"

end
