(* ===== verification/Scheduling.thy ===== *)
theory Scheduling
  imports Interrupts
begin

text \<open>
  Properties of \<^verbatim>\<open>kernel/idt.c\<close>: the invariant through every interrupt, the order in
  which tasks are chosen, saving and resuming a register frame, and sleeping.
\<close>

section \<open>The invariant\<close>

lemma io_inv [simp]:
  "kernel_inv (outb p v s) = kernel_inv s" "kernel_inv (outw p w s) = kernel_inv s"
  "kernel_inv (snd (inb p s)) = kernel_inv s" "kernel_inv (snd (inw p s)) = kernel_inv s"
  by (simp_all add: outb_def outw_def inb_def inw_def Let_def kernel_inv_def kernel_ok_def
      one_running_def pids_ok_def)

lemma io_fields [simp]:
  fixes s :: kstate
  shows "tasks (outb p v s) = tasks s" "current_task (outb p v s) = current_task s"
    "num_tasks (outb p v s) = num_tasks s" "ticks (outb p v s) = ticks s"
    "irq_handlers (outb p v s) = irq_handlers s" "mem (outb p v s) = mem s"
    "tasks (snd (inb p s)) = tasks s" "current_task (snd (inb p s)) = current_task s"
    "num_tasks (snd (inb p s)) = num_tasks s" "ticks (snd (inb p s)) = ticks s" "mem (snd (inb p s)) = mem s"
  by (simp_all add: outb_def inb_def Let_def)

lemma kernel_inv_ticks [simp]: "kernel_inv (s\<lparr>ticks := v\<rparr>) = kernel_inv s"
  by (simp add: kernel_inv_def kernel_ok_def one_running_def pids_ok_def)

lemma keyboard_irq_inv:
  assumes "kernel_inv s"
  shows "kernel_inv (keyboard_irq s)"
proof -
  obtain sc u where u: "inb 0x60 s = (sc, u)" by fastforce
  have "kernel_inv u" "tasks u = tasks s" using io_inv(3)[of "0x60" s] io_fields(7)[of "0x60" s] u assms by simp_all
  then show ?thesis
    using u assms by (auto simp: keyboard_irq_def Let_def intro!: kernel_inv_ipc_put)
qed

lemma irq_common_inv: "kernel_inv s \<Longrightarrow> kernel_inv (irq_common n s)"
  by (auto simp: irq_common_def Let_def intro!: keyboard_irq_inv)

lemma keyboard_irq_fields [simp]:
  "current_task (keyboard_irq s) = current_task s" "num_tasks (keyboard_irq s) = num_tasks s"
  "ticks (keyboard_irq s) = ticks s" "mem (keyboard_irq s) = mem s"
  by (simp_all add: keyboard_irq_def Let_def inb_def)

lemma irq_common_fields [simp]:
  "current_task (irq_common n s) = current_task s" "num_tasks (irq_common n s) = num_tasks s"
  "ticks (irq_common n s) = (if n = 32 then ticks s + 1 else ticks s)" "mem (irq_common n s) = mem s"
  by (simp_all add: irq_common_def Let_def)

lemma nanosleep_loop_inv:
  assumes "nanosleep_loop irqs start target s = Inr t" "kernel_inv s"
  shows "kernel_inv t"
  using assms
proof (induction irqs arbitrary: s)
  case Nil
  then show ?case by (auto simp: bind_res_Inr split: if_splits)
next
  case (Cons n irqs)
  show ?case
  proof (cases "ticks s - start < target")
    case True
    then obtain c where c: "current_index s = Inr c"
      "nanosleep_loop irqs start target (irq_common n (set_state c TASK_BLOCKED s)) = Inr t"
      using Cons.prems(1) by (auto simp: bind_res_Inr)
    have "c < 64" using c(1) by (auto simp: current_index_Inr)
    then show ?thesis
      using Cons.IH[OF c(2)] Cons.prems(2) by (simp add: irq_common_inv kernel_inv_set_state)
  next
    case False
    then show ?thesis using Cons.prems by simp
  qed
qed

lemma sys_nanosleep_inv:
  assumes "sys_nanosleep irqs ns s = Inr (r, t)" "kernel_inv s"
  shows "kernel_inv t"
  using assms nanosleep_loop_inv
  by (auto simp: sys_nanosleep_def Let_def bind_res_Inr current_index_Inr intro!: kernel_inv_set_state)

lemma sys_irq_register_inv:
  assumes "sys_irq_register irq s = (r, t)" "kernel_inv s"
  shows "kernel_inv t"
proof -
  have "\<forall>h \<in> set ((irq_handlers s)[unat irq := current_task s]). - 1 \<le> h \<and> h < 64"
    using assms(2) set_update_subset_insert[of "irq_handlers s" "unat irq" "current_task s"]
    by (auto simp: kernel_inv_def kernel_ok_def)
  then show ?thesis
    using assms by (auto simp: sys_irq_register_def kernel_inv_def kernel_ok_def one_running_def
        pids_ok_def split: if_splits)
qed

lemma ret_int_Inr: "ret_int p = Inr (v, t) \<Longrightarrow> t = snd p"
  by (simp add: ret_int_def)

lemma bind_ret_int:
  assumes "bind_res c ret_int = Inr (v, t)"
  shows "\<exists>r. c = Inr (r, t)"
  using assms by (auto simp: bind_res_Inr ret_int_def)

lemma syscall_handler_inv:
  assumes "syscall_handler irqs n a1 a2 a3 a4 s = Inr (v, t)" "kernel_inv s"
  shows "kernel_inv t"
proof -
  have io: "kernel_inv u" if "inb p s = (x, u)" for p x u
    using io_inv(3)[of p s] that assms(2) by simp
  have iow: "kernel_inv u" if "inw p s = (x, u)" for p x u
    using io_inv(4)[of p s] that assms(2) by simp
  note call = assms(1)[unfolded syscall_handler_def]
  show ?thesis
    using call assms(2) io iow
    by (auto split: if_splits prod.splits dest!: bind_ret_int ret_int_Inr simp: bind_res_Inr Let_def
        intro: task_call_invs sys_spawn_at_inv sys_nanosleep_inv
          sys_irq_register_inv[OF prod.collapse[symmetric]] sys_clone_inv[OF prod.collapse[symmetric]])
qed

section \<open>Choosing the next task\<close>

text \<open>
  A switch is safe when no task is marked running: it marks exactly the one it makes current.
\<close>

definition none_running :: "kstate \<Rightarrow> bool" where
  "none_running s \<longleftrightarrow> (\<forall>i < length (tasks s). t_state (tasks s ! i) \<noteq> TASK_RUNNING)"

lemma candidates_range:
  assumes "n \<in> set (candidates s)"
  shows "0 \<le> n" "n < int (num_tasks s)"
  using assms by (auto simp: candidates_def)

lemma schedule_next_cases:
  assumes "schedule_next s = (n, t)"
  obtains "n = current_task s" "t = s"
  | "n \<in> set (candidates s)" "t_state (task_at s (nat n)) = TASK_READY" "t = set_state (nat n) TASK_RUNNING s"
proof (cases "num_tasks s \<le> 1 \<or> List.find (\<lambda>n. t_state (task_at s (nat n)) = TASK_READY) (candidates s) = None")
  case True
  then have "n = current_task s \<and> t = s"
    using assms by (auto simp: schedule_next_def split: if_splits)
  then show thesis using that(1) by blast
next
  case False
  then obtain k where k: "List.find (\<lambda>n. t_state (task_at s (nat n)) = TASK_READY) (candidates s) = Some k"
    by auto
  then have "k \<in> set (candidates s)" "t_state (task_at s (nat k)) = TASK_READY"
    by (auto simp: find_Some_iff in_set_conv_nth)
  moreover have "n = k" "t = set_state (nat k) TASK_RUNNING s"
    using assms k False by (auto simp: schedule_next_def)
  ultimately show thesis using that(2) by blast
qed

lemma make_current_inv:
  assumes "kernel_ok s" "pids_ok s" "none_running s" "n < 64"
  shows "kernel_inv ((set_state n TASK_RUNNING s)\<lparr>current_task := int n\<rparr>)"
proof -
  have "kernel_ok (set_state n TASK_RUNNING s)" using assms(1,4) by (rule kernel_ok_set_state)
  then have "kernel_ok ((set_state n TASK_RUNNING s)\<lparr>current_task := int n\<rparr>)"
    using assms(4) by (simp add: kernel_ok_def)
  moreover have n: "n < length (tasks s)" using assms(1,4) by (simp add: kernel_ok_def)
  have "one_running ((set_state n TASK_RUNNING s)\<lparr>current_task := int n\<rparr>)"
    using assms(3) n by (auto simp: one_running_def none_running_def)
  moreover have pid: "t_pid (tasks (set_state n TASK_RUNNING s) ! j) = t_pid (tasks s ! j)" for j
    using n by simp
  have "pids_ok ((set_state n TASK_RUNNING s)\<lparr>current_task := int n\<rparr>)"
    using assms(2) unfolding pids_ok_def by (simp add: pid del: set_state_nth)
  ultimately show ?thesis by (simp add: kernel_inv_def)
qed

lemma paging_switch_inv: "kernel_inv (s :: kstate) \<Longrightarrow> kernel_inv (paging_switch p s)"
  using kernel_inv_cong[of "paging_switch p s" s] by (simp add: paging_switch_def)

lemma switch_to_next_inv:
  assumes "switch_to_next s = Inr (r, t)" "kernel_ok s" "pids_ok s" "none_running s"
  shows "kernel_inv t" "0 \<le> current_task t" "t_state (task_at t (nat (current_task t))) = TASK_RUNNING"
    "r = t_rsp (task_at t (nat (current_task t)))"
proof -
  obtain n u where u: "schedule_next s = (n, u)" by fastforce
  then have n: "0 \<le> n" "n < 64"
    using assms(1) by (auto simp: switch_to_next_def split: if_splits)
  let ?n = "nat n"
  let ?v = "(set_state ?n TASK_RUNNING s)\<lparr>current_task := n\<rparr>"
  have len: "?n < length (tasks s)" using n assms(2) by (simp add: kernel_ok_def)
  have "set_state ?n TASK_RUNNING u = set_state ?n TASK_RUNNING s"
    using u by (rule schedule_next_cases) (use len in \<open>simp_all add: set_state_def upd_task_def\<close>)
  then have t: "t = (if pml4_phys (task_at ?v ?n) \<noteq> 0 then paging_switch (pml4_phys (task_at ?v ?n)) ?v else ?v)"
    "r = t_rsp (task_at t ?n)"
    using assms(1) u n by (auto simp: switch_to_next_def Let_def split: if_splits)
  have "kernel_inv ?v"
    using make_current_inv[OF assms(2-4), of ?n] n by simp
  then show "kernel_inv t" using paging_switch_inv by (simp add: t(1))
  have same: "tasks t = tasks ?v" "current_task t = n" by (simp_all add: t(1) paging_switch_def)
  then show "0 \<le> current_task t" "t_state (task_at t (nat (current_task t))) = TASK_RUNNING"
    "r = t_rsp (task_at t (nat (current_task t)))"
    using n len t(2) by simp_all
qed

lemma kernel_inv_rsp:
  assumes "kernel_inv s" "i < 64"
  shows "kernel_inv (upd_task i (\<lambda>t. t\<lparr>t_rsp := v\<rparr>) s)"
  using assms kernel_inv_task[OF assms] by (intro kernel_inv_upd_task) simp_all

lemma save_frame_inv:
  assumes "save_frame r s = Inr t" "kernel_inv s"
  shows "kernel_inv t" "current_task t = current_task s" "0 \<le> current_task s" "num_tasks t = num_tasks s"
    "t_state (task_at t i) = t_state (task_at s i)"
proof -
  obtain c where c: "current_index s = Inr c"
    "t = upd_task c (\<lambda>u. u\<lparr>t_rsp := stack_phys (task_at s c)\<rparr>)
           (s\<lparr>mem := copy_frame (stack_phys (task_at s c)) r (mem s)\<rparr>)"
    using assms(1) by (auto simp: save_frame_def Let_def bind_res_Inr)
  have "c < 64" using c(1) by (auto simp: current_index_Inr)
  then show "kernel_inv t" using c(2) assms(2) by (simp add: kernel_inv_rsp)
  show "current_task t = current_task s" "0 \<le> current_task s" "num_tasks t = num_tasks s"
    using c by (auto simp: current_index_Inr)
  show "t_state (task_at t i) = t_state (task_at s i)"
    using c(2) \<open>c < 64\<close> kernel_inv_bounds(1)[OF assms(2)] by simp
qed

lemma none_running_stop:
  assumes "kernel_inv s" "0 \<le> current_task s" "st \<noteq> TASK_RUNNING"
  shows "none_running (set_state (nat (current_task s)) st s)"
  using assms kernel_inv_bounds(1,3)[OF assms(1)]
  by (auto simp: none_running_def kernel_inv_def one_running_def)

lemma none_running_stopped:
  assumes "kernel_inv s" "0 \<le> current_task s" "t_state (task_at s (nat (current_task s))) \<noteq> TASK_RUNNING"
  shows "none_running s"
  unfolding none_running_def
proof (intro allI impI notI)
  fix i
  assume "i < length (tasks s)" "t_state (task_at s i) = TASK_RUNNING"
  then have "nat (current_task s) = i"
    using assms(1) by (auto simp: kernel_inv_def one_running_def)
  with assms(3) \<open>t_state (task_at s i) = TASK_RUNNING\<close> show False by simp
qed

lemma none_running_idle: "kernel_inv s \<Longrightarrow> current_task s < 0 \<Longrightarrow> none_running s"
  by (auto simp: none_running_def kernel_inv_def one_running_def)

lemma schedule_inv:
  assumes "schedule r s = Inr (q, t)" "kernel_inv s"
  shows "kernel_inv t" "0 \<le> current_task t" "t_state (task_at t (nat (current_task t))) = TASK_RUNNING"
    "q = t_rsp (task_at t (nat (current_task t)))"
proof -
  obtain v where v: "switch_to_next v = Inr (q, t)" "kernel_inv v" "none_running v"
  proof (cases "current_task s < 0")
    case True
    then show thesis
      using that[of s] assms none_running_idle by (simp add: schedule_def)
  next
    case False
    then obtain u where u: "save_frame r s = Inr u"
      "switch_to_next (set_state (nat (current_task u)) TASK_READY u) = Inr (q, t)"
      using assms(1) by (auto simp: schedule_def bind_res_Inr)
    note su = save_frame_inv[OF u(1) assms(2)]
    have i: "nat (current_task u) < 64" using kernel_inv_bounds(3)[OF su(1)] by simp
    show thesis
      using that[OF u(2)] kernel_inv_set_state[OF su(1) i] none_running_stop[OF su(1)] su(2) False
      by simp
  qed
  then show "kernel_inv t" "0 \<le> current_task t"
    "t_state (task_at t (nat (current_task t))) = TASK_RUNNING"
    "q = t_rsp (task_at t (nat (current_task t)))"
    using switch_to_next_inv[OF v(1)] by (simp_all add: kernel_inv_def)
qed

lemma syscall_interrupt_inv:
  assumes "syscall_interrupt irqs r s = Inr (q, t)" "kernel_inv s"
  shows "kernel_inv t"
proof -
  obtain rax u where u: "syscall_handler irqs (reg (mem s) r R_RAX) (reg (mem s) r R_RDI)
      (reg (mem s) r R_RSI) (reg (mem s) r R_RDX) (reg (mem s) r R_RCX) s = Inr (rax, u)"
    using assms(1) by (auto simp: syscall_interrupt_def Let_def bind_res_Inr)
  let ?u = "u\<lparr>mem := write64 (slot r (of_nat R_RAX)) rax (mem u)\<rparr>"
  have ku: "kernel_inv ?u" using syscall_handler_inv[OF u assms(2)] by simp
  show ?thesis
  proof (cases "num_tasks u > 1")
    case False
    then show ?thesis using assms(1) u ku by (auto simp: syscall_interrupt_def Let_def)
  next
    case True
    define stop where "stop w = (if t_state (task_at w (nat (current_task w))) \<noteq> TASK_BLOCKED
        \<and> t_state (task_at w (nat (current_task w))) \<noteq> TASK_EXITED
      then set_state (nat (current_task w)) TASK_READY w else w)" for w
    obtain w where w: "save_frame r ?u = Inr w" "switch_to_next (stop w) = Inr (q, t)"
      using assms(1) u True
      by (auto simp: syscall_interrupt_def Let_def bind_res_Inr stop_def)
    note sw = save_frame_inv[OF w(1) ku]
    have i: "nat (current_task w) < 64" using kernel_inv_bounds(3)[OF sw(1)] by simp
    have c: "0 \<le> current_task w" using sw(2,3) by simp
    have "kernel_inv (stop w)"
      using sw(1) i by (auto simp: stop_def intro!: kernel_inv_set_state)
    moreover have "none_running (stop w)"
      using none_running_stop[OF sw(1) c] none_running_stopped[OF sw(1) c] by (auto simp: stop_def)
    ultimately show ?thesis
      using switch_to_next_inv(1)[OF w(2)] by (simp add: kernel_inv_def)
  qed
qed

lemma user_page_fault_inv:
  assumes "user_page_fault cr2 r s = Inr (q, t)" "kernel_inv s"
  shows "kernel_inv t"
proof -
  define s1 where "s1 = kputs crlf (puts_reg '' RIP: '' (reg (mem s) r R_RIP) (puts_reg '' addr '' cr2
    (puts_reg (crlf @ ''[PF] PID '') (if current_task s \<ge> 0 then t_pid (task_at s (nat (current_task s))) else 0) s)))"
  have s1: "kernel_inv s1" "current_task s1 = current_task s"
    using assms(2) by (simp_all add: s1_def puts_reg_def kputs_def kputhex_def kernel_inv_def kernel_ok_def
        one_running_def pids_ok_def)
  obtain u i where u: "sys_exit s1 = Inr u" "find_task (\<lambda>_ t. t_state t = TASK_READY) u = Some i"
    "t = (let v = (set_state i TASK_RUNNING u)\<lparr>current_task := int i\<rparr>
          in if pml4_phys (task_at v i) \<noteq> 0 then paging_switch (pml4_phys (task_at v i)) v else v)"
    using assms(1)[unfolded user_page_fault_def Let_def, folded s1_def]
    by (auto simp: Let_def bind_res_Inr split: option.splits)
  have ku: "kernel_inv u" using sys_exit_inv[OF u(1) s1(1)] .
  have i: "i < 64" using find_task_less[OF ku u(2)] .
  have "none_running u"
  proof (cases "current_task s1 < 0")
    case True
    then show ?thesis using u(1) s1(1) none_running_idle by (auto simp: sys_exit_def)
  next
    case False
    then show ?thesis
      using sys_exit_current[OF u(1) s1(1)] none_running_stopped[OF ku] by simp
  qed
  then have "kernel_inv ((set_state i TASK_RUNNING u)\<lparr>current_task := int i\<rparr>)"
    using make_current_inv[OF _ _ _ i] ku by (simp add: kernel_inv_def)
  then show ?thesis using paging_switch_inv u(3) by (simp add: Let_def)
qed

lemma isr_handler_keeps_inv:
  assumes "isr_handler irqs cr2 r s = Inr (q, t)" "kernel_inv s"
  shows "kernel_inv t"
  using assms irq_common_inv[OF assms(2)]
  by (auto simp: isr_handler_def Let_def split: if_splits
      intro: user_page_fault_inv syscall_interrupt_inv schedule_inv(1))

section \<open>Round robin\<close>

text \<open>How many steps after the current task, cyclically, task \<open>j\<close> comes.\<close>

definition turn :: "kstate \<Rightarrow> nat \<Rightarrow> nat" where
  "turn s j = nat ((int j - current_task s) mod int (num_tasks s))"

lemma turn_candidate:
  assumes "j < num_tasks s" "int j \<noteq> current_task s" "0 \<le> current_task s" "current_task s < int (num_tasks s)"
  shows "1 \<le> turn s j" "turn s j < num_tasks s"
    "(current_task s + int (turn s j)) mod int (num_tasks s) = int j"
proof -
  let ?n = "int (num_tasks s)" and ?c = "current_task s"
  have n: "0 < ?n" using assms(1) by simp
  then have range: "0 \<le> (int j - ?c) mod ?n" "(int j - ?c) mod ?n < ?n" by simp_all
  have eq: "(?c + (int j - ?c) mod ?n) mod ?n = int j"
    using assms(1) by (simp add: mod_add_right_eq)
  then show "(current_task s + int (turn s j)) mod int (num_tasks s) = int j"
    using range by (simp add: turn_def)
  show "turn s j < num_tasks s" using range by (simp add: turn_def nat_less_iff)
  have "(int j - ?c) mod ?n \<noteq> 0"
    using eq assms by (metis add.right_neutral mod_pos_pos_trivial)
  then show "1 \<le> turn s j" using range by (simp add: turn_def)
qed

lemma candidates_nth:
  "k < num_tasks s - 1 \<Longrightarrow> candidates s ! k = (current_task s + int (k + 1)) mod int (num_tasks s)"
  by (simp add: candidates_def add.commute)

lemma schedule_next_first:
  assumes "1 < num_tasks s" "schedule_next s = (n, t)"
  shows "(\<exists>k. 1 \<le> k \<and> k < num_tasks s \<and> n = (current_task s + int k) mod int (num_tasks s)
            \<and> t_state (task_at s (nat n)) = TASK_READY \<and> t = set_state (nat n) TASK_RUNNING s
            \<and> (\<forall>j. 1 \<le> j \<and> j < k \<longrightarrow>
                 t_state (task_at s (nat ((current_task s + int j) mod int (num_tasks s)))) \<noteq> TASK_READY))
    \<or> n = current_task s \<and> t = s
        \<and> (\<forall>j. 1 \<le> j \<and> j < num_tasks s \<longrightarrow>
             t_state (task_at s (nat ((current_task s + int j) mod int (num_tasks s)))) \<noteq> TASK_READY)"
proof (cases "List.find (\<lambda>n. t_state (task_at s (nat n)) = TASK_READY) (candidates s)")
  case None
  then have none: "\<forall>x \<in> set (candidates s). t_state (task_at s (nat x)) \<noteq> TASK_READY"
    by (auto simp: find_None_iff)
  have "n = current_task s \<and> t = s" using assms None by (auto simp: schedule_next_def)
  then show ?thesis using none by (auto simp: candidates_def)
next
  case (Some x)
  then obtain i where i: "i < length (candidates s)" "candidates s ! i = x"
    "t_state (task_at s (nat x)) = TASK_READY"
    "\<forall>j < i. t_state (task_at s (nat (candidates s ! j))) \<noteq> TASK_READY"
    by (auto simp: find_Some_iff)
  have len: "length (candidates s) = num_tasks s - 1" by (simp add: candidates_def)
  have nt: "n = x" "t = set_state (nat x) TASK_RUNNING s"
    using assms Some by (auto simp: schedule_next_def)
  have "\<forall>j. 1 \<le> j \<and> j < i + 1 \<longrightarrow>
      t_state (task_at s (nat ((current_task s + int j) mod int (num_tasks s)))) \<noteq> TASK_READY"
  proof (intro allI impI)
    fix j assume j: "1 \<le> j \<and> j < i + 1"
    then have "candidates s ! (j - 1) = (current_task s + int j) mod int (num_tasks s)"
      using candidates_nth[of "j - 1" s] i(1) len by auto
    then show "t_state (task_at s (nat ((current_task s + int j) mod int (num_tasks s)))) \<noteq> TASK_READY"
      using i(4) j by (metis Suc_eq_plus1 le_add_diff_inverse2 less_Suc_eq_le less_diff_conv2 not_less)
  qed
  moreover have "n = (current_task s + int (i + 1)) mod int (num_tasks s)"
    using nt i(1,2) len candidates_nth[of i s] by simp
  ultimately show ?thesis
    using nt i(1,3) len assms(1) by (intro disjI1 exI[of _ "i + 1"]) auto
qed

text \<open>
  C10: with more than one task, \<^verbatim>\<open>schedule_next\<close> chooses the first ready task after the
  current one in cyclic order, skipping none, and marks it running; if no other task is
  ready it returns the current task and changes nothing.
\<close>

theorem schedule_next_round_robin:
  assumes "1 < num_tasks s" "schedule_next s = (n, t)"
  shows "(\<exists>k. 1 \<le> k \<and> k < num_tasks s \<and> n = (current_task s + int k) mod int (num_tasks s)
            \<and> t_state (task_at s (nat n)) = TASK_READY \<and> t = set_state (nat n) TASK_RUNNING s
            \<and> (\<forall>j. 1 \<le> j \<and> j < k \<longrightarrow>
                 t_state (task_at s (nat ((current_task s + int j) mod int (num_tasks s)))) \<noteq> TASK_READY))
    \<or> n = current_task s \<and> t = s
        \<and> (\<forall>j. 1 \<le> j \<and> j < num_tasks s \<longrightarrow>
             t_state (task_at s (nat ((current_task s + int j) mod int (num_tasks s)))) \<noteq> TASK_READY)"
  using assms by (rule schedule_next_first)


theorem schedule_next_round_robin_witness:
  "\<exists>n t. schedule_next kernel_demo = (n, t) \<and> n = 1 \<and> t = set_state 1 TASK_RUNNING kernel_demo"
proof -
  obtain n t where nt: "schedule_next kernel_demo = (n, t)" by fastforce
  have "t_state (task_at kernel_demo (nat ((0 + int 1) mod 3))) = TASK_READY"
    by (simp del: kernel_demo_fields(5))
  then obtain k where k: "1 \<le> k" "k < 3" "n = int k mod 3" "t = set_state (nat n) TASK_RUNNING kernel_demo"
    "\<forall>j. 1 \<le> j \<and> j < k \<longrightarrow> t_state (task_at kernel_demo (nat (int j mod 3))) \<noteq> TASK_READY"
    using schedule_next_round_robin[of kernel_demo n t] nt by (fastforce simp del: kernel_demo_fields(5))
  have "\<not> 1 < k" using k(5)[rule_format, of 1] by (auto simp del: kernel_demo_fields(5))
  with k nt show ?thesis by simp
qed


section \<open>Saving and resuming register frames\<close>

text \<open>The frame at \<open>r\<close> lies outside page \<open>p\<close>, at a word boundary.\<close>

definition frame_away :: "u64 \<Rightarrow> u64 \<Rightarrow> bool" where
  "frame_away r p \<longleftrightarrow> aligned8 r \<and> (\<forall>k < FRAME_WORDS. page_of (slot r (of_nat k)) \<noteq> p)"

lemma page_of_word_byte:
  assumes "aligned8 a" "d < 8"
  shows "page_of (a + d) = page_of a"
proof -
  have "page_of (x AND NOT 7) = page_of x" for x :: u64
    by (simp add: page_of_def and.assoc del: table_address)
  then show ?thesis using aligned8_base[OF assms] by metis
qed

lemma reg_away:
  assumes "frame_away r p" "k < FRAME_WORDS" "\<And>a. page_of a \<noteq> p \<Longrightarrow> m' a = m a"
  shows "reg m' r k = reg m r k"
proof -
  have "aligned8 (slot r (of_nat k))"
    using assms(1) by (simp add: frame_away_def slot_def aligned8_add aligned8_times8)
  then show ?thesis
    unfolding reg_def using assms by (intro read64_cong) (simp add: page_of_word_byte frame_away_def)
qed

lemma copy_frame_fill:
  assumes "page_aligned dst" "frame_away r dst" "n \<le> FRAME_WORDS"
  shows "fold (\<lambda>i m. write64 (slot dst (of_nat i)) (reg m r i) m) [0..<n] m = fill_table dst (reg m r) n m"
  using assms(3)
proof (induction n)
  case 0
  then show ?case by (simp add: fill_table_def)
next
  case (Suc n)
  have "reg (fill_table dst (reg m r) n m) r n = reg m r n"
    using Suc.prems assms(1) by (intro reg_away[OF assms(2)]) (auto intro: fill_table_other_page)
  with Suc show ?case by (simp add: fill_table_def)
qed

lemma copy_frame_correct:
  assumes "page_aligned dst" "frame_away r dst"
  shows "frame_of (copy_frame dst r m) dst = frame_of m r"
    "page_of a \<noteq> dst \<Longrightarrow> copy_frame dst r m a = m a"
proof -
  have eq: "copy_frame dst r m = fill_table dst (reg m r) 22 m"
    unfolding copy_frame_def using copy_frame_fill[OF assms] by simp
  have "reg (copy_frame dst r m) dst k = reg m r k" if "k < 22" for k
  proof -
    have k: "(of_nat k :: u64) < 512" "unat (of_nat k :: u64) = k"
      using that by (simp_all add: word_less_nat_alt unat_of_nat take_bit_nat_eq_self_iff)
    show ?thesis
      using entry_fill_table[OF assms(1) assms(1) _ k(1), of 22 "reg m r" m] k(2) that
      by (simp add: eq reg_def entry_def)
  qed
  then show "frame_of (copy_frame dst r m) dst = frame_of m r" by (simp add: frame_of_def)
  show "page_of a \<noteq> dst \<Longrightarrow> copy_frame dst r m a = m a"
    using assms(1) by (simp add: eq fill_table_other_page)
qed

lemma frame_of_away:
  assumes "frame_away q p" "\<And>a. page_of a \<noteq> p \<Longrightarrow> m' a = m a"
  shows "frame_of m' q = frame_of m q"
  unfolding frame_of_def by (rule map_cong[OF refl]) (auto intro!: reg_away[OF assms(1)] assms(2))

lemma set_state_keeps:
  "t_rsp (task_at (set_state k st s) i) = t_rsp (task_at s i)"
  "stack_phys (task_at (set_state k st s) i) = stack_phys (task_at s i)"
  "pml4_phys (task_at (set_state k st s) i) = pml4_phys (task_at s i)"
proof -
  have "tasks (set_state k st s) = tasks s" if "\<not> k < length (tasks s)"
    using that by (simp add: set_state_def upd_task_def list_update_beyond)
  then show "t_rsp (task_at (set_state k st s) i) = t_rsp (task_at s i)"
    "stack_phys (task_at (set_state k st s) i) = stack_phys (task_at s i)"
    "pml4_phys (task_at (set_state k st s) i) = pml4_phys (task_at s i)"
    by (cases "k < length (tasks s)"; simp)+
qed

lemma switch_to_next_fields:
  assumes "switch_to_next s = Inr (q, t)" "length (tasks s) = 64"
  shows "mem t = mem s" "t_rsp (task_at t i) = t_rsp (task_at s i)"
    "stack_phys (task_at t i) = stack_phys (task_at s i)" "q = t_rsp (task_at s (nat (current_task t)))"
proof -
  obtain n u where u: "schedule_next s = (n, u)" by fastforce
  have mu: "mem u = mem s" "length (tasks u) = 64"
    "t_rsp (task_at u i) = t_rsp (task_at s i)" "stack_phys (task_at u i) = stack_phys (task_at s i)" for i
    using u assms(2) by (auto elim!: schedule_next_cases simp: set_state_keeps)
  show "mem t = mem s" "t_rsp (task_at t i) = t_rsp (task_at s i)"
    "stack_phys (task_at t i) = stack_phys (task_at s i)" "q = t_rsp (task_at s (nat (current_task t)))"
    using assms u mu
    by (auto simp: switch_to_next_def Let_def paging_switch_def set_state_keeps split: if_splits)
qed

lemma switch_to_next_total:
  assumes "kernel_ok s" "0 \<le> current_task s"
  shows "\<exists>q t. switch_to_next s = Inr (q, t)"
proof -
  obtain n u where u: "schedule_next s = (n, u)" by fastforce
  then have "0 \<le> n" "n < 64"
    using assms by (auto elim!: schedule_next_cases dest: candidates_range simp: kernel_ok_def)
  with u show ?thesis by (simp add: switch_to_next_def Let_def)
qed

lemma save_frame_total:
  assumes "kernel_inv s" "0 \<le> current_task s"
  shows "\<exists>t. save_frame r s = Inr t"
  using assms kernel_inv_bounds(3)[OF assms(1)] by (simp add: save_frame_def current_index_def Let_def)

lemma schedule_total:
  assumes "kernel_inv s" "0 \<le> current_task s"
  shows "\<exists>q t. schedule r s = Inr (q, t)"
proof -
  obtain u where u: "save_frame r s = Inr u" using save_frame_total[OF assms] by blast
  note su = save_frame_inv[OF u assms(1)]
  have "nat (current_task u) < 64" using kernel_inv_bounds(3)[OF su(1)] by simp
  then have "kernel_ok (set_state (nat (current_task u)) TASK_READY u)"
    using su(1) by (simp add: kernel_inv_def kernel_ok_set_state)
  then show ?thesis
    using switch_to_next_total[of "set_state (nat (current_task u)) TASK_READY u"] u assms(2) su(2)
    by (simp add: schedule_def)
qed

lemma schedule_frames:
  assumes "schedule r s = Inr (q, t)" "kernel_inv s" "0 \<le> current_task s"
    and "page_aligned (stack_phys (task_at s (nat (current_task s))))"
    and "frame_away r (stack_phys (task_at s (nat (current_task s))))"
  shows "t_rsp (task_at t (nat (current_task s))) = stack_phys (task_at s (nat (current_task s)))
    \<and> frame_of (mem t) (t_rsp (task_at t (nat (current_task s)))) = frame_of (mem s) r
    \<and> (\<forall>p. frame_away p (stack_phys (task_at s (nat (current_task s)))) \<longrightarrow>
          frame_of (mem t) p = frame_of (mem s) p)
    \<and> q = t_rsp (task_at t (nat (current_task t)))"
proof -
  let ?c = "nat (current_task s)" and ?dst = "stack_phys (task_at s (nat (current_task s)))"
  obtain u where u: "save_frame r s = Inr u"
    "switch_to_next (set_state (nat (current_task u)) TASK_READY u) = Inr (q, t)"
    using assms(1,3) by (auto simp: schedule_def bind_res_Inr)
  have c: "?c < length (tasks s)" "current_index s = Inr ?c"
    using kernel_inv_bounds(1,3)[OF assms(2)] assms(3) by (auto simp: current_index_Inr)
  have us: "u = upd_task ?c (\<lambda>t. t\<lparr>t_rsp := ?dst\<rparr>) (s\<lparr>mem := copy_frame ?dst r (mem s)\<rparr>)"
    using u(1) c(2) by (simp add: save_frame_def Let_def)
  have len: "length (tasks (set_state (nat (current_task u)) TASK_READY u)) = 64"
    using us kernel_inv_bounds(1)[OF assms(2)] by simp
  note f = switch_to_next_fields[OF u(2) len]
  have cu: "current_task u = current_task s" using us by simp
  have m: "mem t = copy_frame ?dst r (mem s)" using f(1) us by simp
  have rsp: "t_rsp (task_at t ?c) = ?dst"
    using f(2)[of ?c] us c(1) cu by simp
  have others: "frame_of (mem t) p = frame_of (mem s) p" if "frame_away p ?dst" for p
    unfolding m by (rule frame_of_away[OF that copy_frame_correct(2)[OF assms(4,5)]])
  have "frame_of (mem t) (t_rsp (task_at t ?c)) = frame_of (mem s) r"
    unfolding rsp m by (rule copy_frame_correct(1)[OF assms(4,5)])
  with rsp others schedule_inv(4)[OF assms(1,2)] show ?thesis by blast
qed

text \<open>
  C12: the switch away from a task by the timer always succeeds. The task's register frame ends up, word for word, at
  the start of its kernel stack page, which is what its \<^verbatim>\<open>rsp\<close> then designates; the frames
  of all tasks with other stack pages are untouched; and the frame returned is the one saved
  for the task that becomes current. So a task resumes with exactly the registers it was
  interrupted with.
\<close>

theorem schedule_saves_frame:
  assumes "kernel_inv s" "0 \<le> current_task s"
    and "page_aligned (stack_phys (task_at s (nat (current_task s))))"
    and "frame_away r (stack_phys (task_at s (nat (current_task s))))"
  shows "\<exists>q t. schedule r s = Inr (q, t)
    \<and> t_rsp (task_at t (nat (current_task s))) = stack_phys (task_at s (nat (current_task s)))
    \<and> frame_of (mem t) (t_rsp (task_at t (nat (current_task s)))) = frame_of (mem s) r
    \<and> (\<forall>p. frame_away p (stack_phys (task_at s (nat (current_task s)))) \<longrightarrow>
          frame_of (mem t) p = frame_of (mem s) p)
    \<and> q = t_rsp (task_at t (nat (current_task t)))"
  using schedule_total[OF assms(1,2), of r] schedule_frames[OF _ assms] by blast

lemma frame_away_page:
  assumes "page_aligned r" "r \<noteq> p"
  shows "frame_away r p"
proof -
  have "page_of (slot r (of_nat k)) = r" if "k < 22" for k
    using assms(1) that
    by (intro page_of_slot) (simp_all add: word_less_nat_alt unat_of_nat take_bit_nat_eq_self_iff)
  then show ?thesis using assms by (simp add: frame_away_def page_aligned_aligned8)
qed

theorem schedule_saves_frame_witness:
  "\<exists>q t. schedule 0x9000 kernel_demo = Inr (q, t) \<and> frame_of (mem t) 0x300000 = frame_of (mem kernel_demo) 0x9000"
proof -
  have "page_aligned 0x300000" "frame_away 0x9000 0x300000"
    by (simp_all add: page_aligned_def frame_away_page)
  then show ?thesis
    using schedule_saves_frame[OF kernel_demo_inv, of "0x9000"]
    by (auto simp del: kernel_demo_fields(5))
qed

section \<open>Sleeping\<close>

text \<open>The loop ends as soon as the counter has advanced by the target.\<close>

lemma nanosleep_loop_ticks:
  assumes "kernel_inv s" "0 \<le> current_task s" "ticks s = start + of_nat k" "k \<le> unat target"
    and "unat target \<le> k + count_list irqs 32"
  shows "\<exists>t. nanosleep_loop irqs start target s = Inr t \<and> kernel_inv t \<and> current_task t = current_task s
    \<and> ticks t = start + target"
  using assms
proof (induction irqs arbitrary: s k)
  case Nil
  then have "k = unat target" by simp
  then show ?case using Nil by simp
next
  case (Cons n irqs)
  have small: "k < 2 ^ 64" using Cons.prems(4) unsigned_less[of target, where 'a = nat] by simp
  have diff: "ticks s - start < target \<longleftrightarrow> k < unat target"
    using Cons.prems(3) small by (simp add: word_less_nat_alt unat_of_nat take_bit_nat_eq_self_iff)
  show ?case
  proof (cases "k < unat target")
    case False
    then have "k = unat target" using Cons.prems(4) by simp
    then show ?thesis using Cons.prems diff by simp
  next
    case True
    let ?c = "nat (current_task s)"
    let ?s = "irq_common n (set_state ?c TASK_BLOCKED s)"
    have c: "current_index s = Inr ?c" "?c < 64"
      using Cons.prems(2) kernel_inv_bounds(3)[OF Cons.prems(1)] by (auto simp: current_index_Inr)
    have inv: "kernel_inv ?s"
      using Cons.prems(1) c(2) by (intro irq_common_inv kernel_inv_set_state) simp_all
    have "\<exists>t. nanosleep_loop irqs start target ?s = Inr t \<and> kernel_inv t
        \<and> current_task t = current_task ?s \<and> ticks t = start + target"
      using Cons.IH[OF inv, of "if n = 32 then k + 1 else k"] Cons.prems True by (cases "n = 32") simp_all
    then show ?thesis using c True diff by simp
  qed
qed



section \<open>When nobody else is ready\<close>

text \<open>
  If no other task is ready, a switch goes back to the current task and marks it running,
  whatever its state was: a task that has just blocked or exited is resumed.
\<close>

theorem switch_resumes_current:
  assumes "kernel_ok s" "0 \<le> current_task s" "current_task s < int (num_tasks s)"
    and "\<forall>i < num_tasks s. int i \<noteq> current_task s \<longrightarrow> t_state (task_at s i) \<noteq> TASK_READY"
  shows "\<exists>q t. switch_to_next s = Inr (q, t) \<and> current_task t = current_task s
    \<and> t_state (task_at t (nat (current_task s))) = TASK_RUNNING"
proof -
  let ?c = "current_task s"
  have "x \<noteq> ?c" "nat x < num_tasks s" if "x \<in> set (candidates s)" for x
  proof -
    obtain k where k: "1 \<le> k" "k < num_tasks s" "x = (?c + int k) mod int (num_tasks s)"
      using \<open>x \<in> set (candidates s)\<close> by (auto simp: candidates_def)
    show "nat x < num_tasks s" using candidates_range[OF that] by (simp add: nat_less_iff)
    show "x \<noteq> ?c"
    proof
      assume "x = ?c"
      then have "(?c + int k) mod int (num_tasks s) = (?c + 0) mod int (num_tasks s)"
        using k(3) assms(2,3) by simp
      then have "int (num_tasks s) dvd int k" by (simp add: mod_eq_dvd_iff)
      then show False using k(1,2) by (auto dest: dvd_imp_le)
    qed
  qed
  then have "\<forall>x \<in> set (candidates s). t_state (task_at s (nat x)) \<noteq> TASK_READY"
    using assms(4) candidates_range by fastforce
  then have "List.find (\<lambda>n. t_state (task_at s (nat n)) = TASK_READY) (candidates s) = None"
    by (simp add: find_None_iff)
  then have next_c: "schedule_next s = (?c, s)" by (simp add: schedule_next_def)
  have "?c < 64" "nat ?c < length (tasks s)" using assms(1,2,3) by (auto simp: kernel_ok_def)
  then show ?thesis
    using assms(2) next_c by (auto simp: switch_to_next_def Let_def paging_switch_def)
qed

text \<open>A blocked task whose companions have exited.\<close>

definition stuck_demo :: kstate where
  "stuck_demo = set_state 0 TASK_BLOCKED (set_state 1 TASK_EXITED kernel_demo)"

theorem switch_resumes_current_witness:
  "\<exists>q t. switch_to_next stuck_demo = Inr (q, t) \<and> current_task t = 0 \<and> t_state (task_at t 0) = TASK_RUNNING"
proof -
  have "kernel_ok stuck_demo"
    using kernel_demo_inv by (simp add: stuck_demo_def kernel_inv_def kernel_ok_set_state)
  moreover have "\<forall>i < num_tasks stuck_demo. int i \<noteq> current_task stuck_demo \<longrightarrow> t_state (task_at stuck_demo i) \<noteq> TASK_READY"
  proof (intro allI impI)
    fix i assume "i < num_tasks stuck_demo" "int i \<noteq> current_task stuck_demo"
    then have "i = 1 \<or> i = 2" by (auto simp: stuck_demo_def)
    then show "t_state (task_at stuck_demo i) \<noteq> TASK_READY" by (auto simp: stuck_demo_def)
  qed
  ultimately show ?thesis
    using switch_resumes_current[of stuck_demo] by (simp add: stuck_demo_def del: kernel_demo_fields(5))
qed

text \<open>
  After \<^verbatim>\<open>sys_exit\<close> the task has no kernel stack page any more, but with other tasks
  around the interrupt handler still saves its registers: the frame is written to physical
  address 0, which becomes the saved \<^verbatim>\<open>rsp\<close> of the dead task.
\<close>

theorem exit_saves_frame_at_zero:
  assumes "sys_exit s = Inr u" "kernel_inv s" "0 \<le> current_task s" "frame_away r 0"
  shows "\<exists>v. save_frame r u = Inr v \<and> t_rsp (task_at v (nat (current_task s))) = 0
    \<and> frame_of (mem v) 0 = frame_of (mem u) r"
proof -
  let ?c = "nat (current_task s)"
  note e = sys_exit_current[OF assms(1-3)]
  have inv: "kernel_inv u" using sys_exit_inv[OF assms(1,2)] .
  have c: "current_index u = Inr ?c" "?c < length (tasks u)"
    using e(1) assms(3) kernel_inv_bounds(1,3)[OF inv] by (auto simp: current_index_Inr)
  have "stack_phys (task_at u ?c) = 0" using sys_exit_stack[OF assms(1-3)] .
  then show ?thesis
    using c copy_frame_correct(1)[of 0 r "mem u"] assms(4)
    by (simp add: save_frame_def Let_def)
qed

lemma kernel_demo_exits: "\<exists>u. sys_exit kernel_demo = Inr u"
proof -
  have "tasks (exit_prefix kernel_demo) ! 0 = (demo_task 1 TASK_RUNNING 0x300000)\<lparr>stack_phys := 0\<rparr>"
    by (simp add: exit_prefix_def Let_def del: kernel_demo_fields(5))
  then have "free_task_memory 0 (exit_prefix kernel_demo) = Inr (exit_prefix kernel_demo)"
    by (simp add: free_task_memory_def demo_task_def zero_task_def)
  then show ?thesis using sys_exit_split[of kernel_demo] by (simp add: Let_def)
qed

theorem exit_saves_frame_at_zero_witness:
  "\<exists>u v. sys_exit kernel_demo = Inr u \<and> save_frame 0x9000 u = Inr v \<and> t_rsp (task_at v 0) = 0"
proof -
  obtain u where u: "sys_exit kernel_demo = Inr u" using kernel_demo_exits by blast
  have "frame_away 0x9000 0" by (rule frame_away_page) (simp_all add: page_aligned_def)
  then show ?thesis
    using exit_saves_frame_at_zero[OF u kernel_demo_inv, of "0x9000"] u by auto
qed

end
