(* ===== verification/Gdt.thy ===== *)
theory Gdt
  imports Kernel_State
begin

text \<open>
  \<^verbatim>\<open>kernel/gdt.c\<close>: the task state segment, from which the processor takes the kernel stack
  on an interrupt from user mode, and its descriptor in the global descriptor table. The
  address of that table is what \<^verbatim>\<open>sgdt\<close> stores, a parameter here; the boot loader places
  the table inside its second stage.
\<close>

section \<open>Operation\<close>

abbreviation TSS_PHYS :: u64 where "TSS_PHYS \<equiv> 0x8F00"

text \<open>\<^verbatim>\<open>tss_t\<close> is packed: 104 bytes, \<^verbatim>\<open>rsp0\<close> at offset 4, \<^verbatim>\<open>iomap_base\<close> at 102.\<close>

definition clear_tss :: "memory \<Rightarrow> memory" where
  "clear_tss m = fold (\<lambda>i. write32 (TSS_PHYS + 4 * of_nat i) 0) [0..<26] m"

definition tss_desc_low :: "u64 \<Rightarrow> u64" where
  "tss_desc_low tss_addr =
     (let low = 0;
          low = low OR 0x67;
          low = low OR push_bit 16 (tss_addr AND 0xFFFF);
          low = low OR push_bit 32 (drop_bit 16 tss_addr AND 0xFF);
          low = low OR push_bit 40 0x89
      in low OR push_bit 56 (drop_bit 24 tss_addr AND 0xFF))"

definition tss_desc_high :: "u64 \<Rightarrow> u64" where
  "tss_desc_high tss_addr = push_bit 32 (drop_bit 32 tss_addr)"

text \<open>The first component is the selector \<^verbatim>\<open>ltr\<close> loads, if it is reached.\<close>

definition gdt_setup_tss :: "u64 \<Rightarrow> 'a pmm_state_scheme \<Rightarrow> u16 option \<times> 'a pmm_state_scheme" where
  "gdt_setup_tss gdt_base s =
     (let (stack, s) = pmm_alloc_page s
      in if stack = 0 then (None, kputs (''[kernel] ERROR: TSS stack alloc failed'' @ crlf) s)
         else
           let m = clear_tss (mem s);
               m = write64 (TSS_PHYS + 4) (stack + 4096) m;
               m = write16 (TSS_PHYS + 102) 104 m;
               desc = gdt_base + 0x30;
               m = write64 desc (tss_desc_low TSS_PHYS) m;
               m = write64 (desc + 8) (tss_desc_high TSS_PHYS) m
           in (Some 0x30, kputs (''[kernel] TSS set up'' @ crlf) (s\<lparr>mem := m\<rparr>)))"

section \<open>What the processor reads back\<close>

text \<open>The fields of a 16-byte system-segment descriptor, as the processor decodes them.\<close>

definition desc_base :: "u64 \<Rightarrow> u64 \<Rightarrow> u64" where
  "desc_base low high =
     (drop_bit 16 low AND 0xFFFFFF) OR push_bit 24 (drop_bit 56 low) OR push_bit 32 (high AND 0xFFFFFFFF)"

definition desc_limit :: "u64 \<Rightarrow> u64" where
  "desc_limit low = (low AND 0xFFFF) OR push_bit 16 (drop_bit 48 low AND 0xF)"

definition desc_access :: "u64 \<Rightarrow> u64" where
  "desc_access low = drop_bit 40 low AND 0xFF"

text \<open>
  The descriptor word for any address below 4 GiB decodes to that address; above, it does not:
  the upper half is stored where the processor does not look for it.
\<close>

lemma bit_below:
  fixes v :: u64
  assumes "take_bit k v = v" "bit v n"
  shows "n < k"
  using assms by (metis bit_take_bit_iff)

lemma byte_masks:
  fixes a :: u64
  shows "a AND 0xFFFF = take_bit 16 a" "a AND 0xFF = take_bit 8 a" "a AND 0xFFFFFF = take_bit 24 a"
    "a AND 0xFFFFFFFF = take_bit 32 a"
  by (simp_all add: take_bit_eq_mask mask_eq_exp_minus_1)

lemma bit_desc_fields:
  fixes x y a :: u64
  assumes "k < 64"
  shows "bit (((((0 OR x) OR push_bit 16 (take_bit 16 a)) OR push_bit 32 (take_bit 8 (drop_bit 16 a)))
      OR push_bit 40 y) OR push_bit 56 (take_bit 8 (drop_bit 24 a))) k \<longleftrightarrow>
     bit x k \<or> 16 \<le> k \<and> k < 40 \<and> bit a (k - 16) \<or> 40 \<le> k \<and> bit y (k - 40) \<or> 56 \<le> k \<and> bit a (k - 32)"
proof -
  have "16 + (k - 32) = k - 16" if "32 \<le> k" using that by simp
  moreover have "24 + (k - 56) = k - 32" if "56 \<le> k" using that by simp
  ultimately show ?thesis
    using assms
    by (auto simp: bit_or_iff bit_take_bit_iff bit_push_bit_iff bit_drop_bit_eq)
qed

lemma bit_tss_desc_low:
  "k < 64 \<Longrightarrow> bit (tss_desc_low a) k \<longleftrightarrow>
     bit (0x67 :: u64) k \<or> 16 \<le> k \<and> k < 40 \<and> bit a (k - 16) \<or> 40 \<le> k \<and> bit (0x89 :: u64) (k - 40)
     \<or> 56 \<le> k \<and> bit a (k - 32)"
  unfolding tss_desc_low_def Let_def byte_masks by (rule bit_desc_fields)

lemma tss_desc_base: "desc_base (tss_desc_low a) (tss_desc_high a) = a AND 0xFFFFFFFF"
proof (rule bit_word_eqI)
  fix n
  assume n: "n < LENGTH(64)"
  have c: "\<not> bit (0x67 :: u64) k" if "16 \<le> k" for k
    using bit_below[of 7 "0x67" k] that by fastforce
  have d: "\<not> bit (0x89 :: u64) k" if "8 \<le> k" for k
    using bit_below[of 8 "0x89" k] that by fastforce
  have low: "bit (tss_desc_low a) (16 + n) \<longleftrightarrow> bit a n" if "n < 24"
    using that c[of "16 + n"] by (subst bit_tss_desc_low) auto
  have high: "bit (tss_desc_low a) (56 + (n - 24)) \<longleftrightarrow> bit a n" if "24 \<le> n" "n < 32"
    using that c[of "32 + n"] d[of "n - 8"] by (subst bit_tss_desc_low) auto
  have none: "\<not> bit (tss_desc_low a) (56 + (n - 24))" if "32 \<le> n"
    using that bit_imp_le_length[of "tss_desc_low a" "56 + (n - 24)"] by auto
  have shift: "\<not> 32 \<le> n - 32" using n by simp
  consider "n < 24" | "24 \<le> n" "n < 32" | "32 \<le> n" by linarith
  then show "bit (desc_base (tss_desc_low a) (tss_desc_high a)) n = bit (a AND 0xFFFFFFFF) n"
    unfolding desc_base_def tss_desc_high_def byte_masks
    by cases (use n low high none shift in
      \<open>simp_all add: bit_or_iff bit_take_bit_iff bit_push_bit_iff bit_drop_bit_eq bit_imp_le_length\<close>)
qed

lemma tss_desc_phys:
  "desc_base (tss_desc_low TSS_PHYS) (tss_desc_high TSS_PHYS) = TSS_PHYS"
  "desc_limit (tss_desc_low TSS_PHYS) = 103" "desc_access (tss_desc_low TSS_PHYS) = 0x89"
  by (subst tss_desc_base, simp) (simp_all add: desc_limit_def desc_access_def tss_desc_low_def Let_def)

section \<open>Correctness\<close>

lemma write64_apart:
  assumes "unat a + 8 \<le> unat b \<or> unat b < unat a" "unat a + 8 < 2 ^ 64"
  shows "write64 a v m b = m b"
proof (rule write64_outside)
  show "\<not> b - a < 8"
    using assms unat_less_2p64[of b] by (auto simp: word_less_nat_alt unat_sub_if')
qed

lemma fold_apart:
  assumes "\<And>x m. x \<in> set xs \<Longrightarrow> f x m a = m a"
  shows "fold f xs m a = m a"
  using assms by (induction xs arbitrary: m) simp_all

lemma clear_tss_apart:
  assumes "0x9000 \<le> unat a"
  shows "clear_tss m a = m a"
  unfolding clear_tss_def
proof (rule fold_apart)
  fix i and m :: memory
  assume "i \<in> set [0..<26]"
  then have i: "unat (4 * of_nat i :: u64) = 4 * i" "i < 26"
    by (simp_all add: unat_word_ariths unat_of_nat take_bit_nat_eq_self_iff)
  have "unat (TSS_PHYS + 4 * of_nat i + d) < 0x9000" if "d < 4" for d :: u64
    using i that by (simp add: unat_word_ariths word_less_nat_alt)
  then have "a \<noteq> TSS_PHYS + 4 * of_nat i + d" if "d < 4" for d :: u64
    using assms that by (metis not_le)
  from this[of 0] this[of 1] this[of 2] this[of 3]
  show "write32 (TSS_PHYS + 4 * of_nat i) 0 m a = m a" by (simp add: write32_def)
qed

text \<open>The memory \<^verbatim>\<open>gdt_setup_tss\<close> leaves, for a stack page \<open>k\<close>.\<close>

definition tss_memory :: "u64 \<Rightarrow> u64 \<Rightarrow> memory \<Rightarrow> memory" where
  "tss_memory g k m =
     write64 (g + 0x38) (tss_desc_high TSS_PHYS) (write64 (g + 0x30) (tss_desc_low TSS_PHYS)
       (write16 0x8F66 104 (write64 0x8F04 (k + 4096) (clear_tss m))))"

lemma gdt_setup_tss_Some:
  assumes "pmm_alloc_page s = (k, u)" "k \<noteq> 0"
  shows "gdt_setup_tss g s = (Some 0x30, kputs (''[kernel] TSS set up'' @ crlf) (u\<lparr>mem := tss_memory g k (mem u)\<rparr>))"
  using assms by (simp add: gdt_setup_tss_def tss_memory_def Let_def add.assoc)

lemma tss_memory_facts:
  assumes g: "unat g \<le> 0x8EC0"
  shows "read64 (tss_memory g k m) 0x8F04 = k + 4096" "read16 (tss_memory g k m) 0x8F66 = 104"
    "read64 (tss_memory g k m) (g + 0x30) = tss_desc_low TSS_PHYS"
    "read64 (tss_memory g k m) (g + 0x38) = tss_desc_high TSS_PHYS"
    "0x9000 \<le> unat a \<Longrightarrow> tss_memory g k m a = m a"
proof -
  have u: "unat (g + 0x30) = unat g + 0x30" "unat (g + 0x38) = unat g + 0x38"
    using g by (simp_all add: unat_word_ariths)
  have above: "tss_memory g k m a = write16 0x8F66 104 (write64 0x8F04 (k + 4096) (clear_tss m)) a"
    if "0x8F00 \<le> unat a" for a
    using that g u by (simp add: tss_memory_def write64_apart)
  have "tss_memory g k m (0x8F04 + d) = write64 0x8F04 (k + 4096) (clear_tss m) (0x8F04 + d)"
    if "d < 8" for d
    using that word_less8_cases[OF that] above[of "0x8F04 + d"] by (auto simp: write16_def)
  then show "read64 (tss_memory g k m) 0x8F04 = k + 4096" using read64_cong by (metis read64_write64_same)
  show "read16 (tss_memory g k m) 0x8F66 = 104"
    using above[of "0x8F66"] above[of "0x8F67"] by (simp add: read16_def write16_def)
  have "tss_memory g k m (g + 0x30 + d) =
      write64 (g + 0x30) (tss_desc_low TSS_PHYS) (write16 0x8F66 104 (write64 0x8F04 (k + 4096) (clear_tss m)))
        (g + 0x30 + d)" if "d < 8" for d
  proof -
    have "unat (g + 0x30 + d) < unat (g + 0x38)"
      using that g u by (simp add: unat_word_ariths(1)[of "g + 0x30"] word_less_nat_alt)
    then show ?thesis using g u by (simp add: tss_memory_def write64_apart)
  qed
  then show "read64 (tss_memory g k m) (g + 0x30) = tss_desc_low TSS_PHYS"
    using read64_cong by (metis read64_write64_same)
  show "read64 (tss_memory g k m) (g + 0x38) = tss_desc_high TSS_PHYS"
    by (simp add: tss_memory_def)
  assume a: "0x9000 \<le> unat a"
  then have "a \<noteq> 0x8F66" "a \<noteq> 0x8F67" by auto
  then show "tss_memory g k m a = m a"
    using a above[of a] clear_tss_apart[OF a] write64_apart[of "0x8F04" a] by (simp add: write16_def)
qed

text \<open>
  C37: with a free frame \<open>k\<close> and a descriptor table below the task state segment, as the boot loader
  leaves it, \<^verbatim>\<open>gdt_setup_tss\<close> loads the selector of a descriptor which the processor
  decodes to an available 64-bit TSS at 0x8F00 of 104 bytes, whose stack pointer for ring 0 is the
  end of the frame taken; the rest of the free list is intact.
\<close>

theorem gdt_setup_tss_correct:
  assumes "free_frames s (k # ps)" "unat g \<le> 0x8EC0" "\<forall>p \<in> set (k # ps). 0x9000 \<le> unat p"
  shows "\<exists>t low high. gdt_setup_tss g s = (Some 0x30, t) \<and> low = read64 (mem t) (g + 0x30)
    \<and> high = read64 (mem t) (g + 0x38)
    \<and> desc_base low high = 0x8F00 \<and> desc_limit low = 103 \<and> desc_access low = 0x89
    \<and> read64 (mem t) (desc_base low high + 4) = k + 4096
    \<and> read16 (mem t) (desc_base low high + 102) = 104 \<and> free_frames t ps"
proof -
  obtain u where u: "pmm_alloc_page s = (k, u)" "free_frames u ps" "k \<noteq> 0"
    using assms(1) by (rule pmm.alloc_cases) auto
  let ?m = "tss_memory g k (mem u)"
  let ?t = "kputs (''[kernel] TSS set up'' @ crlf) (u\<lparr>mem := ?m\<rparr>)"
  note f = tss_memory_facts[OF assms(2)]
  have "mem ?t a = mem u a" if "page_of a \<in> set ps" for a
  proof -
    have "0x9000 \<le> unat (page_of a)" using that assms(3) by simp
    then have "0x9000 \<le> unat a" using page_of_le[of a] by (simp add: word_le_nat_alt)
    then show ?thesis using f(5) by simp
  qed
  then have "free_frames ?t ps" by (intro free_frames_cong[OF u(2)]) (simp_all add: kputs_def)
  moreover note gdt_setup_tss_Some[OF u(1,3), of g] f(1-4)[of k "mem u"] tss_desc_phys
  ultimately show ?thesis by (intro exI[of _ ?t]) simp
qed

theorem gdt_setup_tss_correct_witness:
  "\<exists>t. gdt_setup_tss 0x8400 boot_demo = (Some 0x30, t) \<and> read64 (mem t) 0x8F04 = 0x201000
     \<and> free_frames t [0x201000, 0x203000]"
  using gdt_setup_tss_correct[OF boot_demo_frames, of "0x8400"] by auto

end
