(* ===== verification/Kernel_Boot.thy ===== *)
theory Kernel_Boot
  imports Scheduling Gdt
begin

text \<open>
  \<^verbatim>\<open>kernel/kernel.c\<close> and the start of the scheduler: from the state the boot loader hands
  over to the first user instruction; and the behaviour of the running system as a transition
  relation, with the invariant all its states satisfy.
\<close>

section \<open>The scheduler's start\<close>

text \<open>
  The first component is the frame the processor resumes from; \<open>None\<close>: there is no task
  and the function returns.
\<close>

definition scheduler_start :: "kstate \<Rightarrow> u64 option \<times> kstate" where
  "scheduler_start s =
     (if num_tasks s = 0 then (None, s)
      else
        let s = s\<lparr>current_task := 0\<rparr>;
            s = set_state 0 TASK_RUNNING s;
            s = kputs (''[kernel] Scheduler started'' @ crlf) s;
            rsp = t_rsp (task_at s 0);
            pml4 = pml4_phys (task_at s 0);
            pml4 = (if pml4 = 0 then 0x1000 else pml4)
        in (Some rsp, s\<lparr>paging_root := pml4, cr3 := pml4\<rparr>))"

section \<open>The kernel's entry point\<close>

text \<open>
  What the kernel finds at its start: the addresses of the assembly stubs, of the boot loader's
  descriptor table and of the linker's symbols.
\<close>

record boot_env =
  isr :: "nat \<Rightarrow> u64"
  gdt_base :: u64
  kernel_end :: u64
  init_elf_start :: u64
  init_elf_end :: u64

text \<open>The C globals with their initial values, on a given memory and devices.\<close>

definition kernel_start :: "memory \<Rightarrow> (io_event list \<Rightarrow> u16 \<Rightarrow> u16) \<Rightarrow> kstate" where
  "kernel_start m dev =
     \<lparr>mem = m, device = dev, io_log = [], console = [], free_stack = 0, paging_root = 0x1000, cr3 = 0x1000,
      tasks = replicate MAX_TASKS zero_task, current_task = - 1, num_tasks = 0, next_pid = 8,
      heap_brk = HEAP_START, futex_waiters = replicate MAX_FUTEX_WAITERS (0, 0), num_futex_waiters = 0,
      ticks = 0, irq_handlers = replicate 16 0,
      idt = replicate 256 \<lparr>offset_0 = 0, selector = 0, ist = 0, gate_flags = 0, offset_1 = 0, offset_2 = 0,
        gate_reserved = 0\<rparr>,
      idtr_limit = 0\<rparr>"

text \<open>
  Interrupts are enabled before memory is set up; \<open>irqs k\<close> are those that arrive in the
  \<open>k\<close>-th gap between the calls that follow. They interrupt kernel code and only count
  ticks.
\<close>

definition deliver :: "nat list \<Rightarrow> kstate \<Rightarrow> kstate" where
  "deliver irqs s = fold irq_common irqs s"

definition kmain_devices :: "boot_env \<Rightarrow> kstate \<Rightarrow> kstate res" where
  "kmain_devices env s =
     (let s = kputs (''[kernel] x86-64 long mode'' @ crlf) s;
          s = idt_init (isr env) s;
          s = kputs (''[kernel] IDT loaded'' @ crlf) s;
          s = outb 0x21 0xFF s;
          s = outb 0xA1 0xFF s;
          s = pic_remap s;
          s = kputs (''[kernel] PIC remapped'' @ crlf) s
      in bind_res (pit_init 500 s) (\<lambda>s.
           let s = kputs (''[kernel] PIT 500 Hz'' @ crlf) s
           in Inr (outb 0x21 0xFC s)))"

text \<open>With \<open>None\<close> the kernel idles in its final loop, with interrupts enabled.\<close>

definition kmain :: "boot_env \<Rightarrow> (nat \<Rightarrow> nat list) \<Rightarrow> kstate \<Rightarrow> (u64 option \<times> kstate) res" where
  "kmain env irqs s =
     bind_res (kmain_devices env s) (\<lambda>s.
       let s = kputs (''[kernel] Interrupts enabled'' @ crlf) (deliver (irqs 0) s)
       in bind_res (pmm_init (kernel_end env) s) (\<lambda>s.
            let s = paging_init (deliver (irqs 1) s);
                s = task_init (deliver (irqs 2) s);
                (_, s) = gdt_setup_tss (gdt_base env) (deliver (irqs 3) s);
                init_size = init_elf_end env - init_elf_start env
            in bind_res (task_create (init_elf_start env) init_size 0x400000 1 (deliver (irqs 4) s)) (\<lambda>(_, s).
                 let s = kputs (''[kernel] Starting scheduler...'' @ crlf) (deliver (irqs 5) s)
                 in Inr (scheduler_start s))))"

section \<open>Boot establishes the invariant\<close>

text \<open>Before the first task is created.\<close>

definition boot_inv :: "kstate \<Rightarrow> bool" where
  "boot_inv s \<longleftrightarrow> kernel_inv s \<and> num_tasks s = 0 \<and> current_task s = - 1"

lemma boot_inv_keeps: "keeps_kernel s t \<Longrightarrow> boot_inv s \<Longrightarrow> boot_inv t"
  using kernel_inv_keeps keeps_kernel_fields(2,3) by (simp add: boot_inv_def)

lemma boot_inv_want: "boot_inv s \<Longrightarrow> want_ok w s \<longleftrightarrow> w = 0 \<or> w = 1"
  by (auto simp: boot_inv_def want_ok_def)

lemma boot_inv_simps [simp]:
  "boot_inv (outb p v s) = boot_inv s" "boot_inv (kputs str s) = boot_inv s"
  "boot_inv (io_wait s) = boot_inv s" "boot_inv (s\<lparr>idtr_limit := l\<rparr>) = boot_inv s"
  "boot_inv (s\<lparr>idt := ds\<rparr>) = boot_inv s" "boot_inv (paging_init s) = boot_inv s"
  by (simp_all add: boot_inv_def io_wait_def paging_init_def outb_def kputs_def kernel_inv_def
      kernel_ok_def one_running_def pids_ok_def)

lemma kernel_start_inv: "boot_inv (kernel_start m dev)"
  using demo_task_ok(2)
  by (simp add: kernel_start_def boot_inv_def kernel_inv_def kernel_ok_def one_running_def pids_ok_def)
    (simp add: zero_task_def)

lemma set_fold_update:
  "set (fold (\<lambda>i hs. hs[i := v]) is xs) \<subseteq> insert v (set xs)"
proof (induction "is" arbitrary: xs)
  case (Cons i "is")
  then show ?case using set_update_subset_insert[of xs i v] by fastforce
qed auto

lemma length_fold_update [simp]: "length (fold (\<lambda>i hs. hs[i := v]) is xs) = length xs"
  by (induction "is" arbitrary: xs) simp_all

lemma boot_inv_fold: "(\<And>x s. boot_inv s \<Longrightarrow> boot_inv (f x s)) \<Longrightarrow> boot_inv s \<Longrightarrow> boot_inv (fold f xs s)"
  by (induction xs arbitrary: s) simp_all

lemma boot_inv_idt_init:
  assumes "boot_inv s"
  shows "boot_inv (idt_init stubs s)"
proof -
  have hs: "\<forall>h \<in> set (irq_handlers s). - 1 \<le> h \<and> h < 64"
    using assms by (simp add: boot_inv_def kernel_inv_def kernel_ok_def)
  then have "boot_inv (s\<lparr>idtr_limit := l, irq_handlers := fold (\<lambda>i hs. hs[i := - 1]) is (irq_handlers s)\<rparr>)" for l "is"
    using assms set_fold_update[of "- 1" "is" "irq_handlers s"]
    by (fastforce simp: boot_inv_def kernel_inv_def kernel_ok_def one_running_def pids_ok_def)
  then show ?thesis
    unfolding idt_init_def Let_def
    by (simp add: idt_set_entry_def boot_inv_fold)
qed

lemma boot_inv_deliver: "boot_inv s \<Longrightarrow> boot_inv (deliver irqs s)"
  unfolding deliver_def by (rule boot_inv_fold) (simp_all add: boot_inv_def irq_common_inv)

lemma boot_inv_task_init: "boot_inv s \<Longrightarrow> boot_inv (task_init s)"
  unfolding task_init_def Let_def
proof (rule fold_invariant[where Q = "\<lambda>i. i < 64" and P = boot_inv])
  show "boot_inv (set_state i TASK_EXITED s)" if "i < 64" "boot_inv s" for i s
    using that by (simp add: boot_inv_def kernel_inv_set_state)
qed simp_all

lemma keeps_kernel_pmm_add: "keeps_kernel s (pmm_add_page e a s)"
  by (simp add: keeps_kernel_def pmm_add_page_def)

lemma keeps_kernel_pmm_loop:
  fixes s :: "'a paging_state_scheme"
  shows "pmm_init_loop e n i s = Inr t \<Longrightarrow> keeps_kernel s t"
proof (induction n arbitrary: i s)
  case (Suc n)
  then obtain u where u: "pmm_add_region e (e820_at (mem s) i) s = Inr u"
    "pmm_init_loop e n (Suc i) u = Inr t" by (auto simp: bind_res_Inr)
  have "keeps_kernel s u" if "for_pages (\<lambda>a s. (True, pmm_add_page e a s)) a b s = Inr (r, u)" for a b r
    by (rule kk.for_pages_rel[OF _ that]) (simp add: keeps_kernel_pmm_add)
  then have "keeps_kernel s u"
    using u(1)
    by (auto simp: pmm_add_region_def Let_def bind_res_Inr split: if_splits prod.splits)
  then show ?case using Suc.IH[OF u(2)] keeps_kernel_trans by blast
qed simp

lemma keeps_kernel_pmm_init:
  fixes s :: "'a paging_state_scheme"
  assumes "pmm_init e s = Inr t"
  shows "keeps_kernel s t"
proof -
  let ?s = "kputs crlf (kputhex (ucast (read32 (mem s) E820_BASE)) (kputs ''[kernel] E820 entries: '' s))"
  obtain u where u: "pmm_init_loop e (unat (read32 (mem s) E820_BASE)) 0 ?s = Inr u"
    "t = kputs (''[kernel] PMM ready'' @ crlf) u"
    using assms by (auto simp: pmm_init_def Let_def bind_res_Inr)
  have "keeps_kernel s ?s" using keeps_kernel_trans keeps_kernel_basic(4,5) by blast
  then show ?thesis using keeps_kernel_pmm_loop[OF u(1)] u(2) keeps_kernel_trans keeps_kernel_basic(4) by blast
qed

lemma keeps_kernel_gdt:
  fixes s :: "'a paging_state_scheme"
  assumes "gdt_setup_tss g s = (r, t)"
  shows "keeps_kernel s t"
proof -
  obtain k u where u: "pmm_alloc_page s = (k, u)" by fastforce
  have "keeps_kernel u t"
    using assms u by (auto simp: gdt_setup_tss_def Let_def keeps_kernel_def kputs_def split: if_splits)
  then show ?thesis using keeps_kernel_trans[OF keeps_kernel_alloc[OF u]] by blast
qed

lemma kernel_inv_root: "kernel_inv s \<Longrightarrow> kernel_inv (s\<lparr>paging_root := p, cr3 := p\<rparr>)"
  by (rule kernel_inv_cong[of _ s]) simp_all

lemma scheduler_start_inv:
  assumes "kernel_inv s" "current_task s = - 1"
  shows "kernel_inv (snd (scheduler_start s))"
proof -
  have "kernel_inv (s\<lparr>current_task := 0\<rparr>)"
    using assms by (auto simp: kernel_inv_def kernel_ok_def one_running_def pids_ok_def)
  then have "kernel_inv (set_state 0 TASK_RUNNING (s\<lparr>current_task := 0\<rparr>))"
    by (rule kernel_inv_set_state) simp_all
  then show ?thesis
    using assms(1) by (simp add: scheduler_start_def Let_def kernel_inv_root)
qed

lemma deliver_inv: "kernel_inv s \<Longrightarrow> kernel_inv (deliver irqs s) \<and> current_task (deliver irqs s) = current_task s"
  unfolding deliver_def by (induction irqs arbitrary: s) (simp_all add: irq_common_inv)

lemma boot_inv_devices: "kmain_devices env s = Inr t \<Longrightarrow> boot_inv s \<Longrightarrow> boot_inv t"
  by (auto simp: kmain_devices_def Let_def pit_init_def pic_remap_def boot_inv_idt_init)

lemma kmain_inv:
  assumes "kmain env irqs s = Inr (fr, t)" "boot_inv s"
  shows "kernel_inv t"
proof -
  obtain s1 where s1: "kmain_devices env s = Inr s1"
    using assms(1) by (auto simp: kmain_def bind_res_Inr)
  let ?s1 = "kputs (''[kernel] Interrupts enabled'' @ crlf) (deliver (irqs 0) s1)"
  obtain s2 where s2: "pmm_init (kernel_end env) ?s1 = Inr s2"
    using assms(1) s1 by (auto simp: kmain_def Let_def bind_res_Inr)
  let ?s3 = "deliver (irqs 3) (task_init (deliver (irqs 2) (paging_init (deliver (irqs 1) s2))))"
  obtain sel s4 where s4: "gdt_setup_tss (gdt_base env) ?s3 = (sel, s4)" by fastforce
  obtain r s5 where s5: "task_create (init_elf_start env) (init_elf_end env - init_elf_start env) 0x400000 1
      (deliver (irqs 4) s4) = Inr (r, s5)"
    and t: "(fr, t) = scheduler_start (kputs (''[kernel] Starting scheduler...'' @ crlf) (deliver (irqs 5) s5))"
    using assms(1) s1 s2 s4 by (auto simp: kmain_def Let_def bind_res_Inr)
  have "boot_inv s2"
    using boot_inv_devices[OF s1 assms(2)] boot_inv_keeps[OF keeps_kernel_pmm_init[OF s2]] boot_inv_deliver by simp
  then have "boot_inv s4"
    by (intro boot_inv_keeps[OF keeps_kernel_gdt[OF s4]])
      (simp add: boot_inv_deliver boot_inv_task_init)
  then have b: "boot_inv (deliver (irqs 4) s4)" by (rule boot_inv_deliver)
  then have "kernel_inv s5" "current_task s5 = - 1"
    using task_create_inv[OF s5] boot_inv_want[OF b] by (simp_all add: boot_inv_def)
  then show ?thesis
    using scheduler_start_inv[of "kputs (''[kernel] Starting scheduler...'' @ crlf) (deliver (irqs 5) s5)"]
      deliver_inv[of s5 "irqs 5"] t[symmetric]
    by (simp add: current_task_output)
qed

section \<open>The running system\<close>

text \<open>
  After boot, user code runs and changes memory in ways the kernel does not control, and
  interrupts, exceptions and system calls enter \<^verbatim>\<open>isr_handler\<close> with a frame somewhere in
  memory. The states in which the handler has returned are the reachable ones.
\<close>

inductive reachable :: "boot_env \<Rightarrow> kstate \<Rightarrow> bool" for env where
  boot: "kmain env irqs (kernel_start m dev) = Inr (fr, s) \<Longrightarrow> reachable env s"
| user: "reachable env s \<Longrightarrow> reachable env (s\<lparr>mem := m\<rparr>)"
| interrupt: "reachable env s \<Longrightarrow> isr_handler irqs cr2 r s = Inr (q, t) \<Longrightarrow> reachable env t"

inductive_cases reachable_cases: "reachable env s"

lemma reachable_kernel_inv: "reachable env s \<Longrightarrow> kernel_inv s"
proof (induction rule: reachable.induct)
  case (boot irqs m dev fr s)
  then show ?case using kmain_inv kernel_start_inv by blast
next
  case (user s m)
  then show ?case by simp
next
  case (interrupt s irqs cr2 r q t)
  then show ?case using isr_handler_keeps_inv by blast
qed


text \<open>A machine without usable memory boots into the idle loop, where the timer still ticks.\<close>

definition empty_env :: boot_env where
  "empty_env = \<lparr>isr = \<lambda>_. 0, gdt_base = 0x8400, kernel_end = 0x120000,
     init_elf_start = 0x110000, init_elf_end = 0x110000\<rparr>"

lemma read_zero_memory: "read32 (\<lambda>_. 0) a = 0" "read64 (\<lambda>_. 0) a = 0"
  by (simp_all add: read32_def read64_def)

text \<open>The gate \<^verbatim>\<open>idt_set_entry\<close> stores.\<close>

definition gate_for :: "u64 \<Rightarrow> u8 \<Rightarrow> idt_entry" where
  "gate_for handler flags =
     \<lparr>offset_0 = ucast (handler AND 0xFFFF), selector = 0x18, ist = 0, gate_flags = flags,
      offset_1 = ucast (drop_bit 16 handler AND 0xFFFF),
      offset_2 = ucast (drop_bit 32 handler AND 0xFFFFFFFF), gate_reserved = 0\<rparr>"

lemma idt_fold:
  "fold (\<lambda>i. idt_set_entry i (h i) f) is s =
     s\<lparr>idt := fold (\<lambda>i d. d[i := gate_for (h i) f]) is (idt s)\<rparr>"
  by (induction "is" arbitrary: s) (simp_all add: idt_set_entry_def gate_for_def)

lemma idt_init_fields:
  "mem (idt_init stubs s) = mem s" "free_stack (idt_init stubs s) = free_stack s"
  "num_tasks (idt_init stubs s) = num_tasks s" "device (idt_init stubs s) = device s"
  by (simp_all add: idt_init_def Let_def idt_fold idt_set_entry_def)

lemma kmain_devices_total:
  "\<exists>t. kmain_devices env s = Inr t \<and> mem t = mem s \<and> free_stack t = free_stack s \<and> num_tasks t = num_tasks s"
  by (simp add: kmain_devices_def Let_def pit_init_def pic_remap_def io_wait_def outb_def kputs_def idt_init_fields)

lemma output_fields:
  "free_stack (kputs str s) = free_stack s" "free_stack (kputhex v s) = free_stack s"
  "num_tasks (kputs str u) = num_tasks u" "num_tasks (kputhex v u) = num_tasks u"
  by (simp_all add: kputs_def kputhex_def)

lemma task_init_fields: "free_stack (task_init s) = free_stack s" "num_tasks (task_init s) = num_tasks s"
proof -
  have "free_stack (fold (\<lambda>i. set_state i TASK_EXITED) is s) = free_stack s"
    "num_tasks (fold (\<lambda>i. set_state i TASK_EXITED) is s) = num_tasks s" for "is" s
    by (induction "is" arbitrary: s) simp_all
  then show "free_stack (task_init s) = free_stack s" "num_tasks (task_init s) = num_tasks s"
    by (simp_all add: task_init_def output_fields)
qed

lemma no_memory:
  fixes s :: kstate
  assumes "free_stack s = 0"
  shows "\<exists>t. gdt_setup_tss g s = (None, t) \<and> free_stack t = 0 \<and> num_tasks t = num_tasks s"
    and "num_tasks s = 0 \<Longrightarrow> \<exists>t. task_create binary 0 addr w s = Inr (- 1, t) \<and> num_tasks t = 0"
    and "mem s = (\<lambda>_. 0) \<Longrightarrow> \<exists>t. pmm_init e s = Inr t \<and> free_stack t = 0 \<and> num_tasks t = num_tasks s"
  using assms
  by (simp_all add: gdt_setup_tss_def task_create_def pmm_init_def pmm_alloc_page_def read_zero_memory
      output_fields)

lemma idle_boot:
  "\<exists>s. kmain empty_env (\<lambda>_. []) (kernel_start (\<lambda>_. 0) dev) = Inr (None, s) \<and> num_tasks s = 0"
proof -
  let ?s0 = "kernel_start (\<lambda>_. 0) dev"
  obtain s1 where s1: "kmain_devices empty_env ?s0 = Inr s1" "mem s1 = (\<lambda>_. 0)" "free_stack s1 = 0" "num_tasks s1 = 0"
    using kmain_devices_total[of empty_env ?s0] by (auto simp: kernel_start_def)
  let ?s1 = "kputs (''[kernel] Interrupts enabled'' @ crlf) s1"
  obtain s2 where s2: "pmm_init (kernel_end empty_env) ?s1 = Inr s2" "free_stack s2 = 0" "num_tasks s2 = 0"
    using no_memory(3)[of ?s1] s1 by (auto simp: output_fields)
  let ?s2 = "task_init (paging_init s2)"
  obtain s3 where s3: "gdt_setup_tss (gdt_base empty_env) ?s2 = (None, s3)" "free_stack s3 = 0" "num_tasks s3 = 0"
    using no_memory(1)[of ?s2] s2 by (auto simp: task_init_fields paging_init_def output_fields)
  obtain s4 where s4: "task_create (init_elf_start empty_env) 0 0x400000 1 s3 = Inr (- 1, s4)" "num_tasks s4 = 0"
    using no_memory(2)[OF s3(2,3)] by blast
  have sz: "init_elf_end empty_env - init_elf_start empty_env = 0" by (simp add: empty_env_def)
  have "kmain empty_env (\<lambda>_. []) ?s0 = Inr (scheduler_start (kputs (''[kernel] Starting scheduler...'' @ crlf) s4))"
    unfolding kmain_def deliver_def Let_def s1(1) fold_simps id_apply bind_res_simps s2(1) s3(1) sz s4(1) prod.case ..
  then show ?thesis using s4(2) by (simp add: scheduler_start_def output_fields)
qed


section \<open>What the devices are told\<close>

text \<open>The handler address the processor assembles from a gate.\<close>

definition gate_target :: "idt_entry \<Rightarrow> u64" where
  "gate_target e = ucast (offset_0 e) OR push_bit 16 (ucast (offset_1 e)) OR push_bit 32 (ucast (offset_2 e))"

lemma gate_target_for: "gate_target (gate_for h f) = h"
proof (rule bit_word_eqI)
  fix n
  assume n: "n < LENGTH(64)"
  consider "n < 16" | "16 \<le> n" "n < 32" "n - 16 < 16" | "32 \<le> n" "\<not> n - 16 < 16" "n - 32 < 32"
    using n by fastforce
  then show "bit (gate_target (gate_for h f)) n = bit h n"
    unfolding gate_target_def gate_for_def idt_entry.simps byte_masks
    by cases (use n in \<open>simp_all add: bit_or_iff bit_push_bit_iff bit_take_bit_iff bit_drop_bit_eq bit_ucast_iff\<close>)
qed

lemma nth_fold_update:
  assumes "j < length xs"
  shows "fold (\<lambda>i d. d[i := f i]) is xs ! j = (if j \<in> set is then f j else xs ! j)"
proof (induction "is" rule: rev_induct)
  case (snoc i "is")
  have "length (fold (\<lambda>i d. d[i := f i]) is xs) = length xs" by (induction "is" arbitrary: xs) simp_all
  then show ?case using snoc assms by (cases "i = j") auto
qed simp

lemma idt_init_table:
  "idt (idt_init stubs s) =
     (fold (\<lambda>i d. d[i := gate_for (stubs i) 0x8E]) [0..<48]
       (fold (\<lambda>i d. d[i := gate_for 0 0x8E]) [0..<48] (idt s)))[128 := gate_for (stubs 128) 0xEF]"
  by (simp add: idt_init_def Let_def idt_fold idt_set_entry_def gate_for_def)

text \<open>
  C36: after \<^verbatim>\<open>idt_init\<close> the gate of each exception and hardware interrupt, and of the system
  call, leads to its own stub in the kernel's code segment; hardware vectors have interrupt
  gates for the kernel only, the system call a trap gate open to user mode; all other entries are as
  they were, and the limit covers the 256 entries.
\<close>

theorem idt_init_gates:
  assumes "length (idt s) = 256" "v < 256"
  shows "let e = idt (idt_init stubs s) ! v
    in if v < 48 \<or> v = 0x80
       then gate_target e = stubs v \<and> selector e = 0x18 \<and> ist e = 0
         \<and> gate_flags e = (if v = 0x80 then 0xEF else 0x8E) \<and> idtr_limit (idt_init stubs s) = 256 * 16 - 1
       else e = idt s ! v"
proof -
  have len: "length (fold (\<lambda>i d. d[i := g i]) is xs) = length xs" for g "is" and xs :: "idt_entry list"
    by (induction "is" arbitrary: xs) simp_all
  have "idt (idt_init stubs s) ! v =
      (if v = 128 then gate_for (stubs 128) 0xEF else if v < 48 then gate_for (stubs v) 0x8E else idt s ! v)"
    using assms by (auto simp: idt_init_table nth_list_update nth_fold_update len)
  moreover have "selector (gate_for h f) = 0x18" "ist (gate_for h f) = 0" "gate_flags (gate_for h f) = f" for h f
    by (simp_all add: gate_for_def)
  moreover have "idtr_limit (idt_init stubs s) = 256 * 16 - 1"
    by (simp add: idt_init_def Let_def idt_fold idt_set_entry_def)
  ultimately show ?thesis by (simp add: gate_target_for)
qed

theorem idt_init_gates_witness:
  "gate_target (idt (idt_init (\<lambda>v. 0x100000 + of_nat v) (kernel_start (\<lambda>_. 0) (\<lambda>_ _. 0))) ! 33) = 0x100021"
  using idt_init_gates[of "kernel_start (\<lambda>_. 0) (\<lambda>_ _. 0)" 33 "\<lambda>v. 0x100000 + of_nat v"]
  by (simp add: Let_def kernel_start_def)

text \<open>The reload value the timer assembles from the low and the high byte it is sent.\<close>

definition pit_reload :: "io_event list \<Rightarrow> nat option" where
  "pit_reload log = (case log of
      Out_Byte p2 hi # Out_Byte p1 lo # Out_Byte p0 cmd # _ \<Rightarrow>
        if p2 = 0x40 \<and> p1 = 0x40 \<and> p0 = 0x43 \<and> cmd = 0x36 then Some (unat lo + 256 * unat hi) else None
    | _ \<Rightarrow> None)"

lemma unat_low_bytes:
  fixes d :: u32
  shows "unat (ucast (d AND 0xFF) :: u8) + 256 * unat (ucast (drop_bit 8 d AND 0xFF) :: u8) = unat d mod 65536"
proof -
  have m: "x AND 0xFF = take_bit 8 x" for x :: u32 by (simp add: take_bit_eq_mask mask_eq_exp_minus_1)
  have "unat (ucast (d AND 0xFF) :: u8) = unat d mod 256"
    "unat (ucast (drop_bit 8 d AND 0xFF) :: u8) = unat d div 256 mod 256"
    unfolding m by (simp_all add: unsigned_ucast_eq unsigned_take_bit_eq unsigned_drop_bit_eq take_bit_eq_mod drop_bit_eq_div
        unat_mod unat_div)
  moreover have "n mod 256 + 256 * (n div 256 mod 256) = n mod 65536" for n :: nat
    using mod_mult2_eq[of n 256 256] by simp
  ultimately show ?thesis by simp
qed

text \<open>
  For a frequency from 19 Hz to 1193182 Hz, \<^verbatim>\<open>pit_init\<close> programs a reload value that is at least 1, fits the
  sixteen bits of the timer and is the exact quotient; so 500 Hz gives 2386. Below 19 Hz only
  the quotient modulo 65536 reaches the timer.
\<close>

theorem pit_init_programs:
  assumes "frequency \<noteq> 0"
  shows "\<exists>t. pit_init frequency s = Inr t
    \<and> pit_reload (io_log t) = Some (1193182 div unat frequency mod 65536)
    \<and> (19 \<le> unat frequency \<and> unat frequency \<le> 1193182 \<longrightarrow>
         pit_reload (io_log t) = Some (1193182 div unat frequency) \<and> 1 \<le> 1193182 div unat frequency)"
proof -
  have q: "unat (1193182 div frequency) = 1193182 div unat frequency" by (simp add: unat_div)
  have "1193182 div n < 65536" "1 \<le> 1193182 div n" if "19 \<le> n" "n \<le> 1193182" for n :: nat
    using div_le_mono2[of 19 n 1193182] div_le_mono[of n 1193182 n] that by simp_all
  then show ?thesis
    using assms by (simp add: pit_init_def Let_def outb_def pit_reload_def unat_low_bytes q)
qed

theorem pit_init_programs_witness:
  "\<exists>t. pit_init 500 kernel_demo = Inr t \<and> pit_reload (io_log t) = Some 2386"
  using pit_init_programs[of 500 kernel_demo] by auto

end
