(* ===== verification/Task_Lifecycle.thy ===== *)
theory Task_Lifecycle
  imports Interrupts
begin

text \<open>
  What the remaining system calls of \<^verbatim>\<open>kernel/task.c\<close> do: ending a process and waking
  its waiter, releasing its memory, killing a process and starting a thread.
\<close>

section \<open>Ending a process\<close>

lemma page_aligned_times: "page_aligned (x * 4096)"
  by (simp add: page_aligned_dvd unat_word_ariths dvd_mod)

lemma free_user_range_total:
  "page_aligned a \<Longrightarrow> page_aligned b \<Longrightarrow> \<exists>t. free_user_range pml4 a b s = Inr t"
  by (simp add: free_user_range_def Let_def for_pages_fold)

text \<open>A process whose load address is a page boundary can always be released.\<close>

lemma free_task_memory_total:
  assumes "page_aligned (load_addr (task_at s i))"
  shows "\<exists>t. free_task_memory i s = Inr t"
proof -
  let ?t = "task_at s i"
  have al: "page_aligned (load_addr ?t + code_pages ?t * 4096)" "page_aligned (load_addr ?t + 0x100000)"
    "page_aligned (load_addr ?t + 0x100000 - 4 * 4096)"
    using assms page_aligned_add[OF assms page_aligned_times] page_aligned_add[OF assms, of "0x100000"]
      page_aligned_add[OF assms, of "0xFC000"]
    by (simp_all add: page_aligned_def[of "0x100000"] page_aligned_def[of "0xFC000"] add.commute)
  obtain u where "free_user_range (pml4_phys ?t) (load_addr ?t) (load_addr ?t + code_pages ?t * 4096) s = Inr u"
    using free_user_range_total[OF assms al(1)] by blast
  then show ?thesis
    using free_user_range_total[OF al(3,2), of "pml4_phys ?t" u] by (simp add: free_task_memory_def Let_def)
qed

lemma sys_exit_total:
  assumes "kernel_inv s" "page_aligned (load_addr (task_at s (nat (current_task s))))"
  shows "\<exists>t. sys_exit s = Inr t"
proof (cases "current_task s < 0")
  case True
  then show ?thesis by (simp add: sys_exit_def)
next
  case False
  let ?i = "nat (current_task s)"
  have "?i < length (tasks s)" using kernel_inv_bounds(1,3)[OF assms(1)] False by simp
  moreover have "nat (wait_idx (task_at s ?i)) < length (tasks s)"
    using kernel_inv_task[OF assms(1), of ?i] kernel_inv_bounds(1)[OF assms(1)] calculation
    by (auto simp: task_ok_def)
  ultimately have "load_addr (task_at (exit_prefix s) ?i) = load_addr (task_at s ?i)"
    by (simp add: exit_prefix_def Let_def)
  then obtain u where "free_task_memory ?i (exit_prefix s) = Inr u"
    using free_task_memory_total[of "exit_prefix s" ?i] assms(2) by auto
  then show ?thesis using False sys_exit_split[of s] by (simp add: Let_def)
qed

lemma sys_exit_waiter:
  assumes "sys_exit s = Inr t" "kernel_inv s" "0 \<le> current_task s"
    and "wait_idx (task_at s (nat (current_task s))) = int w" "w \<noteq> nat (current_task s)"
  shows "t_state (task_at t w) = TASK_READY \<and> t_state (task_at t (nat (current_task s))) = TASK_EXITED
    \<and> (\<forall>j. j \<noteq> w \<and> j \<noteq> nat (current_task s) \<longrightarrow> task_at t j = task_at s j)"
proof -
  let ?i = "nat (current_task s)"
  have i: "?i < 64" "?i < length (tasks s)"
    using kernel_inv_bounds(1,3)[OF assms(2)] assms(3) by auto
  have w: "w < length (tasks s)"
    using kernel_inv_task[OF assms(2) i(1)] assms(4) kernel_inv_bounds(1)[OF assms(2)] by (simp add: task_ok_def)
  have p: "kernel_inv (exit_prefix s)" using exit_prefix_inv[OF assms(2,3)] .
  obtain u where u: "free_task_memory ?i (exit_prefix s) = Inr u"
    and t: "tasks t = tasks (set_state ?i TASK_EXITED u)"
    using assms(1,3) by (auto simp: sys_exit_split Let_def bind_res_Inr kputs_def kputhex_def)
  have tu: "tasks u = tasks (exit_prefix s)"
    using keeps_kernel_fields(1)[OF free_task_memory_keeps[OF u kernel_inv_bounds(8)[OF p]]] .
  have pre: "task_at (exit_prefix s) j = (if j = w then (task_at s w)\<lparr>t_state := TASK_READY\<rparr> else task_at s j)"
    if "j \<noteq> ?i" for j
    using i w assms(4,5) that by (simp add: exit_prefix_def Let_def)
  have "length (tasks u) = length (tasks s)"
    using tu i kernel_inv_bounds(1)[OF p] kernel_inv_bounds(1)[OF assms(2)] by simp
  then have "task_at t j = (if j = ?i then (task_at u ?i)\<lparr>t_state := TASK_EXITED\<rparr> else task_at u j)" for j
    using t i by simp
  then show ?thesis using tu pre assms(5) by simp
qed

text \<open>
  C15: \<^verbatim>\<open>sys_exit\<close> returns; it marks the caller exited, makes the task that waits for it ready, and
  leaves every other task as it was.
\<close>

theorem sys_exit_wakes_waiter:
  assumes "kernel_inv s" "0 \<le> current_task s" "page_aligned (load_addr (task_at s (nat (current_task s))))"
    and "wait_idx (task_at s (nat (current_task s))) = int w" "w \<noteq> nat (current_task s)"
  shows "\<exists>t. sys_exit s = Inr t
    \<and> t_state (task_at t w) = TASK_READY \<and> t_state (task_at t (nat (current_task s))) = TASK_EXITED
    \<and> (\<forall>j. j \<noteq> w \<and> j \<noteq> nat (current_task s) \<longrightarrow> task_at t j = task_at s j)"
  using sys_exit_total[OF assms(1,3)] sys_exit_waiter[OF _ assms(1,2,4,5)] by blast

text \<open>The running task has a waiter.\<close>

definition wait_demo :: kstate where
  "wait_demo = upd_task 0 (\<lambda>t. t\<lparr>wait_idx := 2\<rparr>) kernel_demo"

lemma wait_demo_inv: "kernel_inv wait_demo"
  unfolding wait_demo_def
  by (rule kernel_inv_upd_task[OF kernel_demo_inv]) (simp_all add: demo_task_ok task_ok_wait del: kernel_demo_fields(5))

theorem sys_exit_wakes_waiter_witness:
  "\<exists>t. sys_exit wait_demo = Inr t \<and> t_state (task_at t 2) = TASK_READY \<and> t_state (task_at t 0) = TASK_EXITED"
  using sys_exit_wakes_waiter[OF wait_demo_inv, of 2]
  by (auto simp: wait_demo_def demo_task_def zero_task_def simp del: kernel_demo_fields(5))

lemma sys_kill_effect:
  assumes "sys_kill pid s = Inr (0, t)" "kernel_inv s"
  shows "\<exists>i. find_live pid s = Some i \<and> t_state (task_at t i) = TASK_EXITED
    \<and> (\<forall>j. j \<noteq> i \<longrightarrow> task_at t j = task_at s j)"
proof -
  obtain i where i: "find_live pid s = Some i"
    using assms(1) by (auto simp: sys_kill_def split: option.splits)
  then have i64: "i < 64" unfolding find_live_def by (rule find_task_less[OF assms(2)])
  define u where "u = (let s = set_state i TASK_EXITED s
     in if stack_phys (task_at s i) \<noteq> 0 then pmm_free_page (stack_phys (task_at s i)) s else s)"
  have ku: "kernel_inv u"
    using kernel_inv_set_state[OF assms(2) i64, of TASK_EXITED] by (simp add: u_def Let_def)
  have t: "free_task_memory i u = Inr t"
    using assms(1) i by (auto simp: sys_kill_def u_def Let_def bind_res_Inr)
  have "tasks t = tasks (set_state i TASK_EXITED s)"
    using keeps_kernel_fields(1)[OF free_task_memory_keeps[OF t kernel_inv_bounds(8)[OF ku]]]
    by (simp add: u_def Let_def)
  then show ?thesis using i i64 kernel_inv_bounds(1)[OF assms(2)] by simp
qed

text \<open>
  \<^verbatim>\<open>sys_kill\<close> marks the process exited and touches no other task: a task that waits for
  it stays blocked.
\<close>

theorem sys_kill_wakes_nobody:
  assumes "kernel_inv s" "find_live pid s = Some i" "page_aligned (load_addr (task_at s i))"
  shows "\<exists>t. sys_kill pid s = Inr (0, t) \<and> t_state (task_at t i) = TASK_EXITED
    \<and> (\<forall>j. j \<noteq> i \<longrightarrow> task_at t j = task_at s j)"
proof -
  define u where "u = (let s = set_state i TASK_EXITED s
     in if stack_phys (task_at s i) \<noteq> 0 then pmm_free_page (stack_phys (task_at s i)) s else s)"
  have "i < length (tasks s)"
    using assms(1,2) find_task_less kernel_inv_bounds(1) by (fastforce simp: find_live_def)
  then have "page_aligned (load_addr (task_at u i))" using assms(3) by (simp add: u_def Let_def)
  then obtain t where "free_task_memory i u = Inr t" using free_task_memory_total by blast
  then have "sys_kill pid s = Inr (0, t)" using assms(2) by (simp add: sys_kill_def u_def Let_def)
  then show ?thesis using sys_kill_effect[of pid s t] assms(1,2) by auto
qed

theorem sys_kill_wakes_nobody_witness:
  "\<exists>t. sys_kill 8 kernel_demo = Inr (0, t) \<and> t_state (task_at t 1) = TASK_EXITED
     \<and> t_state (task_at t 2) = TASK_BLOCKED"
proof -
  have "find_live 8 kernel_demo = Some 1" by (simp add: find_live_def find_task_def upt_rec)
  then show ?thesis
    using sys_kill_wakes_nobody[OF kernel_demo_inv, of 8 1]
    by (auto simp: demo_task_def zero_task_def simp del: kernel_demo_fields(5))
qed

section \<open>Releasing memory\<close>

text \<open>
  \<^verbatim>\<open>read_pte\<close> stops one level early: for a page mapped through a page table it returns the
  address of the page table (with the offset of \<open>v\<close>), not that of the page.
\<close>

lemma read_pte_table:
  assumes "path_ok m root v ps" "has2 m root v"
  shows "read_pte m root v = page_of (pde_of m root v) OR (v AND 0xFFF)"
proof -
  have h3: "has3 m root v" using assms(2) by (simp add: has2_def)
  show ?thesis
    using assms(2) path_ok_level3(6)[OF assms(1) h3] by (simp add: read_pte_def path_defs Let_def)
qed

lemma pmm_free_page_slot: "pmm_free_page p s = s\<lparr>mem := write64 (slot p 0) (free_stack s) (mem s), free_stack := p\<rparr>"
  by (simp add: pmm_free_page_def slot_def)

text \<open>Hence releasing a page pushes its page table on the free list, with the table still in use.\<close>

lemma free_user_page_frees_table:
  fixes s :: "'a paging_state_scheme"
  assumes "path_ok (mem s) root v ps" "has2 (mem s) root v" "paging_root s = root"
    and "page_of (pde_of (mem s) root v) \<noteq> 0"
  defines "pt \<equiv> page_of (pde_of (mem s) root v)"
  shows "free_stack (free_user_page root v s) = pt"
    "paging_root (free_user_page root v s) = root"
    "path_ok (mem (free_user_page root v s)) root v ps" "has2 (mem (free_user_page root v s)) root v"
    "pde_of (mem (free_user_page root v s)) root v = pde_of (mem s) root v"
    "page_aligned (free_stack s) \<Longrightarrow> read64 (mem (free_user_page root v s)) pt = free_stack s"
proof -
  have al: "page_aligned pt" by (simp add: pt_def)
  have "page_of (pt OR (v AND 0xFFF)) = pt" using al by (simp add: page_or_bits and.assoc)
  moreover have "pt OR (v AND 0xFFF) \<noteq> 0"
    using assms(4) unfolding pt_def[symmetric] by (metis or_eq_0_iff)
  ultimately have f: "free_user_page root v s = unmap_page v (pmm_free_page pt s)"
    by (simp add: free_user_page_def read_pte_table[OF assms(1,2)] pt_def)
  let ?s = "pmm_free_page pt s"
  have m1: "mem ?s = write64 (slot pt 0) (free_stack s) (mem s)" by (simp add: pmm_free_page_slot)
  have zero: "(0 :: u64) < 512" by simp
  note st = store_leaf_at[OF assms(1,2) zero, of "free_stack s", folded pt_def, folded m1]
  have r: "paging_root ?s = root" using assms(3) by (simp add: pmm_free_page_def)
  have p1: "path_ok (mem ?s) (paging_root ?s) v ps" "has2 (mem ?s) (paging_root ?s) v"
    using st r by simp_all
  let ?e = "entry (mem ?s) pt (pt_i v) AND NOT 1"
  have u: "free_user_page root v s = set_entry pt (pt_i v) ?e ?s"
    using unmap_page_small[OF p1] st(3) r f by (simp add: pt_def)
  note st2 = store_leaf[OF st(1,2), of ?e, unfolded st(3)]
  show "free_stack (free_user_page root v s) = pt" "paging_root (free_user_page root v s) = root"
    using u r by (simp_all add: pmm_free_page_def)
  show "path_ok (mem (free_user_page root v s)) root v ps" "has2 (mem (free_user_page root v s)) root v"
    "pde_of (mem (free_user_page root v s)) root v = pde_of (mem s) root v"
    using u st2(1,2,3) by (simp_all add: pt_def)
  assume "page_aligned (free_stack s)"
  then have bit0: "free_stack s AND NOT 1 = free_stack s"
    by (intro and_mask_clear page_aligned_and_low) simp_all
  have "entry (mem (free_user_page root v s)) pt 0 = free_stack s"
    using u al st(7) bit0 by (auto simp: entry_write)
  then show "read64 (mem (free_user_page root v s)) pt = free_stack s"
    by (simp add: entry_def slot_def)
qed

lemma region_path:
  assumes "w AND NOT 0x1FFFFF = v AND NOT 0x1FFFFF"
  shows "path_ok m root w ps = path_ok m root v ps" "has2 m root w = has2 m root v"
    "pde_of m root w = pde_of m root v"
  unfolding path_ok_def walk_tables_def path_defs same_region_indices[OF assms] by (rule refl)+

lemma two_pages:
  assumes "page_aligned v" "unat v + 8192 < 2 ^ 64"
  shows "page_list v (v + 8192) = [v, v + 4096]"
proof -
  have "unat (v + 8192) = unat v + 8192" using assms(2) by (simp add: unat_word_ariths)
  then show ?thesis by (simp add: page_list_def upt_rec)
qed

text \<open>
  Releasing two pages of one 2 MiB region, as \<^verbatim>\<open>sys_exit\<close> and \<^verbatim>\<open>sys_kill\<close> do with
  \<^verbatim>\<open>free_user_range\<close>, frees the page table that maps them twice: the next two
  allocations both return that frame.
\<close>

theorem free_user_range_frees_table_twice:
  fixes s :: "'a paging_state_scheme"
  assumes "path_ok (mem s) root v ps" "has2 (mem s) root v" "page_of (pde_of (mem s) root v) \<noteq> 0"
    and "page_aligned v" "unat v + 8192 < 2 ^ 64" "(v + 4096) AND NOT 0x1FFFFF = v AND NOT 0x1FFFFF"
  shows "\<exists>t. free_user_range root v (v + 8192) s = Inr t
    \<and> fst (pmm_alloc_page t) = page_of (pde_of (mem s) root v)
    \<and> fst (pmm_alloc_page (snd (pmm_alloc_page t))) = page_of (pde_of (mem s) root v)"
proof -
  let ?pt = "page_of (pde_of (mem s) root v)" and ?w = "v + 4096"
  let ?s = "paging_switch root s"
  have s: "mem ?s = mem s" "paging_root ?s = root" by (simp_all add: paging_switch_def)
  define s1 where "s1 = free_user_page root v ?s"
  define s2 where "s2 = free_user_page root ?w s1"
  note f1 = free_user_page_frees_table[of ?s root v ps, unfolded s, OF assms(1,2) refl assms(3), folded s1_def]
  have p1: "path_ok (mem s1) root ?w ps" "has2 (mem s1) root ?w" "pde_of (mem s1) root ?w = pde_of (mem s) root v"
    using f1(3-5) region_path[OF assms(6)] by simp_all
  note f2 = free_user_page_frees_table[OF p1(1,2) f1(2), unfolded p1(3), OF assms(3), folded s2_def]
  have link: "read64 (mem s2) ?pt = ?pt" using f2(6) f1(1) by simp
  have al: "page_aligned v" "page_aligned (v + 8192)"
    using assms(4) page_aligned_add[of v 8192] by (simp_all add: page_aligned_def[of 8192])
  have "for_pages (\<lambda>v s. (True, free_user_page root v s)) v (v + 8192) ?s = Inr (True, s2)"
    using for_pages_fold[OF al, of "free_user_page root" ?s] two_pages[OF assms(4,5)]
    by (simp add: s1_def s2_def)
  then have run: "free_user_range root v (v + 8192) s = Inr (paging_switch (paging_root s) s2)"
    by (simp add: free_user_range_def Let_def)
  let ?t = "paging_switch (paging_root s) s2"
  have "free_stack ?t = ?pt" "read64 (mem ?t) ?pt = ?pt"
    using f2(1) link by (simp_all add: paging_switch_def)
  then show ?thesis
    using run assms(3) by (simp add: pmm_alloc_page_def Let_def)
qed

theorem free_user_range_frees_table_twice_witness:
  "\<exists>t. free_user_range 0x10000 0x400000 0x402000 mapped_demo = Inr t
    \<and> fst (pmm_alloc_page t) = 0x13000 \<and> fst (pmm_alloc_page (snd (pmm_alloc_page t))) = 0x13000"
  using free_user_range_frees_table_twice[OF mapped_demo_path(1,3)] mapped_demo_path(4)
  by (simp add: page_aligned_def)

section \<open>Starting a thread\<close>

lemma slot_pred:
  "slot p (of_nat (Suc n)) - 8 = slot p (of_nat n)"
  by (simp add: slot_def)

lemma push_words_fill:
  assumes "page_aligned p" "length ws \<le> 512"
  shows "\<exists>m'. push_words ws (slot p (of_nat (length ws))) m = (p, m')
    \<and> (\<forall>u j. page_aligned u \<longrightarrow> j < 512 \<longrightarrow>
         entry m' u j = (if u = p \<and> unat j < length ws then rev ws ! unat j else entry m u j))"
  using assms(2)
proof (induction ws arbitrary: m)
  case Nil
  then show ?case by (simp add: slot_def)
next
  case (Cons w ws)
  let ?n = "length ws"
  let ?m = "write64 (slot p (of_nat ?n)) w m"
  have n: "(of_nat ?n :: u64) < 512" "unat (of_nat ?n :: u64) = ?n"
    using Cons.prems by (simp_all add: word_less_nat_alt unat_of_nat take_bit_nat_eq_self_iff)
  obtain m' where m': "push_words ws (slot p (of_nat ?n)) ?m = (p, m')"
    "\<And>u j. page_aligned u \<Longrightarrow> j < 512 \<Longrightarrow>
       entry m' u j = (if u = p \<and> unat j < ?n then rev ws ! unat j else entry ?m u j)"
    using Cons.IH[of ?m] Cons.prems by auto
  have run: "push_words (w # ws) (slot p (of_nat (length (w # ws)))) m = (p, m')"
    using m'(1) slot_pred[of p ?n] by (simp add: Let_def)
  have "entry m' u j = (if u = p \<and> unat j < Suc ?n then rev (w # ws) ! unat j else entry m u j)"
    if "page_aligned u" "j < 512" for u j
  proof -
    have "j = of_nat ?n \<longleftrightarrow> unat j = ?n" using n(2) by (auto simp: word_unat_eq_iff)
    then show ?thesis
      using m'(2)[OF that] that n assms(1)
      by (auto simp: entry_write nth_append less_Suc_eq)
  qed
  then show ?case using run by auto
qed

lemma push_words_other:
  assumes "page_aligned p" "length ws \<le> 512" "page_of a \<noteq> p"
  shows "snd (push_words ws (slot p (of_nat (length ws))) m) a = m a"
  using assms(2)
proof (induction ws arbitrary: m)
  case Nil
  then show ?case by simp
next
  case (Cons w ws)
  have "(of_nat (length ws) :: u64) < 512"
    using Cons.prems by (simp add: word_less_nat_alt unat_of_nat take_bit_nat_eq_self_iff)
  then have "write64 (slot p (of_nat (length ws))) w m a = m a"
    using assms(1,3) by (simp add: write_slot_other_page)
  then show ?case using Cons slot_pred[of p "length ws"] by (simp add: Let_def)
qed

lemma frame_of_entries:
  assumes "page_aligned p" "\<And>j. j < 512 \<Longrightarrow> unat j < 22 \<Longrightarrow> entry m p j = ws ! unat j" "length ws = 22"
  shows "frame_of m p = ws"
proof (rule nth_equalityI)
  fix k assume "k < length (frame_of m p)"
  then have k: "k < 22" by (simp add: frame_of_def)
  then have "(of_nat k :: u64) < 512" "unat (of_nat k :: u64) = k"
    by (simp_all add: word_less_nat_alt unat_of_nat take_bit_nat_eq_self_iff)
  then show "frame_of m p ! k = ws ! k"
    using assms(2)[of "of_nat k"] k by (simp add: frame_of_def reg_def entry_def)
qed (simp add: frame_of_def assms(3))

text \<open>
  C16: with a free frame and a free slot, \<^verbatim>\<open>sys_clone\<close> adds a ready task in the caller's address
  space, with the next process identifier, whose saved frame starts it in user mode at the
  given entry point, on the given stack, with the argument in \<^verbatim>\<open>rdi\<close>, interrupts
  enabled and every other general register zero.
\<close>

theorem sys_clone_starts_thread:
  assumes "kernel_inv s" "0 \<le> current_task s" "num_tasks s < 64" "free_frames s (k # ps)"
  shows "\<exists>t. sys_clone flags user_stack entry_pt arg s = (u64_to_int (ucast (next_pid s)), t)
    \<and> num_tasks t = num_tasks s + 1
    \<and> t_state (task_at t (num_tasks s)) = TASK_READY \<and> t_pid (task_at t (num_tasks s)) = ucast (next_pid s)
    \<and> pml4_phys (task_at t (num_tasks s)) = pml4_phys (task_at s (nat (current_task s)))
    \<and> inbox (task_at t (num_tasks s)) = []
    \<and> frame_of (mem t) (t_rsp (task_at t (num_tasks s))) =
        replicate 9 0 @ [arg] @ replicate 7 0 @ [entry_pt, 0x2B, 0x202, user_stack, 0x23]
    \<and> free_frames t ps"
proof -
  obtain u where u: "pmm_alloc_page s = (k, u)" "free_frames u ps" "k \<noteq> 0" "page_aligned k" "k \<notin> set ps"
    using assms(4) by (rule pmm.alloc_cases) auto
  note ku = keeps_kernel_fields[OF keeps_kernel_alloc[OF u(1)]]
  let ?ws = "[0x23, user_stack, 0x202, 0x2B, entry_pt] @ replicate 7 0 @ [arg] @ replicate 9 0"
  have len: "length ?ws = 22" by simp
  have top: "k + FRAME_SIZE = slot k (of_nat (length ?ws))" by (simp add: slot_def)
  obtain m where m: "push_words ?ws (k + FRAME_SIZE) (mem u) = (k, m)"
    "\<And>w j. page_aligned w \<Longrightarrow> j < 512 \<Longrightarrow>
       entry m w j = (if w = k \<and> unat j < 22 then rev ?ws ! unat j else entry (mem u) w j)"
    using push_words_fill[OF u(4), of ?ws "mem u"] len unfolding top by auto
  let ?n = "num_tasks s"
  have n: "?n < length (tasks s)" using assms(3) kernel_inv_bounds(1)[OF assms(1)] by simp
  obtain t where t: "sys_clone flags user_stack entry_pt arg s = (u64_to_int (ucast (next_pid s)), t)"
    "mem t = m" "free_stack t = free_stack u" "num_tasks t = ?n + 1" "t_state (task_at t ?n) = TASK_READY"
    "t_pid (task_at t ?n) = ucast (next_pid s)"
    "pml4_phys (task_at t ?n) = pml4_phys (task_at s (nat (current_task s)))"
    "t_rsp (task_at t ?n) = k" "inbox (task_at t ?n) = []"
    using assms(2,3) u(1,3) m(1) ku n
    by (simp add: sys_clone_def Let_def inbox_def ring_slots_def ipc_init_task_def)
  have "frame_of (mem t) k = rev ?ws"
    using m(2)[OF u(4)] len unfolding t(2) by (intro frame_of_entries[OF u(4)]) simp_all
  moreover have "rev ?ws = replicate 9 0 @ [arg] @ replicate 7 0 @ [entry_pt, 0x2B, 0x202, user_stack, 0x23]"
    by simp
  moreover have "free_frames t ps"
  proof (rule free_frames_cong[OF u(2)])
    show "free_stack t = free_stack u" using t(3) by simp
    show "mem t a = mem u a" if "page_of a \<in> set ps" for a
      using push_words_other[OF u(4), of ?ws a "mem u"] that u(5) m(1) len t(2) top by auto
  qed
  ultimately show ?thesis using t by auto
qed

lemma kernel_demo_frames: "free_frames kernel_demo [0x200000, 0x201000, 0x203000]"
  by (rule free_frames_cong[OF boot_demo_frames]) (simp_all del: kernel_demo_fields(5))

theorem sys_clone_starts_thread_witness:
  "\<exists>t. sys_clone 0 0x7000 0x401000 5 kernel_demo = (10, t) \<and> num_tasks t = 4
     \<and> t_pid (task_at t 3) = 10 \<and> frame_of (mem t) (t_rsp (task_at t 3)) ! 9 = 5"
  using sys_clone_starts_thread[OF kernel_demo_inv _ _ kernel_demo_frames, of 0 "0x7000" "0x401000" 5]
  by (auto simp: u64_to_int_def nth_append simp del: kernel_demo_fields(5))

end
