(* ===== verification/Futex.thy ===== *)
theory Futex
  imports Task_Invariants "HOL-Library.Multiset"
begin

text \<open>
  Futexes, \<^verbatim>\<open>sys_futex\<close> of \<^verbatim>\<open>kernel/task.c\<close>: waiting adds the caller to an array of
  waiters, waking removes entries of that array by moving the last one into their place. The array is
  seen as a multiset of pairs of an address and a task index.
\<close>

definition waiters :: "kstate \<Rightarrow> (u64 \<times> int) list" where
  "waiters s = take (num_futex_waiters s) (futex_waiters s)"

lemma mset_swap_remove:
  assumes "i < n" "n \<le> length xs"
  shows "mset (take n xs) = add_mset (xs ! i) (mset (take (n - 1) (xs[i := xs ! (n - 1)])))"
proof -
  have t: "take n xs = take (n - 1) xs @ [xs ! (n - 1)]"
    using assms take_Suc_conv_app_nth[of "n - 1" xs] by simp
  show ?thesis
  proof (cases "i = n - 1")
    case True
    then show ?thesis using t by simp
  next
    case False
    then have i: "i < n - 1" using assms(1) by simp
    then have "take (n - 1) (xs[i := v]) = (take (n - 1) xs)[i := v]" for v by (simp add: take_update_swap)
    moreover have "xs ! i \<in># mset (take (n - 1) xs)"
      using i assms(2) by (simp add: in_set_conv_nth) (metis less_or_eq_imp_le nth_take order_less_le_trans length_take min_def)
    ultimately show ?thesis using i assms(2) t by (simp add: mset_update)
  qed
qed

text \<open>One step of the loop that finds a waiter.\<close>

definition futex_drop :: "nat \<Rightarrow> kstate \<Rightarrow> kstate" where
  "futex_drop i s =
     (let idx = nat (snd (futex_waiters s ! i));
          s = (if t_state (task_at s idx) = TASK_BLOCKED then set_state idx TASK_READY s else s);
          n = num_futex_waiters s - 1
      in s\<lparr>num_futex_waiters := n, futex_waiters := (futex_waiters s)[i := futex_waiters s ! n]\<rparr>)"

lemma futex_wake_step:
  "futex_wake_loop uaddr val i woken s =
     (if i < num_futex_waiters s \<and> woken < val
      then if fst (futex_waiters s ! i) = uaddr
        then futex_wake_loop uaddr val i
          (if t_state (task_at s (nat (snd (futex_waiters s ! i)))) = TASK_BLOCKED then woken + 1 else woken)
          (futex_drop i s)
        else futex_wake_loop uaddr val (i + 1) woken s
      else (woken, s))"
  by (subst futex_wake_loop.simps) (simp add: futex_drop_def Let_def)

lemma futex_drop_waiters:
  assumes "kernel_inv s" "i < num_futex_waiters s"
  shows "mset (waiters s) = add_mset (futex_waiters s ! i) (mset (waiters (futex_drop i s)))"
    "num_futex_waiters (futex_drop i s) = num_futex_waiters s - 1"
    "\<And>k. k < i \<Longrightarrow> futex_waiters (futex_drop i s) ! k = futex_waiters s ! k"
proof -
  have n: "num_futex_waiters s \<le> length (futex_waiters s)"
    using assms(1) by (simp add: kernel_inv_def kernel_ok_def)
  show "mset (waiters s) = add_mset (futex_waiters s ! i) (mset (waiters (futex_drop i s)))"
    using mset_swap_remove[OF assms(2) n] by (simp add: waiters_def futex_drop_def Let_def)
  show "num_futex_waiters (futex_drop i s) = num_futex_waiters s - 1"
    "\<And>k. k < i \<Longrightarrow> futex_waiters (futex_drop i s) ! k = futex_waiters s ! k"
    by (simp_all add: futex_drop_def Let_def)
qed

definition woken_tasks :: "kstate \<Rightarrow> kstate \<Rightarrow> nat set" where
  "woken_tasks s t = {j. j < 64 \<and> t_state (task_at s j) = TASK_BLOCKED \<and> t_state (task_at t j) = TASK_READY}"

lemma finite_woken [simp]: "finite (woken_tasks s t)"
  by (simp add: woken_tasks_def)

text \<open>The tasks a wake may change, and how.\<close>

definition wakes :: "u64 \<Rightarrow> kstate \<Rightarrow> kstate \<Rightarrow> bool" where
  "wakes uaddr s t \<longleftrightarrow>
     (\<forall>j < 64. task_at t j = task_at s j
       \<or> t_state (task_at s j) = TASK_BLOCKED \<and> (uaddr, int j) \<in> set (waiters s)
         \<and> task_at t j = (task_at s j)\<lparr>t_state := TASK_READY\<rparr>)
     \<and> mset (waiters t) \<subseteq># mset (waiters s)
     \<and> filter_mset (\<lambda>w. fst w \<noteq> uaddr) (mset (waiters t)) = filter_mset (\<lambda>w. fst w \<noteq> uaddr) (mset (waiters s))"

lemma wakes_refl: "wakes uaddr s s" and woken_refl [simp]: "woken_tasks s s = {}"
  by (auto simp: wakes_def woken_tasks_def)

lemma futex_drop_wakes:
  assumes "kernel_inv s" "i < num_futex_waiters s" "fst (futex_waiters s ! i) = uaddr"
  defines "idx \<equiv> nat (snd (futex_waiters s ! i))"
  shows "wakes uaddr s (futex_drop i s)"
    "woken_tasks s (futex_drop i s) = (if t_state (task_at s idx) = TASK_BLOCKED then {idx} else {})"
proof -
  have "i < 128" using assms(2) kernel_inv_bounds(6)[OF assms(1)] by simp
  note idx = kernel_inv_waiters[OF assms(1) this]
  note d = futex_drop_waiters[OF assms(1,2)]
  have w: "futex_waiters s ! i = (uaddr, int idx)"
    using assms(3) idx by (simp add: idx_def prod_eq_iff)
  have i64: "idx < length (tasks s)" using idx kernel_inv_bounds(1)[OF assms(1)] by (simp add: idx_def)
  have ts: "task_at (futex_drop i s) j = (if j = idx \<and> t_state (task_at s idx) = TASK_BLOCKED
      then (task_at s idx)\<lparr>t_state := TASK_READY\<rparr> else task_at s j)" for j
    using i64 unfolding futex_drop_def Let_def idx_def[symmetric] by simp
  have "(uaddr, int idx) \<in># mset (waiters s)" unfolding d(1) w by simp
  then have "(uaddr, int idx) \<in> set (waiters s)" by simp
  then show "wakes uaddr s (futex_drop i s)"
    unfolding wakes_def ts d(1) w by simp
  show "woken_tasks s (futex_drop i s) = (if t_state (task_at s idx) = TASK_BLOCKED then {idx} else {})"
    using i64 kernel_inv_bounds(1)[OF assms(1)] unfolding woken_tasks_def ts by auto
qed

lemma wakes_trans:
  assumes "wakes uaddr s u" "wakes uaddr u t"
  shows "wakes uaddr s t" "woken_tasks s t = woken_tasks s u \<union> woken_tasks u t"
    "woken_tasks s u \<inter> woken_tasks u t = {}"
proof -
  have sub: "set (waiters u) \<subseteq> set (waiters s)"
    using assms(1) set_mset_mono by (fastforce simp: wakes_def)
  have su: "task_at u j = task_at s j
       \<or> t_state (task_at s j) = TASK_BLOCKED \<and> (uaddr, int j) \<in> set (waiters s)
         \<and> task_at u j = (task_at s j)\<lparr>t_state := TASK_READY\<rparr>" if "j < 64" for j
    using assms(1) that by (simp add: wakes_def)
  have ut: "task_at t j = task_at u j
       \<or> t_state (task_at u j) = TASK_BLOCKED \<and> (uaddr, int j) \<in> set (waiters s)
         \<and> task_at t j = (task_at u j)\<lparr>t_state := TASK_READY\<rparr>" if "j < 64" for j
    using assms(2) that sub by (auto simp: wakes_def)
  show "wakes uaddr s t"
    unfolding wakes_def
  proof (intro conjI allI impI)
    fix j :: nat
    assume "j < 64"
    then show "task_at t j = task_at s j \<or> t_state (task_at s j) = TASK_BLOCKED
        \<and> (uaddr, int j) \<in> set (waiters s) \<and> task_at t j = (task_at s j)\<lparr>t_state := TASK_READY\<rparr>"
      using su[of j] ut[of j] by auto
  qed (use assms subset_mset.trans in \<open>auto simp: wakes_def\<close>)
  show "woken_tasks s t = woken_tasks s u \<union> woken_tasks u t" "woken_tasks s u \<inter> woken_tasks u t = {}"
    using su ut by (fastforce simp: woken_tasks_def)+
qed

lemma futex_drop_inv:
  assumes "kernel_inv s" "i < num_futex_waiters s"
  shows "kernel_inv (futex_drop i s)"
  using futex_step_inv[OF assms] by (simp add: futex_drop_def Let_def)

lemma futex_wake_spec:
  assumes "futex_wake_loop uaddr val i woken s = (r, t)" "kernel_inv s"
    and "\<forall>k < i. k < num_futex_waiters s \<longrightarrow> fst (futex_waiters s ! k) \<noteq> uaddr"
  shows "wakes uaddr s t \<and> r = woken + int (card (woken_tasks s t)) \<and> r \<le> max woken val
    \<and> (r < val \<longrightarrow> (\<forall>w \<in> set (waiters t). fst w \<noteq> uaddr))"
  using assms
proof (induction "num_futex_waiters s - i" arbitrary: i woken s rule: less_induct)
  case less
  let ?w = "futex_waiters s ! i"
  let ?b = "t_state (task_at s (nat (snd ?w))) = TASK_BLOCKED"
  note run = less.prems(1)[unfolded futex_wake_step[of uaddr val i woken s]]
  consider (stop) "\<not> (i < num_futex_waiters s \<and> woken < val)"
    | (hit) "i < num_futex_waiters s" "woken < val" "fst ?w = uaddr"
    | (skip) "i < num_futex_waiters s" "woken < val" "fst ?w \<noteq> uaddr" by blast
  then show ?case
  proof cases
    case stop
    then have "r = woken" "t = s" using run by (simp_all add: if_not_P)
    moreover have "fst w \<noteq> uaddr" if wv: "woken < val" and ws: "w \<in> set (waiters s)" for w
    proof -
      obtain k where "k < num_futex_waiters s" "w = futex_waiters s ! k"
        using ws by (auto simp: waiters_def in_set_conv_nth)
      moreover have "num_futex_waiters s \<le> i" using wv stop by simp
      ultimately show ?thesis using less.prems(3) by simp
    qed
    ultimately show ?thesis using wakes_refl by simp
  next
    case hit
    note d = futex_drop_waiters[OF less.prems(2) hit(1)] futex_drop_wakes[OF less.prems(2) hit(1,3)]
    let ?s = "futex_drop i s" and ?k = "if ?b then woken + 1 else woken"
    have run': "futex_wake_loop uaddr val i ?k ?s = (r, t)"
      using run hit(2,3) by (simp add: hit(1))
    have "wakes uaddr ?s t \<and> r = ?k + int (card (woken_tasks ?s t)) \<and> r \<le> max ?k val
      \<and> (r < val \<longrightarrow> (\<forall>w \<in> set (waiters t). fst w \<noteq> uaddr))"
    proof (rule less.hyps[OF _ run' futex_drop_inv[OF less.prems(2) hit(1)]])
      show "num_futex_waiters ?s - i < num_futex_waiters s - i" using d(2) hit(1) by simp
      show "\<forall>k < i. k < num_futex_waiters ?s \<longrightarrow> fst (futex_waiters ?s ! k) \<noteq> uaddr"
        using d(2,3) less.prems(3) by auto
    qed
    moreover note tr = wakes_trans[OF d(4), of t]
    ultimately show ?thesis
      using hit(2) d(5) by (auto simp: card_Un_disjoint max_def split: if_splits)
  next
    case skip
    have run': "futex_wake_loop uaddr val (i + 1) woken s = (r, t)"
      using run skip(2,3) by (simp add: skip(1))
    show ?thesis
    proof (rule less.hyps[OF _ run' less.prems(2)])
      show "num_futex_waiters s - (i + 1) < num_futex_waiters s - i" using skip(1) by simp
      show "\<forall>k < i + 1. k < num_futex_waiters s \<longrightarrow> fst (futex_waiters s ! k) \<noteq> uaddr"
        using less.prems(3) skip(3) by (auto simp: less_Suc_eq)
    qed
  qed
qed


text \<open>The third task of the example state waits at 0x5000, the second is registered but ready.\<close>

definition futex_demo :: kstate where
  "futex_demo = kernel_demo\<lparr>futex_waiters := [(0x5000, 1), (0x6000, 2), (0x5000, 2)] @ replicate 125 (0, 0),
     num_futex_waiters := 3\<rparr>"

lemma futex_demo_inv: "kernel_inv futex_demo"
  unfolding futex_demo_def by (rule kernel_inv_futex[OF kernel_demo_inv]) auto


end
