(* ===== verification/Memory_Calls.thy ===== *)
theory Memory_Calls
  imports Task_Invariants
begin

text \<open>
  The memory system calls always return, and to the address space they were called in.
\<close>

lemma page_aligned_round_up [simp]: "page_aligned (round_up virt sz)"
  by (simp add: round_up_def)

lemma switched_loop_returns:
  fixes s :: kstate
  assumes "\<And>v s. keeps_kernel s (snd (body v s))"
  obtains r t where "for_pages body (virt AND NOT 0xFFF) (round_up virt sz) (paging_switch p s) = Inr (r, t)"
    "tasks t = tasks s"
proof -
  obtain r t where rt: "for_pages body (virt AND NOT 0xFFF) (round_up virt sz) (paging_switch p s) = Inr (r, t)"
    using for_pages_total[of "virt AND NOT 0xFFF" "round_up virt sz" body "paging_switch p s"]
    by (metis page_aligned_round_up page_of_def page_of_page_aligned surj_pair)
  have "keeps_kernel (paging_switch p s) t" by (rule kk.for_pages_rel[OF assms rt])
  then have "tasks t = tasks s" using keeps_kernel_fields(1) by (fastforce simp: paging_switch_def)
  with rt show ?thesis by (rule that)
qed

lemma tasks_paging_switch [simp]: "tasks (paging_switch p s) = tasks s" "paging_root (paging_switch p s) = p"
  by (simp_all add: paging_switch_def)

lemma sys_mmap_returns:
  "\<exists>r t. sys_mmap virt sz flags s = Inr (r, t) \<and> r \<in> {0, - 1} \<and> paging_root t = paging_root s \<and> tasks t = tasks s"
proof (cases "current_task s < 0")
  case False
  define fl where "fl = (let f = PAGE_PRESENT OR PAGE_USER;
     f = (if flags AND 2 \<noteq> 0 then f OR PAGE_WRITABLE else f) in if flags AND 4 \<noteq> 0 then f OR 0 else f)"
  let ?p = "pml4_phys (task_at s (nat (current_task s)))"
  obtain r t where "for_pages (map_fresh fl) (virt AND NOT 0xFFF) (round_up virt sz) (paging_switch ?p s) = Inr (r, t)"
      "tasks t = tasks s"
    by (rule switched_loop_returns[rotated]) (assumption, simp)
  moreover have "sys_mmap virt sz flags s = map_pages_at ?p virt sz fl s"
    using False by (simp add: sys_mmap_def fl_def Let_def)
  ultimately show ?thesis by (simp add: map_pages_at_def Let_def)
qed (simp add: sys_mmap_def)

lemma sys_munmap_returns:
  "\<exists>t. sys_munmap virt sz s = Inr (if current_task s < 0 then - 1 else 0, t)
    \<and> paging_root t = paging_root s \<and> tasks t = tasks s"
proof -
  obtain r t where "for_pages (\<lambda>v s. (True, unmap_page v s)) (virt AND NOT 0xFFF) (round_up virt sz)
      (paging_switch (pml4_phys (task_at s (nat (current_task s)))) s) = Inr (r, t)" "tasks t = tasks s"
    by (rule switched_loop_returns[rotated]) (assumption, simp)
  then show ?thesis by (simp add: sys_munmap_def Let_def)
qed

lemma sys_mprotect_returns:
  "\<exists>t. sys_mprotect virt sz flags s = Inr (if current_task s < 0 then - 1 else 0, t)
    \<and> paging_root t = paging_root s \<and> tasks t = tasks s"
proof -
  define fl where "fl = (let f = PAGE_PRESENT OR PAGE_USER in if flags AND 1 \<noteq> 0 then f OR PAGE_WRITABLE else f)"
  obtain r t where "for_pages (\<lambda>v s. (True, map_page_flags v fl s)) (virt AND NOT 0xFFF) (round_up virt sz)
      (paging_switch (pml4_phys (task_at s (nat (current_task s)))) s) = Inr (r, t)" "tasks t = tasks s"
    by (rule switched_loop_returns[rotated]) (assumption, simp)
  then show ?thesis by (cases "flags AND 1 = 0") (simp_all add: sys_mprotect_def fl_def Let_def)
qed

lemma sys_mmap_phys_returns:
  "\<exists>t. sys_mmap_phys virt phys sz flags s = Inr (if current_task s < 0 then - 1 else 0, t)
    \<and> paging_root t = paging_root s \<and> tasks t = tasks s"
proof -
  define fl where "fl = (let f = PAGE_PRESENT OR PAGE_USER;
     f = (if flags AND 2 \<noteq> 0 then f OR PAGE_WRITABLE else f) in if flags AND 4 \<noteq> 0 then f OR 0x10 else f)"
  obtain r t where "for_pages (\<lambda>v s. (True, map_page v ((phys AND NOT 0xFFF) + (v - (virt AND NOT 0xFFF))) fl s))
      (virt AND NOT 0xFFF) (round_up virt sz)
      (paging_switch (pml4_phys (task_at s (nat (current_task s)))) s) = Inr (r, t)" "tasks t = tasks s"
    by (rule switched_loop_returns[rotated]) (assumption, simp)
  then show ?thesis by (simp add: sys_mmap_phys_def fl_def Let_def)
qed


end
