(* ===== verification/Isr_Stubs.thy ===== *)
theory Isr_Stubs
  imports Scheduling
begin

text \<open>
  The assembly between a user program and \<^verbatim>\<open>isr_handler\<close>: \<^verbatim>\<open>kernel/isr_stubs.asm\<close>, and the same
  pop sequence in \<^verbatim>\<open>scheduler_start\<close>. The stubs are lists of instructions over the registers and
  memory; what the processor does on an interrupt and on \<^verbatim>\<open>iretq\<close> is from its manual.
  Together with the scheduler this shows that a preempted program goes on with
  exactly the registers it had.
\<close>

section \<open>Registers and instructions\<close>

datatype greg = RAX | RBX | RCX | RDX | RSI | RDI | RBP | R8 | R9 | R10 | R11 | R12 | R13 | R14 | R15

record cpu =
  gregs :: "greg \<Rightarrow> u64"
  c_rip :: u64
  c_cs :: u64
  c_rflags :: u64
  c_rsp :: u64
  c_ss :: u64

datatype instr = Push greg | Push_Imm u64 | Pop greg | Add_Rsp u64

fun exec :: "instr \<Rightarrow> cpu \<times> memory \<Rightarrow> cpu \<times> memory" where
  "exec (Push r) (c, m) = (let sp = c_rsp c - 8 in (c\<lparr>c_rsp := sp\<rparr>, write64 sp (gregs c r) m))"
| "exec (Push_Imm v) (c, m) = (let sp = c_rsp c - 8 in (c\<lparr>c_rsp := sp\<rparr>, write64 sp v m))"
| "exec (Pop r) (c, m) = (c\<lparr>gregs := (gregs c)(r := read64 m (c_rsp c)), c_rsp := c_rsp c + 8\<rparr>, m)"
| "exec (Add_Rsp n) (c, m) = (c\<lparr>c_rsp := c_rsp c + n\<rparr>, m)"

section \<open>The stubs\<close>

text \<open>The vectors for which the processor pushes an error code (\<^verbatim>\<open>isr_err\<close>).\<close>

definition has_error_code :: "nat \<Rightarrow> bool" where
  "has_error_code vec \<longleftrightarrow> vec \<in> {8, 10, 11, 12, 13, 14, 17}"

definition isr_stub :: "nat \<Rightarrow> instr list" where
  "isr_stub vec = (if has_error_code vec then [Push_Imm (of_nat vec)] else [Push_Imm 0, Push_Imm (of_nat vec)])"

definition saved_regs :: "greg list" where
  "saved_regs = [RAX, RBX, RCX, RDX, RSI, RDI, RBP, R8, R9, R10, R11, R12, R13, R14, R15]"

definition isr_common_entry :: "instr list" where
  "isr_common_entry = map Push saved_regs"

definition isr_common_exit :: "instr list" where
  "isr_common_exit =
     [Pop R15, Pop R14, Pop R13, Pop R12, Pop R11, Pop R10, Pop R9, Pop R8,
      Pop RBP, Pop RDI, Pop RSI, Pop RDX, Pop RCX, Pop RBX, Pop RAX, Add_Rsp 16]"

text \<open>
  An interrupt: from user mode the stack is the one of the task state segment; the stack pointer
  is aligned to 16 bytes, and the interrupted context is pushed.
\<close>

definition cpu_interrupt :: "nat \<Rightarrow> u64 \<Rightarrow> u64 \<Rightarrow> cpu \<times> memory \<Rightarrow> cpu \<times> memory" where
  "cpu_interrupt vec err rsp0 cm =
     (let (c, m) = cm;
          base = (if c_cs c AND 3 \<noteq> 0 then rsp0 else c_rsp c) AND NOT 0xF;
          (sp, m) = push_words ([c_ss c, c_rsp c, c_rflags c, c_cs c, c_rip c]
                      @ (if has_error_code vec then [err] else [])) base m
      in (c\<lparr>c_rsp := sp\<rparr>, m))"

definition iretq :: "cpu \<times> memory \<Rightarrow> cpu" where
  "iretq cm =
     (let (c, m) = cm; sp = c_rsp c
      in c\<lparr>c_rip := read64 m sp, c_cs := read64 m (sp + 8), c_rflags := read64 m (sp + 16),
           c_rsp := read64 m (sp + 24), c_ss := read64 m (sp + 32)\<rparr>)"

text \<open>From the interrupt to the call of \<^verbatim>\<open>isr_handler\<close>, and from its return to the next instruction.\<close>

definition isr_enter :: "nat \<Rightarrow> u64 \<Rightarrow> u64 \<Rightarrow> cpu \<Rightarrow> kstate \<Rightarrow> u64 \<times> kstate" where
  "isr_enter vec err rsp0 c s =
     (let (c, m) = fold exec (isr_stub vec @ isr_common_entry) (cpu_interrupt vec err rsp0 (c, mem s))
      in (c_rsp c, s\<lparr>mem := m\<rparr>))"

definition isr_leave :: "u64 \<Rightarrow> cpu \<Rightarrow> memory \<Rightarrow> cpu" where
  "isr_leave q c m = iretq (fold exec isr_common_exit (c\<lparr>c_rsp := q\<rparr>, m))"

section \<open>The frame\<close>

definition frame_words :: "cpu \<Rightarrow> nat \<Rightarrow> u64 \<Rightarrow> u64 list" where
  "frame_words c vec err =
     rev (map (gregs c) saved_regs) @ [of_nat vec, if has_error_code vec then err else 0] @
     [c_rip c, c_cs c, c_rflags c, c_rsp c, c_ss c]"

lemma push_words_append:
  "push_words (xs @ ys) sp m = (case push_words xs sp m of (sp, m) \<Rightarrow> push_words ys sp m)"
  by (induction xs arbitrary: sp m) (simp_all add: Let_def)

lemma exec_pushes:
  "fold exec (map Push rs) (c, m) =
     (case push_words (map (gregs c) rs) (c_rsp c) m of (sp, m) \<Rightarrow> (c\<lparr>c_rsp := sp\<rparr>, m))"
proof (induction rs arbitrary: c m)
  case (Cons r rs)
  show ?case using Cons.IH[of "c\<lparr>c_rsp := c_rsp c - 8\<rparr>"] by (simp add: Let_def split: prod.splits)
qed simp

lemma isr_enter_pushes:
  "isr_enter vec err rsp0 c s =
     (case push_words (rev (frame_words c vec err)) ((if c_cs c AND 3 \<noteq> 0 then rsp0 else c_rsp c) AND NOT 0xF) (mem s) of
        (sp, m) \<Rightarrow> (sp, s\<lparr>mem := m\<rparr>))"
proof -
  have f: "rev (frame_words c vec err) =
      ([c_ss c, c_rsp c, c_rflags c, c_cs c, c_rip c] @ (if has_error_code vec then [err] else []))
      @ (if has_error_code vec then [of_nat vec] else [0, of_nat vec]) @ map (gregs c) saved_regs"
    by (simp add: frame_words_def)
  have "fold exec (isr_stub vec) (d, m) =
      (case push_words (if has_error_code vec then [of_nat vec] else [0, of_nat vec]) (c_rsp d) m of
         (sp, m) \<Rightarrow> (d\<lparr>c_rsp := sp\<rparr>, m))" for d m
    by (simp add: isr_stub_def Let_def)
  then show ?thesis
    unfolding f push_words_append isr_enter_def cpu_interrupt_def isr_common_entry_def
    by (simp add: exec_pushes Let_def split: prod.splits)
qed

lemma read64_apart:
  assumes "8 \<le> unat (b - a)" "unat (b - a) + 8 \<le> 2 ^ 64"
  shows "read64 (write64 a v m) b = read64 m b"
proof (rule read64_cong)
  fix d :: u64
  assume "d < 8"
  then have d: "unat d < 8" by (simp add: word_less_nat_alt)
  have "b + d - a = (b - a) + d" by simp
  then have "unat (b + d - a) = unat (b - a) + unat d"
    using assms(2) d by (simp only: unat_word_ariths) simp
  then show "write64 a v m (b + d) = m (b + d)" using assms(1) by (intro write64_outside) (simp add: word_less_nat_alt)
qed

text \<open>What is pushed leaves the words above the stack pointer alone.\<close>

lemma push_words_keeps:
  assumes "k + length ws < 2 ^ 60"
  shows "read64 (snd (push_words ws sp m)) (sp + 8 * of_nat k) = read64 m (sp + 8 * of_nat k)"
  using assms
proof (induction ws arbitrary: sp m k)
  case (Cons w ws)
  have a: "sp + 8 * of_nat k = sp - 8 + 8 * of_nat (Suc k)" by (simp add: algebra_simps)
  have "unat (8 * of_nat (Suc k) :: u64) = 8 * Suc k"
    using Cons.prems by (simp add: unat_word_ariths unat_of_nat take_bit_nat_eq_self_iff del: of_nat_Suc)
  then have "read64 (write64 (sp - 8) w m) (sp - 8 + 8 * of_nat (Suc k)) = read64 m (sp - 8 + 8 * of_nat (Suc k))"
    using Cons.prems by (intro read64_apart) (simp_all del: of_nat_Suc)
  then show ?case using Cons.IH[of "Suc k" "sp - 8" "write64 (sp - 8) w m"] Cons.prems
    unfolding a by (simp add: Let_def del: of_nat_Suc)
qed simp

lemma pushed_words:
  assumes "length ws < 2 ^ 60"
  shows "fst (push_words ws sp m) = sp - 8 * of_nat (length ws)"
    and "k < length ws \<Longrightarrow> read64 (snd (push_words ws sp m)) (slot (sp - 8 * of_nat (length ws)) (of_nat k)) = rev ws ! k"
proof -
  show "fst (push_words ws sp m) = sp - 8 * of_nat (length ws)"
  proof (induction ws arbitrary: sp m)
    case (Cons w ws)
    have "fst (push_words (w # ws) sp m) = sp - 8 - 8 * of_nat (length ws)"
      unfolding push_words.simps Let_def by (rule Cons)
    then show ?case by (simp add: distrib_left)
  qed simp
  show "read64 (snd (push_words ws sp m)) (slot (sp - 8 * of_nat (length ws)) (of_nat k)) = rev ws ! k"
    if "k < length ws"
    using assms that
  proof (induction ws arbitrary: sp m k)
    case (Cons w ws)
    let ?n = "length ws" and ?t = "sp - 8"
    have base: "sp - 8 * of_nat (length (w # ws)) = ?t - 8 * of_nat ?n" by (simp add: algebra_simps)
    show ?case
    proof (cases "k = ?n")
      case True
      have "slot (?t - 8 * of_nat ?n) (of_nat ?n) = ?t" by (simp add: slot_def)
      moreover have "read64 (snd (push_words ws ?t (write64 ?t w m))) ?t = w"
        using push_words_keeps[of 0 ws ?t "write64 ?t w m"] Cons.prems(1) by simp
      ultimately show ?thesis using True unfolding base by (simp add: Let_def nth_append del: diff_diff_eq)
    next
      case False
      then have "k < ?n" using Cons.prems(2) by simp
      then show ?thesis
        using Cons.IH[of k ?t "write64 ?t w m"] Cons.prems(1) unfolding base by (simp add: Let_def nth_append)
    qed
  qed simp
qed

lemma frame_of_pushed:
  assumes "length ws = 22"
  shows "frame_of (snd (push_words (rev ws) sp m)) (sp - 176) = ws"
proof (rule nth_equalityI)
  fix k assume "k < length (frame_of (snd (push_words (rev ws) sp m)) (sp - 176))"
  then have "k < 22" by (simp add: frame_of_def)
  then show "frame_of (snd (push_words (rev ws) sp m)) (sp - 176) ! k = ws ! k"
    using pushed_words(2)[of "rev ws" k sp m] assms by (simp add: frame_of_def reg_def)
qed (simp add: frame_of_def assms)

lemma isr_leave_frame:
  "isr_leave q c m =
     (let f = frame_of m q
      in \<lparr>gregs = (\<lambda>r. case r of R15 \<Rightarrow> f ! 0 | R14 \<Rightarrow> f ! 1 | R13 \<Rightarrow> f ! 2 | R12 \<Rightarrow> f ! 3 | R11 \<Rightarrow> f ! 4
            | R10 \<Rightarrow> f ! 5 | R9 \<Rightarrow> f ! 6 | R8 \<Rightarrow> f ! 7 | RBP \<Rightarrow> f ! 8 | RDI \<Rightarrow> f ! 9 | RSI \<Rightarrow> f ! 10
            | RDX \<Rightarrow> f ! 11 | RCX \<Rightarrow> f ! 12 | RBX \<Rightarrow> f ! 13 | RAX \<Rightarrow> f ! 14),
          c_rip = f ! 17, c_cs = f ! 18, c_rflags = f ! 19, c_rsp = f ! 20, c_ss = f ! 21\<rparr>)"
  unfolding isr_leave_def isr_common_exit_def
  by (simp add: iretq_def frame_of_def reg_def slot_def Let_def add.commute[of _ q] add.assoc fun_eq_iff upt_rec_numeral split: greg.splits)

lemma isr_leave_words:
  assumes "frame_of m q = frame_words c vec err"
  shows "isr_leave q d m = c"
  unfolding isr_leave_frame assms
  by (cases c) (simp add: Let_def frame_words_def saved_regs_def fun_eq_iff split: greg.splits)

lemma length_frame_words [simp]: "length (frame_words c vec err) = 22"
  by (simp add: frame_words_def saved_regs_def)

section \<open>Preemption\<close>

text \<open>Where the frame of an interrupt of user code lies, with the stack of the task state segment.\<close>

definition frame_addr :: "u64 \<Rightarrow> u64" where
  "frame_addr rsp0 = (rsp0 AND NOT 0xF) - 176"

lemma isr_enter_frame:
  assumes "c_cs c AND 3 \<noteq> 0"
  shows "\<exists>m. isr_enter vec err rsp0 c s = (frame_addr rsp0, s\<lparr>mem := m\<rparr>)
    \<and> frame_of m (frame_addr rsp0) = frame_words c vec err"
proof -
  let ?b = "rsp0 AND NOT 0xF"
  obtain sp m where p: "push_words (rev (frame_words c vec err)) ?b (mem s) = (sp, m)" by fastforce
  have "sp = frame_addr rsp0"
    using pushed_words(1)[of "rev (frame_words c vec err)" ?b "mem s"] p by (simp add: frame_addr_def)
  moreover have "frame_of m (frame_addr rsp0) = frame_words c vec err"
    using frame_of_pushed[of "frame_words c vec err" ?b "mem s"] p by (simp add: frame_addr_def)
  ultimately show ?thesis using assms p by (intro exI[of _ m]) (simp add: isr_enter_pushes)
qed

lemma frame_words_nth:
  assumes "frame_of m r = frame_words c vec err"
  shows "reg m r R_INT_NO = of_nat vec" "reg m r R_CS = c_cs c" "reg m r R_RAX = gregs c RAX"
    "reg m r R_RDI = gregs c RDI" "reg m r R_RSI = gregs c RSI" "reg m r R_RDX = gregs c RDX" "reg m r R_RCX = gregs c RCX"
proof -
  have "reg m r k = frame_words c vec err ! k" if "k < 22" for k
    using arg_cong[OF assms, of "\<lambda>f. f ! k"] that by (simp add: frame_of_def)
  then show "reg m r R_INT_NO = of_nat vec" "reg m r R_CS = c_cs c" "reg m r R_RAX = gregs c RAX"
    "reg m r R_RDI = gregs c RDI" "reg m r R_RSI = gregs c RSI" "reg m r R_RDX = gregs c RDX" "reg m r R_RCX = gregs c RCX"
    by (simp_all add: frame_words_def saved_regs_def)
qed

text \<open>
  C8: when the timer interrupts a user program and another task can run, the assembly stub, the handler and the
  scheduler together keep all twenty of the program's registers: whenever the kernel later resumes that
  task from its saved frame, the processor is in exactly the state in which it was interrupted.
  The frame the handler returns is the one saved for the task it switches to.
\<close>

theorem preempted_task_resumes:
  assumes "kernel_inv s" "0 \<le> current_task s" "1 < num_tasks s" "c_cs c AND 3 \<noteq> 0"
    and "page_aligned (stack_phys (task_at s (nat (current_task s))))"
    and "frame_away (frame_addr rsp0) (stack_phys (task_at s (nat (current_task s))))"
  shows "\<exists>r u q t. isr_enter 32 err rsp0 c s = (r, u) \<and> isr_handler irqs cr2 r u = Inr (q, t)
    \<and> isr_leave (t_rsp (task_at t (nat (current_task s)))) d (mem t) = c
    \<and> q = t_rsp (task_at t (nat (current_task t)))"
proof -
  let ?r = "frame_addr rsp0"
  obtain m where m: "isr_enter 32 err rsp0 c s = (?r, s\<lparr>mem := m\<rparr>)" "frame_of m ?r = frame_words c 32 err"
    using isr_enter_frame[OF assms(4)] by blast
  let ?u = "irq_common 32 (s\<lparr>mem := m\<rparr>)"
  have h: "isr_handler irqs cr2 ?r (s\<lparr>mem := m\<rparr>) = schedule ?r ?u"
    using frame_words_nth(1,2)[OF m(2)] assms(3,4) by (simp add: isr_handler_def Let_def)
  have inv: "kernel_inv ?u" using assms(1) by (simp add: irq_common_inv)
  have tasks: "tasks ?u = tasks s" by (simp add: irq_common_def Let_def outb_def)
  obtain q t where qt: "schedule ?r ?u = Inr (q, t)"
    using schedule_total[OF inv, of ?r] assms(2) by auto
  have "frame_of (mem t) (t_rsp (task_at t (nat (current_task s)))) = frame_words c 32 err
      \<and> q = t_rsp (task_at t (nat (current_task t)))"
    using schedule_frames[OF qt inv] assms(2,5,6) m(2) tasks by (simp; metis)
  then have "isr_leave (t_rsp (task_at t (nat (current_task s)))) d (mem t) = c" "q = t_rsp (task_at t (nat (current_task t)))"
    using isr_leave_words by blast+
  then show ?thesis using m(1) h[unfolded qt] by blast
qed

theorem preempted_task_resumes_witness:
  "\<exists>c r u q t. isr_enter 32 0 0x9100 c kernel_demo = (r, u) \<and> isr_handler [] 0 r u = Inr (q, t)
     \<and> isr_leave (t_rsp (task_at t (nat (current_task kernel_demo)))) c (mem t) = c \<and> gregs c R12 = 7"
proof -
  let ?c = "\<lparr>gregs = (\<lambda>r. if r = R12 then 7 else 0), c_rip = 0x400000, c_cs = 0x2B, c_rflags = 0x202, c_rsp = 0x500000, c_ss = 0x23\<rparr>"
  have a: "frame_addr 0x9100 = 0x9050" by (simp add: frame_addr_def)
  have "page_of (slot 0x9050 (of_nat k)) \<noteq> 0x300000" if "k < 22" for k
  proof -
    have "unat (slot 0x9050 (of_nat k)) < 0x10000"
      using that by (simp add: slot_def unat_word_ariths unat_of_nat)
    then show ?thesis using page_of_le[of "slot 0x9050 (of_nat k)"] by (auto simp: word_le_nat_alt)
  qed
  then have "frame_away (frame_addr 0x9100) 0x300000" unfolding a by (simp add: frame_away_def aligned8_def)
  then have "\<exists>r u q t. isr_enter 32 0 0x9100 ?c kernel_demo = (r, u) \<and> isr_handler [] 0 r u = Inr (q, t)
     \<and> isr_leave (t_rsp (task_at t (nat (current_task kernel_demo)))) ?c (mem t) = ?c
     \<and> q = t_rsp (task_at t (nat (current_task t)))"
    by (intro preempted_task_resumes[OF kernel_demo_inv]) (simp_all add: page_aligned_def del: kernel_demo_fields(5))
  moreover have "gregs ?c R12 = 7" by simp
  ultimately show ?thesis by blast
qed

section \<open>System calls\<close>

lemma frame_of_write_rax:
  assumes "aligned8 r"
  shows "frame_of (write64 (slot r (of_nat R_RAX)) v m) r = (frame_of m r)[14 := v]"
proof (rule nth_equalityI)
  fix k assume "k < length (frame_of (write64 (slot r (of_nat R_RAX)) v m) r)"
  then have k: "k < 22" by (simp add: frame_of_def)
  have al: "aligned8 (slot r (of_nat j))" for j
    using assms by (simp add: slot_def aligned8_add aligned8_times8)
  have "slot r (of_nat k) = slot r (of_nat 14) \<longleftrightarrow> k = 14"
  proof -
    have "unat (8 * of_nat k :: u64) = 8 * k" using k by (simp add: unat_word_ariths unat_of_nat)
    then have "(8 * of_nat k :: u64) = 112 \<longleftrightarrow> k = 14" by (auto simp: word_unat_eq_iff)
    then show ?thesis by (simp add: slot_def)
  qed
  then have "read64 (write64 (slot r (of_nat 14)) v m) (slot r (of_nat k)) = (if k = 14 then v else read64 m (slot r (of_nat k)))"
    using al[of k] al[of 14] by (cases "k = 14") (simp_all add: read64_write64_same read64_write64_other)
  then show "frame_of (write64 (slot r (of_nat R_RAX)) v m) r ! k = (frame_of m r)[14 := v] ! k"
    using k by (simp add: frame_of_def reg_def nth_list_update)
qed (simp add: frame_of_def)

lemma frame_words_rax:
  "(frame_words c vec err)[14 := v] = frame_words (c\<lparr>gregs := (gregs c)(RAX := v)\<rparr>) vec err"
  by (simp add: frame_words_def saved_regs_def)

text \<open>
  A system call of the only task returns to its caller with the result in \<^verbatim>\<open>rax\<close> and every
  other register as it was, whenever the call has not written over the interrupt frame.
\<close>

theorem syscall_returns_result:
  assumes "c_cs c AND 3 \<noteq> 0" "isr_enter 0x80 err rsp0 c s = (r, u)"
    and "syscall_handler irqs (gregs c RAX) (gregs c RDI) (gregs c RSI) (gregs c RDX) (gregs c RCX) u = Inr (v, w)"
    and "frame_of (mem w) r = frame_of (mem u) r" "num_tasks w \<le> 1"
  shows "\<exists>t. isr_handler irqs cr2 r u = Inr (r, t) \<and> isr_leave r d (mem t) = c\<lparr>gregs := (gregs c)(RAX := v)\<rparr>"
proof -
  obtain m where m: "isr_enter 0x80 err rsp0 c s = (frame_addr rsp0, s\<lparr>mem := m\<rparr>)"
      "frame_of m (frame_addr rsp0) = frame_words c 0x80 err"
    using isr_enter_frame[OF assms(1)] by blast
  have r: "r = frame_addr rsp0" "mem u = m" using m(1) assms(2) by auto
  have "(rsp0 AND NOT 0xF) AND 7 = 0" by (simp add: and.assoc)
  then have al: "aligned8 r" unfolding r frame_addr_def
    using aligned8_add[of "rsp0 AND NOT 0xF" "- 176"] by (simp add: aligned8_def)
  let ?t = "w\<lparr>mem := write64 (slot r (of_nat R_RAX)) v (mem w)\<rparr>"
  note f = frame_words_nth[OF m(2), folded r]
  have "isr_handler irqs cr2 r u = Inr (r, ?t)"
    using f assms(3,5) by (simp add: isr_handler_def syscall_interrupt_def Let_def)
  moreover have "frame_of (mem ?t) r = frame_words (c\<lparr>gregs := (gregs c)(RAX := v)\<rparr>) 0x80 err"
    using frame_of_write_rax[OF al, of v "mem w"] assms(4) m(2) r frame_words_rax[of c 128 err v] by simp
  ultimately show ?thesis using isr_leave_words by blast
qed

end
