(* ===== verification/Process_Creation.thy ===== *)
theory Process_Creation
  imports Isr_Stubs Elf_Invariants
begin

text \<open>
  What creating a process does to the process table, for both loaders of \<^verbatim>\<open>kernel/task.c\<close>: nothing at all, or one new ready
  task at the end. The frame built for it is followed through the return path of the interrupt
  stubs (the same instructions start the first task in \<^verbatim>\<open>scheduler_start\<close>) to the registers
  the program starts with.
\<close>

section \<open>Outcomes\<close>

text \<open>The state of the processor in which a program starts.\<close>

definition start_context :: "u64 \<Rightarrow> u64 \<Rightarrow> cpu" where
  "start_context rip stack =
     \<lparr>gregs = (\<lambda>_. 0), c_rip = rip, c_cs = 0x2B, c_rflags = 0x202, c_rsp = stack, c_ss = 0x23\<rparr>"

definition table_kept :: "kstate \<Rightarrow> kstate \<Rightarrow> bool" where
  "table_kept s t \<longleftrightarrow> tasks t = tasks s \<and> num_tasks t = num_tasks s \<and> next_pid t = next_pid s"

definition refused :: "kstate \<Rightarrow> int \<Rightarrow> kstate \<Rightarrow> bool" where
  "refused s r t \<longleftrightarrow> r = - 1 \<and> table_kept s t"

definition started :: "u64 \<Rightarrow> kstate \<Rightarrow> int \<Rightarrow> kstate \<Rightarrow> bool" where
  "started want_pid s r t \<longleftrightarrow>
     (let pid = (if want_pid > 0 then want_pid else ucast (next_pid s)); new = task_at t (num_tasks s)
      in r = u64_to_int pid \<and> num_tasks t = num_tasks s + 1
       \<and> next_pid t = (if want_pid > 0 then next_pid s else next_pid s + 1)
       \<and> (\<forall>i < num_tasks s. task_at t i = task_at s i)
       \<and> t_state new = TASK_READY \<and> t_pid new = pid \<and> inbox new = [] \<and> wait_idx new = - 1
       \<and> (\<exists>rip stack. \<forall>c. isr_leave (t_rsp new) c (mem t) = start_context rip stack))"

lemma table_kept_keeps: "keeps_kernel s t \<Longrightarrow> table_kept s t"
  by (simp add: table_kept_def keeps_kernel_fields)

interpretation table: step_contract table_kept
  by unfold_locales (simp_all add: table_kept_def)

lemma refused_after: "table_kept s u \<Longrightarrow> refused u r t \<Longrightarrow> refused s r t"
  using table.then_rel by (simp add: refused_def)

lemma started_after: "table_kept s u \<Longrightarrow> started w u r t \<Longrightarrow> started w s r t"
  unfolding started_def table_kept_def by metis

lemmas outcome_after = refused_after started_after

lemma initial_frame_words: "rev (initial_frame stack rip) = frame_words (start_context rip stack) 0 0"
  by (simp add: initial_frame_def frame_words_def start_context_def saved_regs_def has_error_code_def numeral_eq_Suc)

text \<open>The frame on the new kernel stack starts the program.\<close>

lemma initial_frame_starts:
  "isr_leave kstack c (snd (push_words (initial_frame stack rip) (kstack + FRAME_SIZE) m)) = start_context rip stack"
proof -
  let ?ws = "frame_words (start_context rip stack) 0 0"
  have "initial_frame stack rip = rev ?ws" by (simp add: initial_frame_words[symmetric])
  then show ?thesis
    using frame_of_pushed[of ?ws "kstack + FRAME_SIZE" m] by (intro isr_leave_words) simp
qed

lemma install_started:
  assumes "kernel_inv s" "num_tasks s < 64" "mem s = snd (push_words (initial_frame stack rip) (kstack + FRAME_SIZE) m)"
    and "install_task (num_tasks s) kstack w pml4 addr pages s = (pid, t)"
    and "tasks u = tasks t" "num_tasks u = num_tasks t + 1" "next_pid u = next_pid t" "mem u = mem t"
  shows "started w s (u64_to_int pid) u"
proof -
  have n: "num_tasks s < length (tasks s)" using assms(2) kernel_inv_bounds(1)[OF assms(1)] by simp
  have t: "pid = (if w > 0 then w else ucast (next_pid s))" "num_tasks t = num_tasks s"
    "next_pid t = (if w > 0 then next_pid s else next_pid s + 1)" "mem t = mem s"
    "\<forall>i < num_tasks s. task_at t i = task_at s i"
    using assms(4) n by (auto simp: install_task_def Let_def upd_task_def)
  have new: "t_rsp (task_at t (num_tasks s)) = kstack" "t_state (task_at t (num_tasks s)) = TASK_READY"
    "t_pid (task_at t (num_tasks s)) = pid" "inbox (task_at t (num_tasks s)) = []" "wait_idx (task_at t (num_tasks s)) = - 1"
    using assms(4) n by (auto simp: install_task_def Let_def upd_task_def ipc_init_task_def inbox_def ring_slots_def)
  have "\<forall>c. isr_leave kstack c (mem u) = start_context rip stack"
    using initial_frame_starts assms(3,8) t(4) by simp
  then show ?thesis using t new assms(5-7) by (auto simp: started_def Let_def)
qed

section \<open>The two loaders\<close>

lemma elf_install_outcome:
  assumes "elf_install bs kstack None w pml4 mv s = Inr (r, t)" "kernel_inv s" "num_tasks s < 64"
  shows "started w s r t"
proof -
  let ?s = "fold pmm_free_page bs s"
  note k = keeps_kernel_free_all[of s bs]
  obtain rip where rip: "hdr_entry (hd bs) ?s = Inr rip"
    using assms(1) by (auto simp: elf_install_def Let_def bind_res_Inr)
  obtain sp m where m: "push_words (initial_frame (mv + 0x20000) rip) (kstack + FRAME_SIZE) (mem ?s) = (sp, m)"
    by fastforce
  obtain pid u where u: "install_task (num_tasks ?s) kstack w pml4 0x400000
      ((mv - 0x400000 + 4095) div 4096) (?s\<lparr>mem := m\<rparr>) = (pid, u)" by fastforce
  have t: "r = u64_to_int pid" "t = kputs ('' created'' @ crlf) (kputhex pid (kputs ''[kernel] ELF process #''
      (u\<lparr>num_tasks := num_tasks u + 1\<rparr>)))"
    using assms(1) rip m u by (simp_all add: elf_install_def Let_def)
  have "kernel_inv (?s\<lparr>mem := m\<rparr>)" using kernel_inv_keeps[OF k assms(2)] by simp
  moreover have "num_tasks (?s\<lparr>mem := m\<rparr>) < 64" using keeps_kernel_fields(3)[OF k] assms(3) by simp
  moreover have "mem (?s\<lparr>mem := m\<rparr>) = snd (push_words (initial_frame (mv + 0x20000) rip) (kstack + FRAME_SIZE) (mem ?s))"
    using m by simp
  ultimately have "started w (?s\<lparr>mem := m\<rparr>) r t"
    unfolding t by (rule install_started) (use u in \<open>simp_all add: kputs_def kputhex_def\<close>)
  moreover have "table_kept s (?s\<lparr>mem := m\<rparr>)" using table_kept_keeps[OF k] by (simp add: table_kept_def)
  ultimately show ?thesis by (rule outcome_after(2)[rotated])
qed

lemma flat_install_outcome:
  assumes "flat_install kstack w pml4 addr pages s = (r, t)" "kernel_inv s" "num_tasks s < 64"
  shows "started w s r t"
proof -
  obtain sp m where m: "push_words (initial_frame (addr + 0x100000) addr) (kstack + FRAME_SIZE) (mem s) = (sp, m)"
    by fastforce
  obtain pid u where u: "install_task (num_tasks s) kstack w pml4 addr pages (s\<lparr>mem := m\<rparr>) = (pid, u)"
    by fastforce
  have t: "r = u64_to_int pid" "t = kputs ('' created'' @ crlf) (kputhex pid (kputs ''[kernel] Process #''
      (u\<lparr>num_tasks := num_tasks u + 1\<rparr>)))"
    using assms(1) m u by (simp_all add: flat_install_def Let_def)
  have "started w (s\<lparr>mem := m\<rparr>) r t"
    unfolding t by (rule install_started[where m = "mem s" and stack = "addr + 0x100000" and rip = addr]) (use assms(2,3) m u in \<open>simp_all add: kputs_def kputhex_def\<close>)
  moreover have "table_kept s (s\<lparr>mem := m\<rparr>)" by (simp add: table_kept_def)
  ultimately show ?thesis by (rule outcome_after(2)[rotated])
qed

lemma elf_create_task_outcome:
  assumes "elf_create_task bs w mv s = Inr (r, t)" "kernel_inv s" "want_ok w s"
  shows "refused s r t \<or> started w s r t"
proof (cases "num_tasks s \<ge> 64")
  case True
  then show ?thesis
    using assms(1) table_kept_keeps[OF keeps_kernel_free_all[of s bs]] by (auto simp: elf_create_task_def refused_def)
next
  case room: False
  obtain k u where k: "pmm_alloc_page s = (k, u)" by fastforce
  obtain p x where p: "paging_clone_kernel u = (p, x)" by fastforce
  have ku: "keeps_kernel s u" using keeps_kernel_alloc[OF k] .
  have kx: "keeps_kernel s x" using keeps_kernel_trans[OF ku keeps_kernel_clone[OF p]] .
  have reuse: "find_reuse w u = Some None" using want_ok_reuse want_ok_keeps[OF ku] assms(3) by blast
  show ?thesis
  proof (cases "k = 0 \<or> p = 0")
    case True
    then have "r = - 1" "keeps_kernel s t"
      using assms(1) room k p ku kx reuse
      by (auto simp: elf_create_task_def split: if_splits
          intro: keeps_kernel_trans[OF _ keeps_kernel_free_all] keeps_kernel_trans[OF _ keeps_kernel_basic(2)])
    then show ?thesis using table_kept_keeps by (simp add: refused_def)
  next
    case False
    then obtain ok v where v: "elf_load_image (hd bs) p (mv + 0x20000) x = Inr (ok, v)"
      "if ok then elf_install bs k None w p mv v = Inr (r, t) else r = - 1 \<and> t = v"
      using assms(1) room k p reuse by (auto simp: elf_create_task_def bind_res_Inr split: if_splits)
    have x: "kernel_inv x" using kernel_inv_keeps[OF kx assms(2)] .
    have kv: "keeps_kernel s v"
      using keeps_kernel_trans[OF kx keeps_kernel_load_image[OF v(1) kernel_inv_bounds(8)[OF x]]] .
    have "refused v r t \<or> started w v r t"
      using v(2) elf_install_outcome[of bs k w p mv v r t] kernel_inv_keeps[OF kv assms(2)] keeps_kernel_fields(3)[OF kv] room
        table.unchanged by (cases ok) (auto simp: refused_def)
    then show ?thesis using outcome_after[OF table_kept_keeps[OF kv]] by blast
  qed
qed

lemma create_elf_outcome:
  assumes "create_elf binary sz w s = Inr (r, t)" "kernel_inv s" "want_ok w s"
  shows "refused s r t \<or> started w s r t"
proof (cases "sz < 64 \<or> sz > 65536")
  case True
  then show ?thesis using assms(1) table.unchanged by (auto simp: create_elf_def refused_def split: if_splits)
next
  case False
  obtain ps u where u: "alloc_buf (unat ((sz + 4095) div 4096)) [] s = (ps, u)" by fastforce
  note ku = keeps_kernel_alloc_buf[OF u]
  show ?thesis
  proof (cases ps)
    case None
    then show ?thesis using assms(1) False u table_kept_keeps[OF ku] by (simp add: create_elf_def refused_def)
  next
    case (Some bs)
    then obtain x where x: "vcopy (unat sz) (hd bs) binary u = Inr x"
      "r = - 1 \<and> t = fold pmm_free_page bs x \<or> (\<exists>mv. elf_create_task bs w mv x = Inr (r, t))"
      using assms(1) False u by (auto simp: create_elf_def Let_def bind_res_Inr split: if_splits)
    have kx: "keeps_kernel s x" using keeps_kernel_trans[OF ku keeps_kernel_vcopy[OF x(1)]] .
    have ok: "kernel_inv x" "want_ok w x" using kernel_inv_keeps[OF kx assms(2)] want_ok_keeps[OF kx] assms(3) by simp_all
    have "refused x r t \<or> started w x r t"
      using x(2)
    proof
      assume "r = - 1 \<and> t = fold pmm_free_page bs x"
      then show ?thesis using table_kept_keeps[OF keeps_kernel_free_all[of x bs]] by (simp add: refused_def)
    qed (use elf_create_task_outcome[OF _ ok] in blast)
    then show ?thesis using outcome_after[OF table_kept_keeps[OF kx]] by blast
  qed
qed

lemma flat_outcome:
  assumes "(if ok then flat_install k w p addr pages v else (- 1, v)) = (r, t)"
    and "flat_load binary sz addr p x = Inr (ok, v)" "kernel_inv x" "num_tasks x < 64"
  shows "refused x r t \<or> started w x r t"
proof -
  note f = flat_load_keeps[OF assms(2) kernel_inv_bounds(8)[OF assms(3)]]
  have k: "table_kept x v" using kernel_fields_cong[OF f(1)] by (simp add: table_kept_def)
  have "refused v r t \<or> started w v r t"
    using assms(1) flat_install_outcome[of k w p addr pages v r t] kernel_inv_cong[OF f assms(3)] assms(4) k table.unchanged
    by (cases ok) (auto simp: refused_def table_kept_def)
  then show ?thesis using outcome_after[OF k] by blast
qed

text \<open>
  C17: creating a process is all or nothing. When \<^verbatim>\<open>task_create\<close> returns, for a flat binary or an ELF file
  and whatever the file contains, either it returns -1 and the process table and the
  identifier counter are as before, or it returns the identifier of exactly one new task at the end of the table,
  ready, with an empty queue, all other tasks unchanged; and popping the frame
  built for it starts it in user mode (selectors 0x2B and 0x23, interrupts enabled) with every general register zero.
\<close>

theorem task_create_all_or_nothing:
  assumes "task_create binary sz addr w s = Inr (r, t)" "kernel_inv s" "want_ok w s"
  shows "refused s r t \<or> started w s r t"
proof -
  obtain elf where elf: "(if sz \<ge> 4 then bind_res (vread32 binary s) (\<lambda>w. Inr (w = ELF_MAGIC)) else Inr False)
      = Inr elf"
    using assms(1) by (auto simp: task_create_def bind_res_Inr)
  obtain k u where k: "pmm_alloc_page s = (k, u)" by fastforce
  obtain p x where p: "paging_clone_kernel u = (p, x)" by fastforce
  have ku: "keeps_kernel s u" using keeps_kernel_alloc[OF k] .
  have kx: "keeps_kernel s x" using keeps_kernel_trans[OF ku keeps_kernel_clone[OF p]] .
  consider "create_elf binary sz w s = Inr (r, t)" | "r = - 1" "keeps_kernel s t"
    | ok v where "flat_load binary sz addr p x = Inr (ok, v)" "num_tasks s < 64"
      "(if ok then flat_install k w p addr ((sz + 4095) div 4096) v else (- 1, v)) = (r, t)"
    using assms(1) elf k p ku kx keeps_kernel_after(2)[OF ku] keeps_kernel_after(2)[OF keeps_kernel_refl[of s]]
    by (auto simp: task_create_def bind_res_Inr split: if_splits)
  then show ?thesis
  proof cases
    case 1
    then show ?thesis using create_elf_outcome assms(2,3) by blast
  next
    case 2
    then show ?thesis using table_kept_keeps by (simp add: refused_def)
  next
    case 3
    have "refused x r t \<or> started w x r t"
      using flat_outcome[OF 3(3,1) kernel_inv_keeps[OF kx assms(2)]] 3(2) keeps_kernel_fields(3)[OF kx] by simp
    then show ?thesis using outcome_after[OF table_kept_keeps[OF kx]] by blast
  qed
qed

theorem task_create_all_or_nothing_witness:
  "\<exists>r t. task_create 0 0 0x400000 0 kernel_demo = Inr (r, t) \<and> (refused kernel_demo r t \<or> started 0 kernel_demo r t)"
proof -
  have "\<exists>r t. task_create 0 0 0x400000 0 kernel_demo = Inr (r, t)"
    by (auto simp: task_create_def flat_load_def Let_def split: prod.split)
  then show ?thesis using task_create_all_or_nothing[OF _ kernel_demo_inv want_ok_0] by blast
qed

end
