(* ===== verification/User_Messages.thy ===== *)
theory User_Messages
  imports Serial_Console
begin

text \<open>
  What the user programs under \<^verbatim>\<open>_sdk/user_backup\<close> share: the message structure each of them declares,
  their stubs for the \<^verbatim>\<open>send\<close> and \<^verbatim>\<open>recv\<close> system calls, and the state of a program as the
  other programs and the devices see it. A program polls \<^verbatim>\<open>recv\<close> until a message is there, so
  a handler takes the messages that arrive, in their order, as a list; \<open>None\<close> stands for a
  program that waits for a message that never comes, or whose loop never ends. No program
  looks at the result of \<^verbatim>\<open>send\<close>: the log holds every message handed to the kernel,
  which drops those that find a full queue.
\<close>

section \<open>Messages\<close>

text \<open>Receiver (or sender), type and data of a message.\<close>

type_synonym sent_msg = "u64 \<times> u64 \<times> u8 list"

record request =
  req_sender :: u64
  req_type :: u64
  req_data :: "u8 list" \<comment> \<open>64 bytes\<close>
  req_length :: u64

text \<open>
  \<^verbatim>\<open>recv(&msg)\<close>: the kernel stores sender, type, length and as many bytes as were sent; the
  rest of \<^verbatim>\<open>data\<close> stays as it was.
\<close>

definition recv_into :: "sent_msg \<Rightarrow> request \<Rightarrow> request" where
  "recv_into m buf =
     (case m of (sender, typ, bytes) \<Rightarrow>
        \<lparr>req_sender = sender, req_type = typ, req_data = bytes @ drop (length bytes) (req_data buf),
         req_length = of_nat (length bytes)\<rparr>)"

text \<open>
  A string is read from \<^verbatim>\<open>data\<close> up to a zero byte; without one in the data the bytes of
  \<^verbatim>\<open>length\<close> follow, and what comes after the structure is not known.
\<close>

definition msg_bytes :: "request \<Rightarrow> u8 list" where
  "msg_bytes r = req_data r @ le_bytes 8 (req_length r)"

definition req_string :: "request \<Rightarrow> u8 list res" where
  "req_string r =
     (if 0 \<in> set (msg_bytes r) then Inr (takeWhile (\<lambda>b. b \<noteq> 0) (msg_bytes r)) else Inl Undefined)"

lemma req_string_terminated:
  assumes "0 \<notin> set path"
  shows "req_string \<lparr>req_sender = pid, req_type = t, req_data = path @ 0 # ys, req_length = l\<rparr> = Inr path"
proof -
  have "takeWhile (\<lambda>b. b \<noteq> 0) (path @ 0 # zs) = path" for zs
    using assms by (subst takeWhile_append2) auto
  then show ?thesis by (simp add: req_string_def msg_bytes_def)
qed

section \<open>Programs\<close>

record uproc = machine +
  sent :: "sent_msg list"

text \<open>\<^verbatim>\<open>send\<close>: the kernel takes at most 64 bytes.\<close>

definition u_send :: "u64 \<Rightarrow> u64 \<Rightarrow> u8 list \<Rightarrow> 'a uproc_scheme \<Rightarrow> 'a uproc_scheme" where
  "u_send pid typ bytes s = s\<lparr>sent := sent s @ [(pid, typ, take 64 bytes)]\<rparr>"

text \<open>Continue with a value unless the computation before has stopped.\<close>

definition try_res :: "'a res \<Rightarrow> ('a \<Rightarrow> 'b res option) \<Rightarrow> 'b res option" where
  "try_res r f = (case r of Inl e \<Rightarrow> Some (Inl e) | Inr x \<Rightarrow> f x)"

lemma try_res_simps [simp]: "try_res (Inl e) f = Some (Inl e)" "try_res (Inr x) f = f x"
  by (simp_all add: try_res_def)

lemma try_res_mono [partial_function_mono]:
  "(\<And>x. mono_option (\<lambda>g. f g x)) \<Longrightarrow> mono_option (\<lambda>g. try_res r (f g))"
  unfolding try_res_def by (cases r) (simp_all add: monotone_on_def flat_ord_def fun_ord_def)

definition and_then :: "'a res option \<Rightarrow> ('a \<Rightarrow> 'b res option) \<Rightarrow> 'b res option" where
  "and_then r f = Option.bind r (\<lambda>x. try_res x f)"

lemma and_then_simps [simp]:
  "and_then None f = None" "and_then (Some (Inl e)) f = Some (Inl e)" "and_then (Some (Inr x)) f = f x"
  by (simp_all add: and_then_def)

end
