(* ===== verification/Fat32.thy ===== *)
theory Fat32
  imports User_Messages
begin

text \<open>
  The FAT32 server, \<^verbatim>\<open>_sdk/user_backup/fat32.c\<close>. The state is the server's globals, the disk and
  the messages it has sent. The disk is behind two system calls of a kernel that is not in the
  repository (numbers 13 and 15 have other meanings in this one): they are a parameter
  \<open>ops\<close>, a sector read that may fail and a sector write with its success flag. Sectors are lists of
  512 bytes, \<^verbatim>\<open>u8 sec[512]\<close>; an access outside the array is \<open>Undefined\<close>, as is a
  division by a zero sector size. Loops that follow a cluster chain need not end; they are partial
  functions, with \<open>None\<close> for a run that does not return.
\<close>

section \<open>State\<close>

record 'd disk_ops =
  read_sector :: "u32 \<Rightarrow> 'd \<Rightarrow> u8 list option"
  write_sector :: "u32 \<Rightarrow> u8 list \<Rightarrow> 'd \<Rightarrow> bool \<times> 'd"

record 'd fs =
  disk :: 'd
  bytes_per_sector :: u16
  sectors_per_cluster :: u8
  reserved_sectors :: u16
  num_fats :: u8
  sectors_per_fat :: u32
  root_cluster :: u32
  first_data_sector :: u32
  file_buf :: "u8 list" \<comment> \<open>32768 bytes\<close>
  outbox :: "sent_msg list"

abbreviation EOC :: u32 where "EOC \<equiv> 0x0FFFFFF8"

definition fs_send :: "u64 \<Rightarrow> u64 \<Rightarrow> u8 list \<Rightarrow> 'd fs \<Rightarrow> 'd fs" where
  "fs_send pid typ bytes s = s\<lparr>outbox := outbox s @ [(pid, typ, bytes)]\<rparr>"

text \<open>Accesses to a byte array.\<close>

definition get_bytes :: "nat \<Rightarrow> nat \<Rightarrow> u8 list \<Rightarrow> u8 list res" where
  "get_bytes i n xs = (if i + n \<le> length xs then Inr (take n (drop i xs)) else Inl Undefined)"

definition put_bytes :: "nat \<Rightarrow> u8 list \<Rightarrow> u8 list \<Rightarrow> u8 list res" where
  "put_bytes i bs xs =
     (if i + length bs \<le> length xs then Inr (take i xs @ bs @ drop (i + length bs) xs) else Inl Undefined)"

definition get16 :: "nat \<Rightarrow> u8 list \<Rightarrow> u16 res" where
  "get16 i xs = bind_res (get_bytes i 2 xs) (\<lambda>bs. Inr (le_word bs))"

definition get32 :: "nat \<Rightarrow> u8 list \<Rightarrow> u32 res" where
  "get32 i xs = bind_res (get_bytes i 4 xs) (\<lambda>bs. Inr (le_word bs))"

definition put32 :: "nat \<Rightarrow> u32 \<Rightarrow> u8 list \<Rightarrow> u8 list res" where
  "put32 i v xs = put_bytes i (le_bytes 4 v) xs"

definition get8 :: "nat \<Rightarrow> u8 list \<Rightarrow> u8 res" where
  "get8 i xs = (if i < length xs then Inr (xs ! i) else Inl Undefined)"

section \<open>Geometry and the allocation table\<close>

text \<open>\<open>False\<close>: the boot sector cannot be read.\<close>

definition init_fs :: "'d disk_ops \<Rightarrow> 'd fs \<Rightarrow> (bool \<times> 'd fs) res" where
  "init_fs ops s =
     (case read_sector ops 0 (disk s) of
        None \<Rightarrow> Inr (False, s)
      | Some sec \<Rightarrow>
          bind_res (get16 0x0B sec) (\<lambda>bps.
          bind_res (get8 0x0D sec) (\<lambda>spc.
          bind_res (get16 0x0E sec) (\<lambda>rsv.
          bind_res (get8 0x10 sec) (\<lambda>nf.
          bind_res (get32 0x24 sec) (\<lambda>spf.
          bind_res (get32 0x2C sec) (\<lambda>root.
            Inr (True, s\<lparr>bytes_per_sector := bps, sectors_per_cluster := spc, reserved_sectors := rsv,
              num_fats := nf, sectors_per_fat := spf, root_cluster := root,
              first_data_sector := ucast rsv + ucast nf * spf\<rparr>))))))))"

definition cluster_to_sector :: "'d fs \<Rightarrow> u32 \<Rightarrow> u32" where
  "cluster_to_sector s c = first_data_sector s + (c - 2) * ucast (sectors_per_cluster s)"

text \<open>The sector and the offset of the table entry of a cluster.\<close>

definition fat_position :: "'d fs \<Rightarrow> u32 \<Rightarrow> (u32 \<times> nat) res" where
  "fat_position s c =
     (if bytes_per_sector s = 0 then Inl Undefined
      else
        let off = c * 4;
            fat_sec = ucast (reserved_sectors s) + off div ucast (bytes_per_sector s);
            in_off = off mod ucast (bytes_per_sector s)
        in Inr (fat_sec, unat in_off))"

definition next_cluster :: "'d disk_ops \<Rightarrow> 'd fs \<Rightarrow> u32 \<Rightarrow> u32 res" where
  "next_cluster ops s c =
     bind_res (fat_position s c) (\<lambda>(fat_sec, in_off).
       case read_sector ops fat_sec (disk s) of
         None \<Rightarrow> Inr 0
       | Some sec \<Rightarrow> bind_res (get32 in_off sec) (\<lambda>v. Inr (v AND 0x0FFFFFFF)))"

definition fs_write :: "'d disk_ops \<Rightarrow> u32 \<Rightarrow> u8 list \<Rightarrow> 'd fs \<Rightarrow> bool \<times> 'd fs" where
  "fs_write ops lba sec s = (let (ok, d) = write_sector ops lba sec (disk s) in (ok, s\<lparr>disk := d\<rparr>))"

definition set_fat_entry :: "'d disk_ops \<Rightarrow> u32 \<Rightarrow> u32 \<Rightarrow> 'd fs \<Rightarrow> (bool \<times> 'd fs) res" where
  "set_fat_entry ops c val s =
     bind_res (fat_position s c) (\<lambda>(fat_sec, in_off).
       case read_sector ops fat_sec (disk s) of
         None \<Rightarrow> Inr (False, s)
       | Some sec \<Rightarrow>
           bind_res (get32 in_off sec) (\<lambda>old.
           bind_res (put32 in_off ((old AND 0xF0000000) OR (val AND 0x0FFFFFFF)) sec) (\<lambda>sec.
             Inr (fs_write ops fat_sec sec s))))"

definition is_eoc :: "u32 \<Rightarrow> bool" where
  "is_eoc c \<longleftrightarrow> c \<ge> EOC"

text \<open>The test of every chain loop: a cluster number that can be followed.\<close>

definition in_chain :: "u32 \<Rightarrow> bool" where
  "in_chain c \<longleftrightarrow> c \<ge> 2 \<and> \<not> is_eoc c"

lemma next_u32:
  fixes c n :: u32
  assumes "c < n"
  shows "2 ^ 32 - unat (c + 1) < 2 ^ 32 - unat c"
proof -
  have "unat (c + 1) = unat c + 1"
    using assms unsigned_less[of n, where 'a = nat] by (simp add: unat_word_ariths word_less_nat_alt)
  then show ?thesis using unsigned_less[of c, where 'a = nat] by simp
qed

text \<open>The result is 0 when no cluster is free or the table cannot be written.\<close>

function alloc_loop :: "'d disk_ops \<Rightarrow> u32 \<Rightarrow> u32 \<Rightarrow> 'd fs \<Rightarrow> (u32 \<times> 'd fs) res" where
  "alloc_loop ops c total_entries s =
     (if c < total_entries
      then
        bind_res (next_cluster ops s c) (\<lambda>n.
          if n = 0
          then bind_res (set_fat_entry ops c EOC s) (\<lambda>(ok, s). Inr (if ok then c else 0, s))
          else alloc_loop ops (c + 1) total_entries s)
      else Inr (0, s))"
  by pat_completeness auto
termination
  by (relation "measure (\<lambda>(ops, c, total_entries, s). 2 ^ 32 - unat c)") (simp, use next_u32 in simp)

declare alloc_loop.simps [simp del]

definition alloc_cluster :: "'d disk_ops \<Rightarrow> 'd fs \<Rightarrow> (u32 \<times> 'd fs) res" where
  "alloc_cluster ops s =
     alloc_loop ops 2 (sectors_per_fat s * ucast (bytes_per_sector s div 4)) s"

partial_function (option) free_cluster_chain :: "'d disk_ops \<Rightarrow> u32 \<Rightarrow> 'd fs \<Rightarrow> 'd fs res option" where
  "free_cluster_chain ops c s =
     (if in_chain c
      then
        try_res (next_cluster ops s c) (\<lambda>next.
        try_res (set_fat_entry ops c 0 s) (\<lambda>(_, s). free_cluster_chain ops next s))
      else Some (Inr s))"

section \<open>Names\<close>

definition upper :: "u8 \<Rightarrow> u8" where
  "upper c = (if c \<ge> 0x61 \<and> c \<le> 0x7A then c - 32 else c)"

text \<open>A name is the bytes before the terminating zero.\<close>

definition to_8_3 :: "u8 list \<Rightarrow> u8 list" where
  "to_8_3 name =
     (let out = fold (\<lambda>i out. out[i := 0x20]) [0..<11] (replicate 11 0);
          dot = List.find (\<lambda>i. name ! i = 0x2E) [0..<length name];
          lim = (case dot of None \<Rightarrow> 11 | Some d \<Rightarrow> d);
          out = fold (\<lambda>i out. out[i := upper (name ! i)]) [0..<min lim (min 8 (length name))] out
      in case dot of
           None \<Rightarrow> out
         | Some d \<Rightarrow> fold (\<lambda>i out. out[8 + i := upper (name ! (d + 1 + i))])
                      [0..<min 3 (length name - (d + 1))] out)"

section \<open>Directories\<close>

text \<open>A scan either goes on or makes the surrounding function return.\<close>

datatype 'r scan = Go_On | Return 'r

text \<open>\<^verbatim>\<open>for (off = 0; off < 512; off += 32)\<close>\<close>

definition entry_offsets :: "nat list" where
  "entry_offsets = map (\<lambda>i. 32 * i) [0..<16]"

primrec scan_entries :: "(nat \<Rightarrow> 'r scan) \<Rightarrow> nat list \<Rightarrow> 'r scan" where
  "scan_entries f [] = Go_On"
| "scan_entries f (off # offs) = (case f off of Return r \<Rightarrow> Return r | Go_On \<Rightarrow> scan_entries f offs)"

text \<open>The sectors of one cluster; \<open>None\<close>: a sector cannot be read.\<close>

primrec scan_sectors ::
  "'d disk_ops \<Rightarrow> (u32 \<Rightarrow> u8 list \<Rightarrow> 'r scan) \<Rightarrow> u32 \<Rightarrow> 'd fs \<Rightarrow> nat list \<Rightarrow> 'r option scan" where
  "scan_sectors ops f sec_base s [] = Go_On"
| "scan_sectors ops f sec_base s (i # is) =
     (case read_sector ops (sec_base + of_nat i) (disk s) of
        None \<Rightarrow> Return None
      | Some sec \<Rightarrow>
          (case f (sec_base + of_nat i) sec of
             Return r \<Rightarrow> Return (Some r)
           | Go_On \<Rightarrow> scan_sectors ops f sec_base s is))"

text \<open>
  The loop over the clusters of a directory, shared by the three functions that search one;
  \<open>None\<close> as a result: nothing found, or a sector cannot be read.
\<close>

partial_function (option) walk_dir ::
  "'d disk_ops \<Rightarrow> (u32 \<Rightarrow> u8 list \<Rightarrow> 'r scan) \<Rightarrow> u32 \<Rightarrow> 'd fs \<Rightarrow> 'r option res option" where
  "walk_dir ops f c s =
     (if in_chain c
      then
        (case scan_sectors ops f (cluster_to_sector s c) s [0..<unat (sectors_per_cluster s)] of
           Return r \<Rightarrow> Some (Inr r)
         | Go_On \<Rightarrow> try_res (next_cluster ops s c) (\<lambda>n. walk_dir ops f n s))
      else Some (Inr None))"

text \<open>Fields of the 32-byte entry at \<open>off\<close>.\<close>

definition entry_name :: "u8 list \<Rightarrow> nat \<Rightarrow> u8 list" where
  "entry_name sec off = take 11 (drop off sec)"

definition entry_cluster :: "u8 list \<Rightarrow> nat \<Rightarrow> u32" where
  "entry_cluster sec off =
     push_bit 16 (le_word (take 2 (drop (off + 0x14) sec))) OR le_word (take 2 (drop (off + 0x1A) sec))"

definition entry_size :: "u8 list \<Rightarrow> nat \<Rightarrow> u32" where
  "entry_size sec off = le_word (take 4 (drop (off + 0x1C) sec))"

definition skipped :: "u8 list \<Rightarrow> nat \<Rightarrow> bool" where
  "skipped sec off \<longleftrightarrow>
     sec ! off = 0xE5 \<or> sec ! (off + 0xB) = 0x0F \<or> sec ! (off + 0xB) AND 0x08 \<noteq> 0"

text \<open>The search for a name: an unused entry ends it (\<open>None\<close>), a match gives its place.\<close>

definition match_entry ::
  "u8 list \<Rightarrow> u32 \<Rightarrow> u8 list \<Rightarrow> (u32 \<times> u8 list \<times> nat) option scan" where
  "match_entry name lba sec =
     scan_entries (\<lambda>off.
       if sec ! off = 0 then Return None
       else if skipped sec off then Go_On
       else if entry_name sec off = name then Return (Some (lba, sec, off))
       else Go_On) entry_offsets"

definition locate ::
  "'d disk_ops \<Rightarrow> u32 \<Rightarrow> u8 list \<Rightarrow> 'd fs \<Rightarrow> (u32 \<times> u8 list \<times> nat) option res option" where
  "locate ops dir_cluster name s =
     and_then (walk_dir ops (match_entry name) dir_cluster s) (\<lambda>r.
       Some (Inr (case r of None \<Rightarrow> None | Some found \<Rightarrow> found)))"

text \<open>
  \<open>has_size\<close>: the caller passes a pointer for the size; \<^verbatim>\<open>resolve_parent\<close> passes 0 and
  the store through it faults.
\<close>

definition find_in_dir ::
  "'d disk_ops \<Rightarrow> u32 \<Rightarrow> u8 list \<Rightarrow> bool \<Rightarrow> 'd fs \<Rightarrow> (u32 \<times> u32) option res option" where
  "find_in_dir ops dir_cluster name has_size s =
     and_then (locate ops dir_cluster name s) (\<lambda>r.
       Some (case r of
         None \<Rightarrow> Inr None
       | Some (lba, sec, off) \<Rightarrow>
           if has_size then Inr (Some (entry_cluster sec off, entry_size sec off)) else Inl (Page_Fault 0)))"

text \<open>The position of the first \<^verbatim>\<open>/\<close>.\<close>

definition slash :: "u8 list \<Rightarrow> nat option" where
  "slash path = List.find (\<lambda>i. path ! i = 0x2F) [0..<length path]"

definition resolve_path :: "'d disk_ops \<Rightarrow> u8 list \<Rightarrow> 'd fs \<Rightarrow> (u32 \<times> u32) option res option" where
  "resolve_path ops path s =
     (case slash path of
        None \<Rightarrow> find_in_dir ops (root_cluster s) (to_8_3 path) True s
      | Some i \<Rightarrow>
          if i > 63 then Some (Inr None)
          else
            and_then (find_in_dir ops (root_cluster s) (to_8_3 (take i path)) True s) (\<lambda>r.
              case r of
                None \<Rightarrow> Some (Inr None)
              | Some (tmp_cluster, _) \<Rightarrow>
                  find_in_dir ops tmp_cluster (to_8_3 (drop (i + 1) path)) True s))"

text \<open>The directory's cluster and the name in it.\<close>

definition resolve_parent :: "'d disk_ops \<Rightarrow> u8 list \<Rightarrow> 'd fs \<Rightarrow> (u32 \<times> u8 list) option res option" where
  "resolve_parent ops path s =
     (case slash path of
        None \<Rightarrow> Some (Inr (Some (root_cluster s, path)))
      | Some i \<Rightarrow>
          if i > 63 then Some (Inr None)
          else
            and_then (find_in_dir ops (root_cluster s) (to_8_3 (take i path)) False s) (\<lambda>r.
              Some (Inr (case r of
                None \<Rightarrow> None
              | Some (tmp_cluster, _) \<Rightarrow> Some (tmp_cluster, drop (i + 1) path)))))"

text \<open>
  \<^verbatim>\<open>free_dir_entry\<close> writes the sector it found back unchanged and returns the offset inside
  it, not which sector it is.
\<close>

definition unused_entry :: "u32 \<Rightarrow> u8 list \<Rightarrow> (u32 \<times> u8 list \<times> nat) scan" where
  "unused_entry lba sec =
     scan_entries (\<lambda>off. if sec ! off = 0 \<or> sec ! off = 0xE5 then Return (lba, sec, off) else Go_On)
       entry_offsets"

definition free_dir_entry :: "'d disk_ops \<Rightarrow> u32 \<Rightarrow> 'd fs \<Rightarrow> (nat option \<times> 'd fs) res option" where
  "free_dir_entry ops dir_cluster s =
     and_then (walk_dir ops unused_entry dir_cluster s) (\<lambda>r.
       Some (Inr (case r of
         None \<Rightarrow> (None, s)
       | Some (lba, sec, off) \<Rightarrow>
           let (ok, s) = fs_write ops lba sec s in (if ok then Some off else None, s))))"

definition write_dir_entries ::
  "'d disk_ops \<Rightarrow> nat \<Rightarrow> u32 \<Rightarrow> u8 list \<Rightarrow> nat \<Rightarrow> nat \<Rightarrow> 'd fs \<Rightarrow> (bool \<times> 'd fs) res" where
  "write_dir_entries ops entry_off sec_sector entries n sz s =
     (case read_sector ops sec_sector (disk s) of
        None \<Rightarrow> Inr (False, s)
      | Some sec \<Rightarrow>
          bind_res (fold (\<lambda>(i, j) r. bind_res r (\<lambda>sec.
              bind_res (get_bytes (i * 32 + j) 1 entries) (\<lambda>b. put_bytes (entry_off + i * 32 + j) b sec)))
            (List.product [0..<n] [0..<sz]) (Inr sec)) (\<lambda>sec.
          Inr (fs_write ops sec_sector sec s)))"

definition delete_entry :: "'d disk_ops \<Rightarrow> u32 \<Rightarrow> u8 list \<Rightarrow> 'd fs \<Rightarrow> (bool \<times> 'd fs) res option" where
  "delete_entry ops dir_cluster name s =
     and_then (locate ops dir_cluster name s) (\<lambda>r.
       case r of
         None \<Rightarrow> Some (Inr (False, s))
       | Some (lba, sec, off) \<Rightarrow>
           let (ok, s) = fs_write ops lba (sec[off := 0xE5]) s
           in if \<not> ok then Some (Inr (False, s))
              else if sec ! (off + 0xB) AND 0x10 = 0
              then and_then (free_cluster_chain ops (entry_cluster sec off) s) (\<lambda>s. Some (Inr (True, s)))
              else Some (Inr (True, s)))"

section \<open>File data\<close>

text \<open>
  The sectors of one cluster: \<open>bytes\<close> are the bytes of \<open>data\<close> still to be written to it. With a
  sector size other than 512 the array handed to the disk is overrun or partly uninitialised.
\<close>

primrec put_sectors ::
  "'d disk_ops \<Rightarrow> u32 \<Rightarrow> nat list \<Rightarrow> u8 list \<Rightarrow> 'd fs \<Rightarrow> (bool \<times> u8 list \<times> 'd fs) res" where
  "put_sectors ops sbase [] bytes s = Inr (True, bytes, s)"
| "put_sectors ops sbase (i # is) bytes s =
     (if bytes = [] then Inr (True, bytes, s)
      else if bytes_per_sector s \<noteq> 512 then Inl Undefined
      else
        let chunk = take 512 bytes;
            sec = chunk @ replicate (512 - length chunk) 0;
            (ok, s) = fs_write ops (sbase + of_nat i) sec s
        in if ok then put_sectors ops sbase is (drop 512 bytes) s else Inr (False, bytes, s))"

text \<open>\<open>bytes\<close> are those from \<^verbatim>\<open>data[off]\<close> on.\<close>

partial_function (option) write_loop ::
  "'d disk_ops \<Rightarrow> u32 \<Rightarrow> u32 \<Rightarrow> u8 list \<Rightarrow> 'd fs \<Rightarrow> (bool \<times> 'd fs) res option" where
  "write_loop ops c prev_cluster bytes s =
     (if bytes = [] then Some (Inr (True, s))
      else
        try_res
          (if in_chain c then Inr (Some c, s)
           else
             bind_res (alloc_cluster ops s) (\<lambda>(new_c, s).
               if new_c = 0 then Inr (None, s)
               else if prev_cluster \<noteq> 0
               then bind_res (set_fat_entry ops prev_cluster new_c s) (\<lambda>(ok, s).
                      Inr (if ok then Some new_c else None, s))
               else Inr (Some new_c, s)))
          (\<lambda>(target, s).
            case target of
              None \<Rightarrow> Some (Inr (False, s))
            | Some c \<Rightarrow>
                let n = unat (bytes_per_sector s) * unat (sectors_per_cluster s);
                    to_write = take n bytes
                in try_res (put_sectors ops (cluster_to_sector s c) [0..<unat (sectors_per_cluster s)] to_write s)
                     (\<lambda>(ok, left, s).
                       if ok
                       then try_res (next_cluster ops s c) (\<lambda>next.
                              write_loop ops next c (left @ drop n bytes) s)
                       else Some (Inr (False, s)))))"

definition write_file_data :: "'d disk_ops \<Rightarrow> u32 \<Rightarrow> u8 list \<Rightarrow> 'd fs \<Rightarrow> (bool \<times> 'd fs) res option" where
  "write_file_data ops start_cluster data s = write_loop ops start_cluster 0 data s"

text \<open>The messages for the bytes of one sector, at most 59 in each.\<close>

lemma chunk_step:
  fixes off fin :: u32
  assumes "off < fin"
  defines "chunk \<equiv> (if fin - off > 59 then 59 else fin - off)"
  shows "unat (off + chunk) = unat off + unat chunk" "0 < unat chunk" "unat off + unat chunk \<le> unat fin"
proof -
  have d: "unat (fin - off) = unat fin - unat off" "unat off < unat fin"
    using assms(1) by (simp_all add: unat_sub word_less_nat_alt word_le_nat_alt)
  then show "0 < unat chunk" "unat off + unat chunk \<le> unat fin"
    by (auto simp: chunk_def word_less_nat_alt)
  then show "unat (off + chunk) = unat off + unat chunk"
    using unsigned_less[of fin, where 'a = nat] by (simp add: unat_word_ariths)
qed

function send_chunks :: "u8 list \<Rightarrow> u64 \<Rightarrow> u32 \<Rightarrow> u32 \<Rightarrow> 'd fs \<Rightarrow> (u32 \<times> 'd fs) res" where
  "send_chunks sec pid off fin s =
     (if off < fin
      then
        let chunk = (if fin - off > 59 then 59 else fin - off);
            sec_off = off mod ucast (bytes_per_sector s)
        in bind_res (get_bytes (unat sec_off) (unat chunk) sec) (\<lambda>bs.
             send_chunks sec pid (off + chunk) fin (fs_send pid 100 (le_bytes 4 off @ [ucast chunk] @ bs) s))
      else Inr (off, s))"
  by pat_completeness auto
termination
proof (relation "measure (\<lambda>(sec, pid, off, fin, s). unat fin - unat off)", goal_cases)
  case (2 sec pid off fin s chunk sec_off bs)
  then show ?case using chunk_step[of off fin] by simp
qed simp

declare send_chunks.simps [simp del]

primrec send_sectors ::
  "'d disk_ops \<Rightarrow> u64 \<Rightarrow> u32 \<Rightarrow> u32 \<Rightarrow> nat list \<Rightarrow> u32 \<Rightarrow> 'd fs \<Rightarrow> (bool \<times> u32 \<times> 'd fs) res" where
  "send_sectors ops pid sbase sz [] off s = Inr (True, off, s)"
| "send_sectors ops pid sbase sz (i # is) off s =
     (if off < sz
      then
        (case read_sector ops (sbase + of_nat i) (disk s) of
           None \<Rightarrow> Inr (False, off, fs_send pid 255 [] s)
         | Some sec \<Rightarrow>
             let fin = off + ucast (bytes_per_sector s);
                 fin = (if fin > sz then sz else fin)
             in bind_res (send_chunks sec pid off fin s) (\<lambda>(off, s).
                  send_sectors ops pid sbase sz is off s))
      else Inr (True, off, s))"

partial_function (option) send_file ::
  "'d disk_ops \<Rightarrow> u64 \<Rightarrow> u32 \<Rightarrow> u32 \<Rightarrow> u32 \<Rightarrow> 'd fs \<Rightarrow> 'd fs res option" where
  "send_file ops pid sz c off s =
     (if in_chain c \<and> off < sz
      then
        try_res (send_sectors ops pid (cluster_to_sector s c) sz [0..<unat (sectors_per_cluster s)] off s)
          (\<lambda>(ok, off, s).
            if ok then try_res (next_cluster ops s c) (\<lambda>n. send_file ops pid sz n off s)
            else Some (Inr s))
      else Some (Inr (fs_send pid 101 [] s)))"

text \<open>Loading a file into \<^verbatim>\<open>file_buf\<close>, with the offset reached.\<close>

primrec load_sectors ::
  "'d disk_ops \<Rightarrow> u32 \<Rightarrow> u32 \<Rightarrow> nat list \<Rightarrow> u32 \<Rightarrow> 'd fs \<Rightarrow> (bool \<times> u32 \<times> 'd fs) res" where
  "load_sectors ops sbase sz [] off s = Inr (True, off, s)"
| "load_sectors ops sbase sz (i # is) off s =
     (if off < sz
      then
        (case read_sector ops (sbase + of_nat i) (disk s) of
           None \<Rightarrow> Inr (False, off, s)
         | Some sec \<Rightarrow>
             bind_res (put_bytes (unat off) sec (file_buf s)) (\<lambda>buf.
               load_sectors ops sbase sz is (off + ucast (bytes_per_sector s)) (s\<lparr>file_buf := buf\<rparr>)))
      else Inr (True, off, s))"

partial_function (option) load_file ::
  "'d disk_ops \<Rightarrow> u32 \<Rightarrow> u32 \<Rightarrow> u32 \<Rightarrow> 'd fs \<Rightarrow> (bool \<times> 'd fs) res option" where
  "load_file ops sz c off s =
     (if in_chain c \<and> off < sz
      then
        try_res (load_sectors ops (cluster_to_sector s c) sz [0..<unat (sectors_per_cluster s)] off s)
          (\<lambda>(ok, off, s).
            if ok then try_res (next_cluster ops s c) (\<lambda>n. load_file ops sz n off s)
            else Some (Inr (False, s)))
      else Some (Inr (\<not> off < sz, s)))"

section \<open>Requests\<close>

definition handle_read :: "'d disk_ops \<Rightarrow> request \<Rightarrow> 'd fs \<Rightarrow> 'd fs res option" where
  "handle_read ops r s =
     try_res (req_string r) (\<lambda>path.
     and_then (resolve_path ops path s) (\<lambda>found.
       case found of
         None \<Rightarrow> Some (Inr (fs_send (req_sender r) 255 [] s))
       | Some (cluster, sz) \<Rightarrow> send_file ops (req_sender r) sz cluster 0 s))"

text \<open>
  The spawn system call of the kernel the server was written for is a parameter: from the file's
  bytes to its result and the new process's identifier.
\<close>

definition handle_spawn :: "(u8 list \<Rightarrow> int \<times> u64) \<Rightarrow> 'd disk_ops \<Rightarrow> request \<Rightarrow> 'd fs \<Rightarrow> 'd fs res option" where
  "handle_spawn spawn ops r s =
     (let fail = (\<lambda>s. Some (Inr (fs_send (req_sender r) 255 [] s)))
      in try_res (req_string r) (\<lambda>path.
         and_then (resolve_path ops path s) (\<lambda>found.
           case found of
             None \<Rightarrow> fail s
           | Some (cluster, sz) \<Rightarrow>
               if sz > 32768 then fail s
               else
                 and_then (load_file ops sz cluster 0 s) (\<lambda>(ok, s).
                   if \<not> ok then fail s
                   else
                     let (res, pid) = spawn (take (unat sz) (file_buf s))
                     in if res = 0 then Some (Inr (fs_send (req_sender r) 101 (le_bytes 8 pid) s)) else fail s))))"

text \<open>
  Replacing the data of an existing entry: the loop over one sector. \<open>found\<close> is 0, 1 after
  a match, or -1 at an unused entry; the loop goes on after a match. \<open>None\<close>: the sector
  could not be written and the request is over.
\<close>

definition patch_entry :: "nat \<Rightarrow> u32 \<Rightarrow> u32 \<Rightarrow> u8 list \<Rightarrow> u8 list" where
  "patch_entry off data_start data_len sec =
     (let sec = take (off + 0x1C) sec @ le_bytes 4 data_len @ drop (off + 0x20) sec;
          sec = sec[off + 0x14 := ucast (drop_bit 16 data_start AND 0xFF)];
          sec = sec[off + 0x15 := ucast (drop_bit 24 data_start AND 0xFF)];
          sec = sec[off + 0x1A := ucast (data_start AND 0xFF)]
      in sec[off + 0x1B := ucast (drop_bit 8 data_start AND 0xFF)])"

primrec update_sector ::
  "'d disk_ops \<Rightarrow> u8 list \<Rightarrow> u32 \<Rightarrow> u32 \<Rightarrow> u32 \<Rightarrow> u32 \<Rightarrow> nat list \<Rightarrow> u8 list \<Rightarrow> int \<Rightarrow> 'd fs
     \<Rightarrow> (int option \<times> 'd fs) res option" where
  "update_sector ops name old_cluster data_start data_len lba [] sec found s = Some (Inr (Some found, s))"
| "update_sector ops name old_cluster data_start data_len lba (off # offs) sec found s =
     (if sec ! off = 0 then Some (Inr (Some (- 1), s))
      else if skipped sec off \<or> entry_name sec off \<noteq> name
      then update_sector ops name old_cluster data_start data_len lba offs sec found s
      else
        and_then (free_cluster_chain ops old_cluster s) (\<lambda>s.
          let sec = patch_entry off data_start data_len sec;
              (ok, s) = fs_write ops lba sec s
          in if ok then update_sector ops name old_cluster data_start data_len lba offs sec 1 s
             else Some (Inr (None, s))))"

datatype update_end = Found int | Read_Failed | Write_Failed

primrec update_sectors ::
  "'d disk_ops \<Rightarrow> u8 list \<Rightarrow> u32 \<Rightarrow> u32 \<Rightarrow> u32 \<Rightarrow> u32 \<Rightarrow> nat list \<Rightarrow> int \<Rightarrow> 'd fs
     \<Rightarrow> (update_end \<times> 'd fs) res option" where
  "update_sectors ops name old_cluster data_start data_len sec_base [] found s = Some (Inr (Found found, s))"
| "update_sectors ops name old_cluster data_start data_len sec_base (i # is) found s =
     (if found \<noteq> 0 then Some (Inr (Found found, s))
      else
        case read_sector ops (sec_base + of_nat i) (disk s) of
          None \<Rightarrow> Some (Inr (Read_Failed, s))
        | Some sec \<Rightarrow>
            and_then (update_sector ops name old_cluster data_start data_len (sec_base + of_nat i)
                        entry_offsets sec found s) (\<lambda>(res, s).
              case res of
                None \<Rightarrow> Some (Inr (Write_Failed, s))
              | Some found \<Rightarrow> update_sectors ops name old_cluster data_start data_len sec_base is found s))"

partial_function (option) update_entry ::
  "'d disk_ops \<Rightarrow> u8 list \<Rightarrow> u32 \<Rightarrow> u32 \<Rightarrow> u32 \<Rightarrow> u32 \<Rightarrow> int \<Rightarrow> 'd fs \<Rightarrow> (update_end \<times> 'd fs) res option" where
  "update_entry ops name old_cluster data_start data_len c found s =
     (if in_chain c \<and> found = 0
      then
        Option.bind (update_sectors ops name old_cluster data_start data_len (cluster_to_sector s c)
            [0..<unat (sectors_per_cluster s)] found s) (\<lambda>r.
          try_res r (\<lambda>(res, s).
            case res of
              Found found \<Rightarrow>
                try_res (next_cluster ops s c) (\<lambda>n.
                  update_entry ops name old_cluster data_start data_len n found s)
            | _ \<Rightarrow> Some (Inr (res, s))))
      else Some (Inr (Found found, s)))"

text \<open>The four bytes of a start cluster in an entry at \<open>off\<close>.\<close>

definition put_cluster :: "nat \<Rightarrow> u32 \<Rightarrow> u8 list \<Rightarrow> u8 list" where
  "put_cluster off c e =
     e[off + 0x1A := ucast (c AND 0xFF), off + 0x1B := ucast (drop_bit 8 c AND 0xFF),
       off + 0x14 := ucast (drop_bit 16 c AND 0xFF), off + 0x15 := ucast (drop_bit 24 c AND 0xFF)]"

definition put_zeros :: "nat \<Rightarrow> nat \<Rightarrow> u8 list \<Rightarrow> u8 list" where
  "put_zeros i n e = fold (\<lambda>k e. e[i + k := 0]) [0..<n] e"

definition put_name :: "u8 list \<Rightarrow> u8 list \<Rightarrow> u8 list" where
  "put_name name e = fold (\<lambda>i e. e[i := name ! i]) [0..<11] e"

text \<open>
  The entry of a new file. The second of the three loops that clear the times covers bytes 0x12
  to 0x15, and with them the upper half of the start cluster stored before.
\<close>

definition file_entry :: "u8 list \<Rightarrow> u32 \<Rightarrow> u32 \<Rightarrow> u8 list" where
  "file_entry name data_start data_len =
     (let e = put_name name (put_zeros 0 32 (replicate 32 0));
          e = e[0xB := 0x20];
          e = e[0x1C := ucast (data_len AND 0xFF), 0x1D := ucast (drop_bit 8 data_len AND 0xFF),
                0x1E := ucast (drop_bit 16 data_len AND 0xFF), 0x1F := ucast (drop_bit 24 data_len AND 0xFF)];
          e = put_cluster 0 data_start e;
          e = put_zeros 0x10 4 e;
          e = put_zeros 0x12 4 e
      in put_zeros 0x16 4 e)"

definition dir_entry :: "u8 list \<Rightarrow> u32 \<Rightarrow> u8 list" where
  "dir_entry name new_cluster =
     (let e = put_name name (put_zeros 0 32 (replicate 32 0));
          e = e[0xB := 0x10]
      in put_cluster 0 new_cluster e)"

text \<open>The first sector of a new directory.\<close>

definition dir_sector :: "u32 \<Rightarrow> u32 \<Rightarrow> u8 list" where
  "dir_sector new_cluster parent_cluster =
     (let sec = put_zeros 0 512 (replicate 512 0);
          sec = sec[0 := 0x2E, 1 := 0x20];
          sec = put_cluster 0 new_cluster sec;
          sec = sec[0xB := 0x10];
          sec = sec[32 := 0x2E, 33 := 0x2E, 34 := 0x20];
          sec = put_cluster 32 parent_cluster sec
      in sec[32 + 0xB := 0x10])"

text \<open>
  The common end of the two requests that add an entry: the failure reply after giving the
  clusters back, and storing the entry in the sector computed from its offset.
\<close>

definition give_up :: "'d disk_ops \<Rightarrow> u64 \<Rightarrow> u32 \<Rightarrow> 'd fs \<Rightarrow> 'd fs res option" where
  "give_up ops pid chain s =
     and_then (free_cluster_chain ops chain s) (\<lambda>s. Some (Inr (fs_send pid 255 [] s)))"

definition insert_entry ::
  "'d disk_ops \<Rightarrow> u64 \<Rightarrow> u32 \<Rightarrow> u32 \<Rightarrow> u8 list \<Rightarrow> 'd fs \<Rightarrow> 'd fs res option" where
  "insert_entry ops pid parent_cluster chain e s =
     and_then (free_dir_entry ops parent_cluster s) (\<lambda>(pos, s).
       case pos of
         None \<Rightarrow> give_up ops pid chain s
       | Some entry_off \<Rightarrow>
           let entry_sec = cluster_to_sector s parent_cluster + of_nat (entry_off div 512);
               off = entry_off mod 512
           in case read_sector ops entry_sec (disk s) of
                None \<Rightarrow> give_up ops pid chain s
              | Some sec \<Rightarrow>
                  try_res (put_bytes off e sec) (\<lambda>sec.
                    let (ok, s) = fs_write ops entry_sec sec s
                    in if ok then Some (Inr (fs_send pid 200 [] s)) else give_up ops pid chain s))"

definition write_entry ::
  "'d disk_ops \<Rightarrow> u64 \<Rightarrow> u8 list \<Rightarrow> (u32 \<times> u32) option \<Rightarrow> u32 \<Rightarrow> u32 \<Rightarrow> u32 \<Rightarrow> 'd fs \<Rightarrow> 'd fs res option" where
  "write_entry ops pid name exists parent_cluster data_start data_len s =
     (case exists of
        Some (old_cluster, _) \<Rightarrow>
          and_then (update_entry ops name old_cluster data_start data_len parent_cluster 0 s) (\<lambda>(res, s).
            case res of
              Read_Failed \<Rightarrow> give_up ops pid data_start s
            | Write_Failed \<Rightarrow> Some (Inr (fs_send pid 255 [] s))
            | Found found \<Rightarrow>
                if found = 1 then Some (Inr (fs_send pid 200 [] s)) else give_up ops pid data_start s)
      | None \<Rightarrow> insert_entry ops pid parent_cluster data_start (file_entry name data_start data_len) s)"

text \<open>The data first, then the entry; \<open>data_len\<close> is the C \<^verbatim>\<open>int\<close>, not negative here.\<close>

definition write_data ::
  "'d disk_ops \<Rightarrow> request \<Rightarrow> u8 list \<Rightarrow> (u32 \<times> u32) option \<Rightarrow> u32 \<Rightarrow> nat \<Rightarrow> int \<Rightarrow> 'd fs \<Rightarrow> 'd fs res option" where
  "write_data ops r name exists parent_cluster path_len data_len s =
     try_res (if data_len > 0 then alloc_cluster ops s else Inr (0, s)) (\<lambda>(data_start, s).
       if data_len > 0 \<and> data_start = 0 then Some (Inr (fs_send (req_sender r) 255 [] s))
       else
         try_res (if data_len > 0 then get_bytes path_len (nat data_len) (req_data r) else Inr []) (\<lambda>data.
         and_then (write_file_data ops data_start data s) (\<lambda>(ok, s).
           if ok
           then write_entry ops (req_sender r) name exists parent_cluster data_start (of_int data_len) s
           else give_up ops (req_sender r) data_start s)))"

definition handle_write :: "'d disk_ops \<Rightarrow> request \<Rightarrow> 'd fs \<Rightarrow> 'd fs res option" where
  "handle_write ops r s =
     (let fail = (\<lambda>s. Some (Inr (fs_send (req_sender r) 255 [] s)))
      in try_res (req_string r) (\<lambda>path.
           let path_len = length path + 1;
               data_len = u64_to_int (req_length r) - int path_len
           in if data_len < 0 then fail s
              else
                and_then (resolve_parent ops path s) (\<lambda>parent.
                  case parent of
                    None \<Rightarrow> fail s
                  | Some (parent_cluster, filename) \<Rightarrow>
                      let name = to_8_3 filename
                      in and_then (find_in_dir ops parent_cluster name True s) (\<lambda>exists.
                           write_data ops r name exists parent_cluster path_len data_len s))))"

definition handle_delete :: "'d disk_ops \<Rightarrow> request \<Rightarrow> 'd fs \<Rightarrow> 'd fs res option" where
  "handle_delete ops r s =
     try_res (req_string r) (\<lambda>path.
     and_then (resolve_parent ops path s) (\<lambda>parent.
       case parent of
         None \<Rightarrow> Some (Inr (fs_send (req_sender r) 255 [] s))
       | Some (parent_cluster, filename) \<Rightarrow>
           and_then (delete_entry ops parent_cluster (to_8_3 filename) s) (\<lambda>(ok, s).
             Some (Inr (fs_send (req_sender r) (if ok then 200 else 255) [] s)))))"

definition handle_mkdir :: "'d disk_ops \<Rightarrow> request \<Rightarrow> 'd fs \<Rightarrow> 'd fs res option" where
  "handle_mkdir ops r s =
     (let pid = req_sender r; fail = (\<lambda>s. Some (Inr (fs_send pid 255 [] s)))
      in try_res (req_string r) (\<lambda>path.
         and_then (resolve_parent ops path s) (\<lambda>parent.
           case parent of
             None \<Rightarrow> fail s
           | Some (parent_cluster, dirname) \<Rightarrow>
               try_res (alloc_cluster ops s) (\<lambda>(new_cluster, s).
                 if new_cluster = 0 then fail s
                 else
                   let (ok, s) = fs_write ops (cluster_to_sector s new_cluster) (dir_sector new_cluster parent_cluster) s
                   in if ok
                      then insert_entry ops pid parent_cluster new_cluster (dir_entry (to_8_3 dirname) new_cluster) s
                      else give_up ops pid new_cluster s))))"

text \<open>One round of the server's loop.\<close>

definition handle_request ::
  "(u8 list \<Rightarrow> int \<times> u64) \<Rightarrow> 'd disk_ops \<Rightarrow> request \<Rightarrow> 'd fs \<Rightarrow> 'd fs res option" where
  "handle_request spawn ops r s =
     (if req_type r = 0 then handle_read ops r s
      else if req_type r = 1 then handle_spawn spawn ops r s
      else if req_type r = 2 then handle_write ops r s
      else if req_type r = 3 \<or> req_type r = 5 then handle_delete ops r s
      else if req_type r = 4 then handle_mkdir ops r s
      else Some (Inr (fs_send (req_sender r) 255 [] s)))"

text \<open>
  The server: the messages that arrive, one after the other, in the same structure; when the boot sector cannot be
  read it does nothing for ever.
\<close>

primrec fat32_loop ::
  "(u8 list \<Rightarrow> int \<times> u64) \<Rightarrow> 'd disk_ops \<Rightarrow> sent_msg list \<Rightarrow> request \<Rightarrow> 'd fs \<Rightarrow> 'd fs res option" where
  "fat32_loop spawn ops [] req s = Some (Inr s)"
| "fat32_loop spawn ops (m # ms) req s =
     and_then (handle_request spawn ops (recv_into m req) s) (fat32_loop spawn ops ms (recv_into m req))"

definition fat32_start ::
  "(u8 list \<Rightarrow> int \<times> u64) \<Rightarrow> 'd disk_ops \<Rightarrow> sent_msg list \<Rightarrow> request \<Rightarrow> 'd fs \<Rightarrow> 'd fs res option" where
  "fat32_start spawn ops ms req s =
     try_res (init_fs ops s) (\<lambda>(ok, s). if ok then fat32_loop spawn ops ms req s else Some (Inl Diverges))"

end
