(* ===== verification/Fat32_Table.thy ===== *)
theory Fat32_Table
  imports Fat32
begin

text \<open>
  The allocation table of the FAT32 server on a working disk: reading and writing entries,
  taking a free cluster and giving a chain back, as operations on the table seen as a function
  from cluster numbers to entries; and the name conversion.
\<close>

section \<open>Byte arrays\<close>

lemma put_bytes_Inr:
  assumes "put_bytes i bs xs = Inr ys"
  shows "ys = take i xs @ bs @ drop (i + length bs) xs" "i + length bs \<le> length xs" "length ys = length xs"
  using assms by (auto simp: put_bytes_def split: if_splits)

lemma get_put_same: "put_bytes i bs xs = Inr ys \<Longrightarrow> get_bytes i (length bs) ys = Inr bs"
  using put_bytes_Inr[of i bs xs ys] by (simp add: get_bytes_def)

lemma get_put_other:
  assumes "put_bytes i bs xs = Inr ys" "j + n \<le> i \<or> i + length bs \<le> j"
  shows "get_bytes j n ys = get_bytes j n xs"
proof -
  note p = put_bytes_Inr[OF assms(1)]
  have "take n (drop j ys) = take n (drop j xs)" if "j + n \<le> length xs"
  proof (rule nth_equalityI)
    show "length (take n (drop j ys)) = length (take n (drop j xs))" using p(3) by simp
    fix k
    assume "k < length (take n (drop j ys))"
    then have k: "k < n" "j + k < length xs" using p(3) by auto
    then have "ys ! (j + k) = xs ! (j + k)"
      using assms(2) p(2) unfolding p(1) by (auto simp: nth_append)
    then show "take n (drop j ys) ! k = take n (drop j xs) ! k" using k p(3) by simp
  qed
  then show ?thesis using p(3) by (simp add: get_bytes_def)
qed

lemma take_bit_u32: "take_bit 32 (v :: u32) = v"
  using take_bit_length_eq[of v] by simp

lemma get32_put32_same: "put32 i v xs = Inr ys \<Longrightarrow> get32 i ys = Inr v"
  using get_put_same[of i "le_bytes 4 v"] by (simp add: put32_def get32_def le_word_bytes take_bit_u32)

lemma get32_put32_other:
  "put32 i v xs = Inr ys \<Longrightarrow> j + 4 \<le> i \<or> i + 4 \<le> j \<Longrightarrow> get32 j ys = get32 j xs"
  using get_put_other[of i "le_bytes 4 v" xs ys j 4] by (simp add: put32_def get32_def)

lemma get32_in_range: "i + 4 \<le> length xs \<Longrightarrow> \<exists>v. get32 i xs = Inr v"
  by (simp add: get32_def get_bytes_def)

lemma put32_in_range: "i + 4 \<le> length xs \<Longrightarrow> \<exists>ys. put32 i v xs = Inr ys \<and> length ys = length xs"
  by (simp add: put32_def put_bytes_def)

section \<open>A working disk\<close>

text \<open>
  What the server relies on from the disk below sector \<open>n\<close>: a read gives the 512 bytes of the last write, and a write
  succeeds and changes no other sector.
\<close>

definition block_device :: "'d disk_ops \<Rightarrow> ('d \<Rightarrow> bool) \<Rightarrow> nat \<Rightarrow> bool" where
  "block_device ops ok n \<longleftrightarrow>
     (\<forall>d lba. ok d \<and> unat lba < n \<longrightarrow> (\<exists>sec. read_sector ops lba d = Some sec \<and> length sec = 512))
     \<and> (\<forall>d lba sec. ok d \<and> unat lba < n \<and> length sec = 512 \<longrightarrow>
          (\<exists>d'. write_sector ops lba sec d = (True, d') \<and> ok d' \<and> read_sector ops lba d' = Some sec
            \<and> (\<forall>l. l \<noteq> lba \<longrightarrow> read_sector ops l d' = read_sector ops l d)))"

text \<open>The number of table entries, and the table.\<close>

definition fat_entries :: "'d fs \<Rightarrow> nat" where
  "fat_entries s = 128 * unat (sectors_per_fat s)"

definition fat :: "'d disk_ops \<Rightarrow> 'd fs \<Rightarrow> u32 \<Rightarrow> u32" where
  "fat ops s c = (case next_cluster ops s c of Inr v \<Rightarrow> v | Inl _ \<Rightarrow> 0)"

text \<open>
  A file system on \<open>n\<close> sectors: sectors of 512 bytes, the table before the data, cluster
  numbers below the end marker, and every cluster inside the disk.
\<close>

definition fs_ok :: "'d disk_ops \<Rightarrow> ('d \<Rightarrow> bool) \<Rightarrow> nat \<Rightarrow> 'd fs \<Rightarrow> bool" where
  "fs_ok ops ok n s \<longleftrightarrow>
     block_device ops ok n \<and> n < 2 ^ 32 \<and> ok (disk s) \<and> bytes_per_sector s = 512 \<and> sectors_per_cluster s \<noteq> 0
     \<and> fat_entries s \<le> 0x0FFFFFF8
     \<and> unat (reserved_sectors s) + unat (sectors_per_fat s) \<le> unat (first_data_sector s)
     \<and> unat (first_data_sector s) + (fat_entries s - 2) * unat (sectors_per_cluster s) \<le> n"

definition same_geometry :: "'d fs \<Rightarrow> 'd fs \<Rightarrow> bool" where
  "same_geometry s t \<longleftrightarrow> (\<exists>d. t = s\<lparr>disk := d\<rparr>)"

lemma same_geometry_refl [simp]: "same_geometry s s"
  unfolding same_geometry_def by (rule exI[of _ "disk s"]) simp

interpretation geometry: step_contract same_geometry
  by unfold_locales (simp, auto simp: same_geometry_def)

lemma same_geometry_fields:
  assumes "same_geometry s t"
  shows "bytes_per_sector t = bytes_per_sector s" "sectors_per_cluster t = sectors_per_cluster s"
    "reserved_sectors t = reserved_sectors s" "sectors_per_fat t = sectors_per_fat s"
    "root_cluster t = root_cluster s" "first_data_sector t = first_data_sector s" "outbox t = outbox s"
    "fat_entries t = fat_entries s" "cluster_to_sector t = cluster_to_sector s" "fat_position t = fat_position s"
  using assms by (auto simp: same_geometry_def fat_entries_def cluster_to_sector_def fat_position_def fun_eq_iff)

lemma fs_ok_same_geometry: "same_geometry s t \<Longrightarrow> fs_ok ops ok n s \<Longrightarrow> ok (disk t) \<Longrightarrow> fs_ok ops ok n t"
  by (simp add: fs_ok_def same_geometry_fields)

lemma fs_write_works:
  assumes "fs_ok ops ok n s" "unat lba < n" "length sec = 512"
  shows "\<exists>t. fs_write ops lba sec s = (True, t) \<and> fs_ok ops ok n t \<and> same_geometry s t
    \<and> read_sector ops lba (disk t) = Some sec
    \<and> (\<forall>l. l \<noteq> lba \<longrightarrow> read_sector ops l (disk t) = read_sector ops l (disk s))"
proof -
  have "block_device ops ok n" "ok (disk s)" using assms(1) by (simp_all add: fs_ok_def)
  then obtain d' where d: "write_sector ops lba sec (disk s) = (True, d')" "ok d'" "read_sector ops lba d' = Some sec"
    "\<forall>l. l \<noteq> lba \<longrightarrow> read_sector ops l d' = read_sector ops l (disk s)"
    using assms(2,3) unfolding block_device_def by blast
  have "same_geometry s (s\<lparr>disk := d'\<rparr>)" by (auto simp: same_geometry_def)
  then show ?thesis using d fs_ok_same_geometry[OF _ assms(1)] by (auto simp: fs_write_def)
qed

lemma fs_read_works:
  "fs_ok ops ok n s \<Longrightarrow> unat lba < n \<Longrightarrow> \<exists>sec. read_sector ops lba (disk s) = Some sec \<and> length sec = 512"
  unfolding fs_ok_def block_device_def by blast

section \<open>Table entries\<close>

lemma unat_ucast_up:
  fixes v :: "'a::len word"
  assumes "LENGTH('a) \<le> 32"
  shows "unat (ucast v :: u32) = unat v"
proof -
  have "unat v < 2 ^ LENGTH('a)" by (rule unsigned_less)
  also have "\<dots> \<le> 2 ^ 32" using assms by (intro power_increasing) simp_all
  finally have "unat v < 2 ^ 32" .
  then show ?thesis by (simp add: unsigned_ucast_eq take_bit_nat_eq_self_iff)
qed

text \<open>Entry \<open>c\<close> is word \<open>c mod 128\<close> of table sector \<open>c div 128\<close>.\<close>

lemma fat_position_ok:
  assumes "fs_ok ops ok n s" "unat c < fat_entries s"
  shows "\<exists>fat_sec. fat_position s c = Inr (fat_sec, 4 * (unat c mod 128))
    \<and> unat fat_sec = unat (reserved_sectors s) + unat c div 128
    \<and> unat fat_sec < unat (first_data_sector s)"
proof -
  have g: "bytes_per_sector s = 512" "unat c < 0x0FFFFFF8"
    "unat (reserved_sectors s) + unat (sectors_per_fat s) \<le> unat (first_data_sector s)"
    using assms by (simp_all add: fs_ok_def)
  have off: "unat (c * 4) = 4 * unat c" using g(2) by (simp add: unat_word_ariths)
  have div: "unat c div 128 < unat (sectors_per_fat s)" using assms(2) by (simp add: fat_entries_def less_mult_imp_div_less mult.commute)
  have rs: "unat (ucast (reserved_sectors s) :: u32) = unat (reserved_sectors s)"
    by (rule unat_ucast_up) simp
  have d: "unat (c * 4 div 512) = unat c div 128" "unat (c * 4 mod 512) = 4 * (unat c mod 128)"
    by (simp_all add: unat_div unat_mod off div_mult2_eq[symmetric] mult_mod_right)
  have "unat (ucast (reserved_sectors s) + c * 4 div 512) = unat (reserved_sectors s) + unat c div 128"
    using div g(3) d(1) rs unsigned_less[of "first_data_sector s", where 'a = nat] by (simp add: unat_word_ariths)
  then show ?thesis using g(1,3) div d(2) by (simp add: fat_position_def Let_def)
qed

lemma next_cluster_ok:
  assumes "fs_ok ops ok n s" "unat c < fat_entries s"
  shows "next_cluster ops s c = Inr (fat ops s c)"
proof -
  obtain fs where f: "fat_position s c = Inr (fs, 4 * (unat c mod 128))" "unat fs < unat (first_data_sector s)"
    using fat_position_ok[OF assms] by blast
  have "unat (first_data_sector s) \<le> n" using assms(1) by (simp add: fs_ok_def)
  then obtain sec where sec: "read_sector ops fs (disk s) = Some sec" "length sec = 512"
    using fs_read_works[OF assms(1), of fs] f(2) by auto
  have "4 * (unat c mod 128) + 4 \<le> 512" using mod_less_divisor[of 128 "unat c"] by simp
  then obtain v where "get32 (4 * (unat c mod 128)) sec = Inr v"
    using get32_in_range[of "4 * (unat c mod 128)" sec] sec(2) by auto
  then have "next_cluster ops s c = Inr (v AND 0x0FFFFFFF)"
    using f(1) sec(1) by (simp add: next_cluster_def)
  then show ?thesis by (simp add: fat_def)
qed

lemma entry_mask:
  fixes old v :: u32
  shows "((old AND 0xF0000000) OR (v AND 0x0FFFFFFF)) AND 0x0FFFFFFF = v AND 0x0FFFFFFF"
proof -
  have "(old AND 0xF0000000) AND 0x0FFFFFFF = 0" by (simp add: and.assoc)
  moreover have "(v AND 0x0FFFFFFF) AND 0x0FFFFFFF = v AND 0x0FFFFFFF" by (simp add: and.assoc)
  ultimately show ?thesis by (simp add: bit.conj_disj_distrib2)
qed

text \<open>Writing one entry: the table changes there and nowhere else, and no other sector changes.\<close>

lemma set_fat_entry_ok:
  assumes "fs_ok ops ok n s" "unat c < fat_entries s"
  shows "\<exists>t. set_fat_entry ops c v s = Inr (True, t) \<and> fs_ok ops ok n t \<and> same_geometry s t
    \<and> (\<forall>c'. unat c' < fat_entries s \<longrightarrow> fat ops t c' = (if c' = c then v AND 0x0FFFFFFF else fat ops s c'))
    \<and> (\<forall>l. unat (first_data_sector s) \<le> unat l \<longrightarrow> read_sector ops l (disk t) = read_sector ops l (disk s))"
proof -
  let ?i = "\<lambda>c. 4 * (unat c mod 128)"
  obtain fs where f: "fat_position s c = Inr (fs, ?i c)" "unat fs = unat (reserved_sectors s) + unat c div 128"
    "unat fs < unat (first_data_sector s)"
    using fat_position_ok[OF assms] by blast
  have "unat (first_data_sector s) \<le> n" using assms(1) by (simp add: fs_ok_def)
  then have n: "unat fs < n" using f(3) by simp
  obtain sec where sec: "read_sector ops fs (disk s) = Some sec" "length sec = 512"
    using fs_read_works[OF assms(1) n] by auto
  have r: "?i c + 4 \<le> length sec" using mod_less_divisor[of 128 "unat c"] sec(2) by simp
  obtain old where old: "get32 (?i c) sec = Inr old" using get32_in_range[OF r] by blast
  let ?v = "(old AND 0xF0000000) OR (v AND 0x0FFFFFFF)"
  obtain sec' where sec': "put32 (?i c) ?v sec = Inr sec'" "length sec' = 512"
    using put32_in_range[OF r] sec(2) by metis
  obtain t where t: "fs_write ops fs sec' s = (True, t)" "fs_ok ops ok n t" "same_geometry s t"
    "read_sector ops fs (disk t) = Some sec'"
    "\<forall>l. l \<noteq> fs \<longrightarrow> read_sector ops l (disk t) = read_sector ops l (disk s)"
    using fs_write_works[OF assms(1) n sec'(2)] by blast
  have "set_fat_entry ops c v s = Inr (True, t)"
    using f(1) sec(1) old sec'(1) t(1) by (simp add: set_fat_entry_def)
  moreover have "fat ops t c' = (if c' = c then v AND 0x0FFFFFFF else fat ops s c')"
    if c': "unat c' < fat_entries s" for c'
  proof -
    obtain fs' where f': "fat_position s c' = Inr (fs', ?i c')" "unat fs' = unat (reserved_sectors s) + unat c' div 128"
      using fat_position_ok[OF assms(1) c'] by blast
    note ft = same_geometry_fields(10)[OF t(3)]
    consider "c' = c" | "c' \<noteq> c" "fs' = fs" | "fs' \<noteq> fs" by blast
    then show ?thesis
    proof cases
      case 1
      then show ?thesis
        using f(1) t(4) get32_put32_same[OF sec'(1)] entry_mask[of old v] by (simp add: fat_def next_cluster_def ft)
    next
      case 2
      then have "unat c' div 128 = unat c div 128" "unat c' \<noteq> unat c" using f(2) f'(2) by (simp_all add: word_unat_eq_iff)
      then have "unat c' mod 128 \<noteq> unat c mod 128" by (metis div_mult_mod_eq)
      then have "?i c' + 4 \<le> ?i c \<or> ?i c + 4 \<le> ?i c'" by linarith
      then show ?thesis
        using 2 f'(1) t(4) sec(1) get32_put32_other[OF sec'(1)] by (simp add: fat_def next_cluster_def ft)
    next
      case 3
      then have "c' \<noteq> c" using f(1) f'(1) by auto
      then show ?thesis using 3 f'(1) t(5) by (simp add: fat_def next_cluster_def ft)
    qed
  qed
  moreover have "read_sector ops l (disk t) = read_sector ops l (disk s)"
    if "unat (first_data_sector s) \<le> unat l" for l
    using t(5) f(3) that by (cases "l = fs") auto
  ultimately show ?thesis using t(2,3) by blast
qed

section \<open>The table as a list\<close>

definition table :: "'d disk_ops \<Rightarrow> 'd fs \<Rightarrow> u32 list" where
  "table ops s = map (\<lambda>k. fat ops s (of_nat k)) [0..<fat_entries s]"

lemma length_table [simp]: "length (table ops s) = fat_entries s"
  by (simp add: table_def)

lemma table_nth:
  "unat c < fat_entries s \<Longrightarrow> table ops s ! unat c = fat ops s c"
  by (simp add: table_def)

text \<open>What one run of an operation on the table keeps.\<close>

definition table_step :: "'d disk_ops \<Rightarrow> ('d \<Rightarrow> bool) \<Rightarrow> nat \<Rightarrow> 'd fs \<Rightarrow> 'd fs \<Rightarrow> bool" where
  "table_step ops ok n s t \<longleftrightarrow>
     fs_ok ops ok n t \<and> same_geometry s t
     \<and> (\<forall>l. unat (first_data_sector s) \<le> unat l \<longrightarrow> read_sector ops l (disk t) = read_sector ops l (disk s))"

lemma table_step_refl: "fs_ok ops ok n s \<Longrightarrow> table_step ops ok n s s"
  by (simp add: table_step_def)

lemma table_step_trans: "table_step ops ok n s t \<Longrightarrow> table_step ops ok n t u \<Longrightarrow> table_step ops ok n s u"
  unfolding table_step_def using geometry.then_rel[of s t u] same_geometry_fields(6)[of s t] by auto

lemma table_step_ok: "table_step ops ok n s t \<Longrightarrow> fs_ok ops ok n t"
  by (simp add: table_step_def)

lemma set_table:
  assumes "fs_ok ops ok n s" "unat c < fat_entries s"
  shows "\<exists>t. set_fat_entry ops c v s = Inr (True, t) \<and> table_step ops ok n s t
    \<and> table ops t = (table ops s)[unat c := v AND 0x0FFFFFFF]"
proof -
  obtain t where t: "set_fat_entry ops c v s = Inr (True, t)" "table_step ops ok n s t"
    "\<forall>c'. unat c' < fat_entries s \<longrightarrow> fat ops t c' = (if c' = c then v AND 0x0FFFFFFF else fat ops s c')"
    using set_fat_entry_ok[OF assms, of v] by (auto simp: table_step_def)
  have le: "fat_entries s \<le> 0x0FFFFFF8" using assms(1) by (simp add: fs_ok_def)
  have len: "fat_entries t = fat_entries s"
    using t(2) same_geometry_fields(8)[of s t] by (simp add: table_step_def)
  have "table ops t = (table ops s)[unat c := v AND 0x0FFFFFFF]"
  proof (rule nth_equalityI)
    fix k
    assume "k < length (table ops t)"
    then have k: "k < fat_entries s" "unat (of_nat k :: u32) = k"
      using len le by (simp_all add: unat_of_nat take_bit_nat_eq_self_iff)
    then have "(of_nat k :: u32) = c \<longleftrightarrow> k = unat c" by (auto simp: word_unat_eq_iff)
    then show "table ops t ! k = (table ops s)[unat c := v AND 0x0FFFFFFF] ! k"
      using t(3) k len by (simp add: table_def nth_list_update)
  qed (simp add: len)
  then show ?thesis using t(1,2) by blast
qed

text \<open>The specification: the first free entry from 2 on gets the end marker.\<close>

definition table_alloc :: "u32 list \<Rightarrow> u32 \<times> u32 list" where
  "table_alloc xs =
     (case List.find (\<lambda>k. xs ! k = 0) [2..<length xs] of
        None \<Rightarrow> (0, xs)
      | Some k \<Rightarrow> (of_nat k, xs[k := EOC]))"

lemma alloc_loop_find:
  assumes "fs_ok ops ok n s" "unat total_entries = fat_entries s"
  shows "\<exists>t. table_step ops ok n s t \<and>
    (case List.find (\<lambda>k. table ops s ! k = 0) [unat c..<fat_entries s] of
       None \<Rightarrow> alloc_loop ops c total_entries s = Inr (0, t) \<and> t = s
     | Some k \<Rightarrow> alloc_loop ops c total_entries s = Inr (of_nat k, t) \<and> table ops t = (table ops s)[k := EOC])"
proof (induction "fat_entries s - unat c" arbitrary: c rule: less_induct)
  case less
  show ?case
  proof (cases "c < total_entries")
    case True
    then have c: "unat c < fat_entries s" using assms(2) by (simp add: word_less_nat_alt)
    have upt: "[unat c..<fat_entries s] = unat c # [unat c + 1..<fat_entries s]" using c upt_conv_Cons by simp
    have run: "alloc_loop ops c total_entries s =
        (if fat ops s c = 0 then bind_res (set_fat_entry ops c EOC s) (\<lambda>(ok, s). Inr (if ok then c else 0, s))
         else alloc_loop ops (c + 1) total_entries s)"
      using True next_cluster_ok[OF assms(1) c] by (subst alloc_loop.simps) simp
    show ?thesis
    proof (cases "fat ops s c = 0")
      case True
      obtain t where "set_fat_entry ops c EOC s = Inr (True, t)" "table_step ops ok n s t"
          "table ops t = (table ops s)[unat c := EOC]"
        using set_table[OF assms(1) c, of EOC] by auto
      then show ?thesis using True run upt table_nth[OF c, of ops] by (intro exI[of _ t]) simp
    next
      case False
      have "unat (c + 1) = unat c + 1"
        using \<open>c < total_entries\<close> unsigned_less[of total_entries, where 'a = nat]
        by (simp add: unat_word_ariths word_less_nat_alt)
      moreover from this have "fat_entries s - unat (c + 1) < fat_entries s - unat c" using c by simp
      note less[OF this]
      ultimately show ?thesis
        using False upt table_nth[OF c, of ops] unfolding run if_not_P[OF False] by simp
    qed
  next
    case False
    then have "[unat c..<fat_entries s] = []" using assms(2) by (simp add: word_less_nat_alt)
    moreover have "alloc_loop ops c total_entries s = Inr (0, s)"
      using False by (subst alloc_loop.simps) simp
    ultimately show ?thesis using table_step_refl[OF assms(1)] by auto
  qed
qed

lemma alloc_cluster_refines:
  assumes "fs_ok ops ok n s"
  shows "\<exists>t. alloc_cluster ops s = Inr (fst (table_alloc (table ops s)), t)
    \<and> table ops t = snd (table_alloc (table ops s)) \<and> table_step ops ok n s t"
proof -
  have g: "bytes_per_sector s = 512" "fat_entries s \<le> 0x0FFFFFF8" using assms by (simp_all add: fs_ok_def)
  have "unat (sectors_per_fat s * 128) = fat_entries s"
    using g(2) by (simp add: unat_word_ariths fat_entries_def)
  then have total: "unat (sectors_per_fat s * ucast (bytes_per_sector s div 4)) = fat_entries s"
    using g(1) by simp
  show ?thesis
    using alloc_loop_find[OF assms total, of 2]
    by (auto simp: alloc_cluster_def table_alloc_def split: option.splits)
qed

section \<open>Chains\<close>

text \<open>The clusters visited from \<open>c\<close> on, up to a number that cannot be followed.\<close>

fun chain :: "u32 list \<Rightarrow> u32 \<Rightarrow> nat list \<Rightarrow> bool" where
  "chain xs c [] \<longleftrightarrow> \<not> in_chain c"
| "chain xs c (k # ks) \<longleftrightarrow> in_chain c \<and> unat c = k \<and> k < length xs \<and> chain xs (xs ! k) ks"

lemma chain_update:
  "k \<notin> set ks \<Longrightarrow> chain (xs[k := v]) c ks \<longleftrightarrow> chain xs c ks"
  by (induction ks arbitrary: c) auto

lemma free_chain_refines:
  assumes "fs_ok ops ok n s" "chain (table ops s) c ks" "distinct ks"
  shows "\<exists>t. free_cluster_chain ops c s = Some (Inr t)
    \<and> table ops t = fold (\<lambda>k xs. xs[k := 0]) ks (table ops s) \<and> table_step ops ok n s t"
  using assms
proof (induction ks arbitrary: c s)
  case Nil
  then show ?case using table_step_refl by (subst free_cluster_chain.simps) auto
next
  case (Cons k ks)
  then have c: "in_chain c" "unat c = k" "unat c < fat_entries s" by simp_all
  obtain u where u: "set_fat_entry ops c 0 s = Inr (True, u)" "table_step ops ok n s u"
    "table ops u = (table ops s)[k := 0]"
    using set_table[OF Cons.prems(1) c(3), of 0] c(2) by auto
  have "chain (table ops u) (fat ops s c) ks"
    using Cons.prems(2,3) u(3) table_nth[OF c(3), of ops] c(2) by (simp add: chain_update)
  then obtain t where t: "free_cluster_chain ops (fat ops s c) u = Some (Inr t)"
    "table ops t = fold (\<lambda>k xs. xs[k := 0]) ks (table ops u)" "table_step ops ok n u t"
    using Cons.IH[of u "fat ops s c"] Cons.prems(3) table_step_ok[OF u(2)] by auto
  have "free_cluster_chain ops c s = Some (Inr t)"
    using c(1) next_cluster_ok[OF Cons.prems(1) c(3)] u(1) t(1) by (subst free_cluster_chain.simps) simp
  then show ?case using t(2) u(3) table_step_trans[OF u(2) t(3)] by auto
qed

section \<open>Properties of the table\<close>

text \<open>A disk of 128 sectors in memory, and a small file system on it.\<close>

definition ram_ops :: "(u32 \<Rightarrow> u8 list) disk_ops" where
  "ram_ops =
     \<lparr>read_sector = (\<lambda>lba d. if unat lba < 128 then Some (d lba) else None),
      write_sector = (\<lambda>lba sec d. if unat lba < 128 then (True, d(lba := sec)) else (False, d))\<rparr>"

definition ram_ok :: "(u32 \<Rightarrow> u8 list) \<Rightarrow> bool" where
  "ram_ok d \<longleftrightarrow> (\<forall>l. length (d l) = 512)"

lemma ram_block_device: "block_device ram_ops ram_ok 128"
  by (auto simp: block_device_def ram_ops_def ram_ok_def)

definition fs_demo :: "(u32 \<Rightarrow> u8 list) fs" where
  "fs_demo = \<lparr>disk = (\<lambda>_. replicate 512 0), bytes_per_sector = 512, sectors_per_cluster = 1, reserved_sectors = 1,
     num_fats = 1, sectors_per_fat = 1, root_cluster = 2, first_data_sector = 2,
     file_buf = replicate 32768 0, outbox = []\<rparr>"

lemma fs_demo_ok: "fs_ok ram_ops ram_ok 128 fs_demo"
  using ram_block_device by (simp add: fs_ok_def fs_demo_def fat_entries_def ram_ok_def)

text \<open>
  C25: on a working disk \<^verbatim>\<open>alloc_cluster\<close> returns the first free cluster from 2 on and puts the end
  marker into its entry, or returns 0 and changes nothing if there is none: its effect on the
  table is that of the specification \<open>table_alloc\<close> on a list, and no data sector changes.
\<close>

theorem alloc_cluster_correct:
  assumes "fs_ok ops ok n s"
  shows "\<exists>t. alloc_cluster ops s = Inr (fst (table_alloc (table ops s)), t)
    \<and> table ops t = snd (table_alloc (table ops s)) \<and> fs_ok ops ok n t
    \<and> (\<forall>l. unat (first_data_sector s) \<le> unat l \<longrightarrow> read_sector ops l (disk t) = read_sector ops l (disk s))"
  using alloc_cluster_refines[OF assms] by (auto simp: table_step_def)

theorem alloc_cluster_correct_witness:
  "\<exists>c t. alloc_cluster ram_ops fs_demo = Inr (c, t) \<and> fs_ok ram_ops ram_ok 128 t
     \<and> table ram_ops t = snd (table_alloc (table ram_ops fs_demo))"
  using alloc_cluster_correct[OF fs_demo_ok] by auto

text \<open>
  C26: on a working disk, freeing a chain that does not run into itself returns, clears the entries of
  exactly its clusters and leaves the other entries and all data sectors alone.
\<close>

theorem free_cluster_chain_correct:
  assumes "fs_ok ops ok n s" "chain (table ops s) c ks" "distinct ks"
  shows "\<exists>t. free_cluster_chain ops c s = Some (Inr t)
    \<and> (\<forall>k < fat_entries s. table ops t ! k = (if k \<in> set ks then 0 else table ops s ! k))
    \<and> (\<forall>l. unat (first_data_sector s) \<le> unat l \<longrightarrow> read_sector ops l (disk t) = read_sector ops l (disk s))"
proof -
  obtain t where t: "free_cluster_chain ops c s = Some (Inr t)" "table_step ops ok n s t"
    "table ops t = fold (\<lambda>k xs. xs[k := 0]) ks (table ops s)"
    using free_chain_refines[OF assms] by blast
  have "fold (\<lambda>k xs. xs[k := 0]) ks xs ! j = (if j \<in> set ks then 0 else xs ! j)" if "j < length xs" for j and xs :: "u32 list"
    using that by (induction ks arbitrary: xs) (auto simp: nth_list_update)
  then show ?thesis using t by (auto simp: table_step_def)
qed

lemma fat_word:
  assumes "fs_ok ops ok n s" "unat c < fat_entries s" "fat_position s c = Inr (l, i)"
    "read_sector ops l (disk s) = Some sec" "get32 i sec = Inr v"
  shows "table ops s ! unat c = v AND 0x0FFFFFFF"
  using assms table_nth[OF assms(2), of ops] by (simp add: fat_def next_cluster_def)

lemma fs_demo_table: "k < 128 \<Longrightarrow> table ram_ops fs_demo ! k = 0"
proof -
  assume k: "k < 128"
  have z: "le_word (replicate 4 0) = (0 :: u32)" by (simp add: eval_nat_numeral)
  have u: "unat (of_nat k :: u32) = k" using k by (simp add: unat_of_nat take_bit_nat_eq_self_iff)
  have e: "unat (of_nat k :: u32) < fat_entries fs_demo" using k u by (simp add: fat_entries_def fs_demo_def)
  obtain l where l: "fat_position fs_demo (of_nat k) = Inr (l, 4 * (k mod 128))" "unat l < 2"
    using fat_position_ok[OF fs_demo_ok e] u by (auto simp: fs_demo_def)
  then have r: "read_sector ram_ops l (disk fs_demo) = Some (replicate 512 0)" by (simp add: ram_ops_def fs_demo_def)
  have "4 * (k mod 128) + 4 \<le> 512" "4 \<le> 512 - 4 * (k mod 128)" using k by simp_all
  then have "get32 (4 * (k mod 128)) (replicate 512 0) = Inr 0"
    using z by (simp add: get32_def get_bytes_def drop_replicate take_replicate min_def)
  then show ?thesis using fat_word[OF fs_demo_ok e l(1) r] u by simp
qed

theorem free_cluster_chain_correct_witness:
  "\<exists>s t. fs_ok ram_ops ram_ok 128 s \<and> table ram_ops s ! 5 = EOC
     \<and> free_cluster_chain ram_ops 5 s = Some (Inr t) \<and> table ram_ops t ! 5 = 0"
proof -
  have e: "unat (5 :: u32) < fat_entries fs_demo" by (simp add: fat_entries_def fs_demo_def)
  obtain s where s: "fs_ok ram_ops ram_ok 128 s" "table ram_ops s = (table ram_ops fs_demo)[5 := EOC]"
    using set_table[OF fs_demo_ok e, of EOC] by (auto simp: table_step_def)
  have len: "length (table ram_ops fs_demo) = 128" by (simp add: fat_entries_def fs_demo_def)
  then have "fat_entries s = 128" using s(2) by (metis length_list_update length_table)
  moreover have "chain (table ram_ops s) 5 [5]"
    using s(2) len by (simp add: in_chain_def is_eoc_def)
  ultimately show ?thesis using free_cluster_chain_correct[OF s(1), of 5 "[5]"] s len by auto
qed

section \<open>Names\<close>

text \<open>The 8.3 form: up to eight characters before the first dot and three after it, padded with blanks.\<close>

definition pad :: "nat \<Rightarrow> u8 list \<Rightarrow> u8 list" where
  "pad n xs = map upper (take n xs) @ replicate (n - length xs) 0x20"

definition name_8_3 :: "u8 list \<Rightarrow> u8 list" where
  "name_8_3 name =
     pad 8 (takeWhile (\<lambda>c. c \<noteq> 0x2E) name) @ pad 3 (tl (dropWhile (\<lambda>c. c \<noteq> 0x2E) name))"

lemma fold_store:
  assumes "k + n \<le> length out"
  shows "fold (\<lambda>i out. out[k + i := f i]) [0..<n] out = take k out @ map f [0..<n] @ drop (k + n) out"
  using assms
proof (induction n)
  case (Suc n)
  then show ?case
    by (simp add: list_update_append upd_conv_take_nth_drop Cons_nth_drop_Suc[symmetric] nth_append)
qed simp

lemma fold_store0:
  "n \<le> length out \<Longrightarrow> fold (\<lambda>i out. out[i := f i]) [0..<n] out = map f [0..<n] @ drop n out"
  using fold_store[of 0 n out f] by simp

lemma find_index_takeWhile:
  "List.find (\<lambda>i. p (xs ! i)) [0..<length xs] =
     (if \<exists>x \<in> set xs. p x then Some (length (takeWhile (\<lambda>x. \<not> p x) xs)) else None)"
proof (cases "\<exists>x \<in> set xs. p x")
  case True
  let ?k = "length (takeWhile (\<lambda>x. \<not> p x) xs)"
  have k: "?k < length xs" using True length_takeWhile_le[of "\<lambda>x. \<not> p x" xs] takeWhile_eq_all_conv[of "\<lambda>x. \<not> p x" xs]
    by (metis le_neq_implies_less takeWhile_eq_take take_all_iff order_refl)
  moreover have "p (xs ! ?k)" using nth_length_takeWhile[OF k] by simp
  moreover have "\<not> p (xs ! j)" if "j < ?k" for j
    using that by (metis nth_mem set_takeWhileD takeWhile_nth)
  ultimately show ?thesis
    using True by (auto simp: find_Some_iff intro!: exI[of _ ?k])
next
  case False
  then show ?thesis by (auto simp: find_None_iff)
qed

lemma map_nth_prefix: "n \<le> length xs \<Longrightarrow> map (\<lambda>i. f (xs ! i)) [0..<n] = map f (take n xs)"
  by (auto intro: nth_equalityI)

lemma to_8_3_spec: "to_8_3 name = name_8_3 name"
proof -
  let ?b = "takeWhile (\<lambda>c. c \<noteq> 0x2E) name"
  have blank: "fold (\<lambda>i out. out[i := 0x20]) [0..<11] (replicate 11 0) = (replicate 11 0x20 :: u8 list)"
    using fold_store0[of 11 "replicate 11 0" "\<lambda>_. 0x20"] by (simp add: map_replicate_const)
  have base: "fold (\<lambda>i out. out[i := upper (name ! i)]) [0..<n] (replicate 11 0x20) =
      map upper (take n name) @ replicate (11 - n) 0x20" if "n \<le> 8" "n \<le> length name" for n
    using that fold_store0[of n "replicate 11 0x20" "\<lambda>i. upper (name ! i)"] by (simp add: map_nth_prefix)
  show ?thesis
  proof (cases "0x2E \<in> set name")
    case False
    then have "?b = name" "dropWhile (\<lambda>c. c \<noteq> 0x2E) name = []"
      by (auto simp: takeWhile_eq_all_conv dropWhile_eq_Nil_conv)
    then have spec: "name_8_3 name = pad 8 name @ pad 3 []" unfolding name_8_3_def by (simp only: list.sel)
    have "List.find (\<lambda>i. name ! i = 0x2E) [0..<length name] = None"
      using False find_index_takeWhile[of "\<lambda>c. c = 0x2E" name] by auto
    then show ?thesis
      using base[of "min 8 (length name)"] unfolding spec
      by (simp add: to_8_3_def pad_def blank replicate_add[symmetric] min_def)
  next
    case True
    define d where "d = length ?b"
    have dot: "List.find (\<lambda>i. name ! i = 0x2E) [0..<length name] = Some d"
      using True find_index_takeWhile[of "\<lambda>c. c = 0x2E" name] by (auto simp: d_def)
    have b: "?b = take d name" unfolding d_def by (rule takeWhile_eq_take)
    have "dropWhile (\<lambda>c. c \<noteq> 0x2E) name = drop d name" unfolding d_def by (rule dropWhile_eq_drop)
    then have e: "tl (dropWhile (\<lambda>c. c \<noteq> 0x2E) name) = drop (d + 1) name" by (simp add: drop_Suc tl_drop)
    have dl: "d \<le> length name" by (simp add: d_def length_takeWhile_le)
    let ?m = "min d (min 8 (length name))" and ?x = "drop (d + 1) name"
    let ?k = "min 3 (length name - (d + 1))"
    have m: "fold (\<lambda>i out. out[i := upper (name ! i)]) [0..<?m] (replicate 11 0x20) = pad 8 ?b @ replicate 3 0x20"
      using base[of ?m] dl by (simp add: b pad_def min_def replicate_add[symmetric] ac_simps)
    have "length (pad 8 ?b) = 8" by (simp add: pad_def)
    moreover have "map (\<lambda>i. upper (name ! (d + 1 + i))) [0..<?k] = map upper (take 3 ?x)"
      by (auto intro!: nth_equalityI)
    ultimately have "fold (\<lambda>i out. out[8 + i := upper (name ! (d + 1 + i))]) [0..<?k] (pad 8 ?b @ replicate 3 0x20)
        = pad 8 ?b @ pad 3 ?x"
      by (subst fold_store) (simp_all add: pad_def[of 3] min_def)
    then show ?thesis by (simp add: to_8_3_def name_8_3_def dot blank m e)
  qed
qed


end
