(* ===== verification/Fat32_Files.thy ===== *)
theory Fat32_Files
  imports Fat32_Table
begin

text \<open>
  Files through the FAT32 server: what a client that writes a file and reads it back receives,
  and where the directory code goes wrong.
\<close>

section \<open>Sectors of clusters\<close>

lemma unat_cluster_to_sector:
  assumes "fs_ok ops ok n s" "2 \<le> unat c" "unat c < fat_entries s" "i < unat (sectors_per_cluster s)"
  shows "unat (cluster_to_sector s c + of_nat i) =
      unat (first_data_sector s) + (unat c - 2) * unat (sectors_per_cluster s) + i"
    "unat (cluster_to_sector s c + of_nat i) < n"
proof -
  let ?k = "unat (sectors_per_cluster s)" and ?f = "unat (first_data_sector s)"
  have g: "?f + (fat_entries s - 2) * ?k \<le> n" "n < 2 ^ 32" using assms(1) by (simp_all add: fs_ok_def)
  have "(unat c - 2 + 1) * ?k \<le> (fat_entries s - 2) * ?k" using assms(2,3) by (intro mult_le_mono1) simp
  then have b: "?f + (unat c - 2) * ?k + i < n" using g(1) assms(4) by simp
  have c2: "unat (c - 2) = unat c - 2" using assms(2) by (simp add: unat_sub word_le_nat_alt)
  have sp: "unat (ucast (sectors_per_cluster s) :: u32) = ?k" by (rule unat_ucast_up) simp
  have m: "unat ((c - 2) * ucast (sectors_per_cluster s)) = (unat c - 2) * ?k"
    using b g(2) by (simp add: unat_word_ariths c2 sp)
  have i: "unat (of_nat i :: u32) = i" using b g(2) by (simp add: unat_of_nat take_bit_nat_eq_self_iff)
  show eq: "unat (cluster_to_sector s c + of_nat i) = ?f + (unat c - 2) * ?k + i"
    using b g(2) unfolding cluster_to_sector_def by (simp add: unat_word_ariths(1) m i)
  show "unat (cluster_to_sector s c + of_nat i) < n" using b eq by simp
qed

lemma cluster_sectors_distinct:
  assumes "fs_ok ops ok n s" "2 \<le> unat c" "unat c < fat_entries s" "2 \<le> unat c'" "unat c' < fat_entries s" "c \<noteq> c'"
  shows "cluster_to_sector s c \<noteq> cluster_to_sector s c'"
proof -
  have k: "0 < unat (sectors_per_cluster s)" using assms(1) by (simp add: fs_ok_def unat_gt_0)
  have "unat c - 2 \<noteq> unat c' - 2" using assms by (simp add: word_unat_eq_iff)
  then show ?thesis
    using unat_cluster_to_sector(1)[OF assms(1-3) k] unat_cluster_to_sector(1)[OF assms(1,4,5) k] k
    by auto
qed

section \<open>Directory scans\<close>

lemma scan_entries_first:
  assumes "sorted offs" "p \<in> set offs" "f p = Return r" "\<And>q. q \<in> set offs \<Longrightarrow> q < p \<Longrightarrow> f q = Go_On"
  shows "scan_entries f offs = Return r"
  using assms
proof (induction offs)
  case (Cons q offs)
  show ?case
  proof (cases "q = p")
    case False
    then have "p \<in> set offs" "q < p" using Cons.prems(1,2) by auto
    then show ?thesis using Cons by simp
  qed (use Cons.prems(3) in simp)
qed simp

lemma sorted_entry_offsets: "sorted entry_offsets"
  by (auto simp: entry_offsets_def sorted_iff_nth_mono)

lemma entry_offsets_range: "p \<in> set entry_offsets \<Longrightarrow> p + 32 \<le> 512"
  by (auto simp: entry_offsets_def)

lemma entry_offsets_apart: "p \<in> set entry_offsets \<Longrightarrow> q \<in> set entry_offsets \<Longrightarrow> q < p \<Longrightarrow> q + 32 \<le> p"
  by (auto simp: entry_offsets_def)

text \<open>
  The first unused entry of a directory sector is at \<open>p\<close>, marks the end of the directory, and no entry
  before it has the name.
\<close>

definition slot_free :: "u8 list \<Rightarrow> nat \<Rightarrow> u8 list \<Rightarrow> bool" where
  "slot_free name p sec \<longleftrightarrow>
     length sec = 512 \<and> p \<in> set entry_offsets \<and> sec ! p = 0
     \<and> (\<forall>q \<in> set entry_offsets. q < p \<longrightarrow>
          sec ! q \<noteq> 0 \<and> sec ! q \<noteq> 0xE5 \<and> (skipped sec q \<or> entry_name sec q \<noteq> name))"

lemma slot_free_scans:
  assumes "slot_free name p sec"
  shows "match_entry name lba sec = Return None" "unused_entry lba sec = Return (lba, sec, p)"
  using assms unfolding match_entry_def unused_entry_def slot_free_def
  by (auto intro!: scan_entries_first[OF sorted_entry_offsets, of p])

text \<open>With an entry stored at \<open>p\<close>.\<close>

definition with_entry :: "nat \<Rightarrow> u8 list \<Rightarrow> u8 list \<Rightarrow> u8 list" where
  "with_entry p e sec = take p sec @ e @ drop (p + 32) sec"

lemma with_entry_same:
  assumes "length e = 32" "length sec = 512" "p + 32 \<le> 512"
  shows "length (with_entry p e sec) = 512" "k < 32 \<Longrightarrow> with_entry p e sec ! (p + k) = e ! k"
    "k + m \<le> 32 \<Longrightarrow> take m (drop (p + k) (with_entry p e sec)) = take m (drop k e)"
  using assms by (auto simp: with_entry_def nth_append min_def)

lemma with_entry_before:
  assumes "length sec = 512" "p \<le> 512" "q < p"
  shows "with_entry p e sec ! q = sec ! q"
  using assms by (simp add: with_entry_def nth_append)

lemma with_entry_name_before:
  assumes "length sec = 512" "p \<le> 512" "q + 32 \<le> p"
  shows "entry_name (with_entry p e sec) q = entry_name sec q" "skipped (with_entry p e sec) q = skipped sec q"
proof -
  have "take 11 (drop q (take p sec @ ys)) = take 11 (drop q sec)" for ys
    using assms by (simp add: drop_take)
  then show "entry_name (with_entry p e sec) q = entry_name sec q" by (simp only: entry_name_def with_entry_def)
  show "skipped (with_entry p e sec) q = skipped sec q"
    using assms with_entry_before[OF assms(1,2)] by (simp add: skipped_def)
qed

lemma with_entry_match:
  assumes "slot_free name p sec" "length e = 32" "take 11 e = name" "e ! 0 \<noteq> 0" "e ! 0 \<noteq> 0xE5"
    and "e ! 0xB \<noteq> 0x0F" "e ! 0xB AND 0x08 = 0"
  shows "match_entry name lba (with_entry p e sec) = Return (Some (lba, with_entry p e sec, p))"
proof -
  let ?w = "with_entry p e sec"
  have s: "length sec = 512" "p \<in> set entry_offsets" "p + 32 \<le> 512"
    using assms(1) entry_offsets_range by (auto simp: slot_free_def)
  note w = with_entry_same[OF assms(2) s(1,3)]
  have "entry_name ?w p = name" using w(3)[of 0 11] assms(3) by (simp add: entry_name_def)
  moreover have "?w ! p = e ! 0" "?w ! (p + 0xB) = e ! 0xB" using w(2)[of 0] w(2)[of "0xB"] by simp_all
  ultimately have hit: "?w ! p \<noteq> 0" "\<not> skipped ?w p" "entry_name ?w p = name"
    using assms(4-7) by (simp_all add: skipped_def)
  have miss: "?w ! q \<noteq> 0 \<and> (skipped ?w q \<or> entry_name ?w q \<noteq> name)"
    if "q \<in> set entry_offsets" "q < p" for q
    using assms(1) that entry_offsets_apart[OF s(2) that] with_entry_before[OF s(1), of p q] s(3)
      with_entry_name_before[OF s(1), of p q] by (simp add: slot_free_def)
  show ?thesis
    unfolding match_entry_def
    by (rule scan_entries_first[OF sorted_entry_offsets s(2)]) (use hit miss in auto)
qed

section \<open>Operations on the first sector of a directory\<close>

text \<open>A cluster in use.\<close>

definition valid_cluster :: "'d fs \<Rightarrow> u32 \<Rightarrow> bool" where
  "valid_cluster s c \<longleftrightarrow> 2 \<le> unat c \<and> unat c < fat_entries s"

lemma valid_in_chain: "fs_ok ops ok n s \<Longrightarrow> valid_cluster s c \<Longrightarrow> in_chain c"
  by (auto simp: valid_cluster_def fs_ok_def in_chain_def is_eoc_def word_le_nat_alt)

lemma sector_upt: "fs_ok ops ok n s \<Longrightarrow> \<exists>is. [0..<unat (sectors_per_cluster s)] = 0 # is"
  by (simp add: fs_ok_def upt_conv_Cons unat_gt_0)

lemma first_sector:
  assumes "fs_ok ops ok n s" "valid_cluster s c"
  shows "unat (cluster_to_sector s c) < n" "unat (first_data_sector s) \<le> unat (cluster_to_sector s c)"
proof -
  have k: "0 < unat (sectors_per_cluster s)" using assms(1) by (simp add: fs_ok_def unat_gt_0)
  show "unat (cluster_to_sector s c) < n" "unat (first_data_sector s) \<le> unat (cluster_to_sector s c)"
    using unat_cluster_to_sector[OF assms(1) _ _ k, of c] assms(2) by (simp_all add: valid_cluster_def)
qed

lemma walk_dir_first:
  assumes "fs_ok ops ok n s" "valid_cluster s c" "read_sector ops (cluster_to_sector s c) (disk s) = Some sec"
    and "f (cluster_to_sector s c) sec = Return r"
  shows "walk_dir ops f c s = Some (Inr (Some r))"
proof -
  obtain "is" where "[0..<unat (sectors_per_cluster s)] = 0 # is" using sector_upt[OF assms(1)] by blast
  then show ?thesis
    using assms(3,4) valid_in_chain[OF assms(1,2)] by (subst walk_dir.simps) simp
qed

lemma find_in_dir_first:
  assumes "fs_ok ops ok n s" "valid_cluster s c" "read_sector ops (cluster_to_sector s c) (disk s) = Some sec"
  shows "match_entry name (cluster_to_sector s c) sec = Return None \<Longrightarrow> find_in_dir ops c name b s = Some (Inr None)"
    and "match_entry name (cluster_to_sector s c) sec = Return (Some (lba, sec', off)) \<Longrightarrow>
      find_in_dir ops c name b s =
        Some (if b then Inr (Some (entry_cluster sec' off, entry_size sec' off)) else Inl (Page_Fault 0))"
  using walk_dir_first[OF assms, of "match_entry name"] by (simp_all add: find_in_dir_def locate_def)

text \<open>Two states whose sectors read the same.\<close>

definition same_reads :: "'d disk_ops \<Rightarrow> 'd fs \<Rightarrow> 'd fs \<Rightarrow> bool" where
  "same_reads ops s t \<longleftrightarrow> (\<forall>l. read_sector ops l (disk t) = read_sector ops l (disk s))"

lemma table_fat_reads:
  assumes "same_geometry s t" "\<forall>l. unat l < unat (first_data_sector s) \<longrightarrow> read_sector ops l (disk t) = read_sector ops l (disk s)"
    and "fs_ok ops ok n s" "valid_cluster s c"
  shows "fat ops t c = fat ops s c"
proof -
  obtain l where l: "fat_position s c = Inr (l, 4 * (unat c mod 128))" "unat l < unat (first_data_sector s)"
    using fat_position_ok[OF assms(3)] assms(4) by (auto simp: valid_cluster_def)
  then show ?thesis
    using assms(2) same_geometry_fields(10)[OF assms(1)] by (simp add: fat_def next_cluster_def)
qed

lemma free_dir_entry_first:
  assumes "fs_ok ops ok n s" "valid_cluster s c" "read_sector ops (cluster_to_sector s c) (disk s) = Some sec"
    and "slot_free name p sec"
  shows "\<exists>t. free_dir_entry ops c s = Some (Inr (Some p, t)) \<and> fs_ok ops ok n t \<and> same_geometry s t \<and> same_reads ops s t"
proof -
  have "length sec = 512" using assms(4) by (simp add: slot_free_def)
  then obtain t where t: "fs_write ops (cluster_to_sector s c) sec s = (True, t)" "fs_ok ops ok n t" "same_geometry s t"
    "read_sector ops (cluster_to_sector s c) (disk t) = Some sec"
    "\<forall>l. l \<noteq> cluster_to_sector s c \<longrightarrow> read_sector ops l (disk t) = read_sector ops l (disk s)"
    using fs_write_works[OF assms(1) first_sector(1)[OF assms(1,2)]] by blast
  moreover have "same_reads ops s t" using t(4,5) assms(3) unfolding same_reads_def by metis
  ultimately show ?thesis
    using walk_dir_first[OF assms(1-3), of unused_entry] slot_free_scans(2)[OF assms(4)]
    by (simp add: free_dir_entry_def)
qed

lemma insert_entry_first:
  assumes "fs_ok ops ok n s" "valid_cluster s c" "read_sector ops (cluster_to_sector s c) (disk s) = Some sec"
    and "slot_free name p sec" "length e = 32"
  shows "\<exists>t. insert_entry ops pid c ch e s = Some (Inr (fs_send pid 200 [] t)) \<and> fs_ok ops ok n t \<and> same_geometry s t
    \<and> read_sector ops (cluster_to_sector s c) (disk t) = Some (with_entry p e sec)
    \<and> (\<forall>l. l \<noteq> cluster_to_sector s c \<longrightarrow> read_sector ops l (disk t) = read_sector ops l (disk s))"
proof -
  let ?l = "cluster_to_sector s c"
  have p: "p + 32 \<le> 512" "length sec = 512" using assms(4) entry_offsets_range by (auto simp: slot_free_def)
  obtain u where u: "free_dir_entry ops c s = Some (Inr (Some p, u))" "fs_ok ops ok n u" "same_geometry s u" "same_reads ops s u"
    using free_dir_entry_first[OF assms(1-4)] by blast
  have lu: "cluster_to_sector u = cluster_to_sector s" using same_geometry_fields(9)[OF u(3)] .
  have ru: "read_sector ops ?l (disk u) = Some sec" using u(4) assms(3) by (simp add: same_reads_def)
  obtain t where t: "fs_write ops ?l (with_entry p e sec) u = (True, t)" "fs_ok ops ok n t" "same_geometry u t"
    "read_sector ops ?l (disk t) = Some (with_entry p e sec)"
    "\<forall>l. l \<noteq> ?l \<longrightarrow> read_sector ops l (disk t) = read_sector ops l (disk u)"
    using fs_write_works[OF u(2) first_sector(1)[OF assms(1,2)] with_entry_same(1)[OF assms(5) p(2,1)]] by blast
  have "put_bytes p e sec = Inr (with_entry p e sec)" using p assms(5) by (simp add: put_bytes_def with_entry_def)
  then have "insert_entry ops pid c ch e s = Some (Inr (fs_send pid 200 [] t))"
    using u(1) ru t(1) p by (simp add: insert_entry_def lu)
  then show ?thesis
    using t geometry.then_rel[OF u(3) t(3)] u(4) by (auto simp: same_reads_def)
qed

section \<open>File data\<close>

lemma put_sectors_nil [simp]: "put_sectors ops sbase is [] s = Inr (True, [], s)"
  by (cases "is") simp_all

text \<open>Data that fits into one sector, in a cluster that ends its chain.\<close>

lemma write_file_data_one:
  assumes "fs_ok ops ok n s" "valid_cluster s c" "length data \<le> 512" "data \<noteq> []"
  shows "\<exists>t. write_file_data ops c data s = Some (Inr (True, t)) \<and> fs_ok ops ok n t \<and> same_geometry s t
    \<and> read_sector ops (cluster_to_sector s c) (disk t) = Some (data @ replicate (512 - length data) 0)
    \<and> (\<forall>l. l \<noteq> cluster_to_sector s c \<longrightarrow> read_sector ops l (disk t) = read_sector ops l (disk s))"
proof -
  let ?l = "cluster_to_sector s c" and ?sec = "data @ replicate (512 - length data) 0"
  obtain "is" where i: "[0..<unat (sectors_per_cluster s)] = 0 # is" using sector_upt[OF assms(1)] by blast
  have b: "bytes_per_sector s = 512" "1 \<le> unat (sectors_per_cluster s)"
    using assms(1) by (simp_all add: fs_ok_def Suc_le_eq unat_gt_0)
  have n: "length data \<le> 512 * unat (sectors_per_cluster s)" using b(2) assms(3) mult_le_mono2[OF b(2), of 512] by simp
  obtain t where t: "fs_write ops ?l ?sec s = (True, t)" "fs_ok ops ok n t" "same_geometry s t"
    "read_sector ops ?l (disk t) = Some ?sec"
    "\<forall>l. l \<noteq> ?l \<longrightarrow> read_sector ops l (disk t) = read_sector ops l (disk s)"
    using fs_write_works[OF assms(1) first_sector(1)[OF assms(1,2)], of ?sec] assms(3) by auto
  have "next_cluster ops t c = Inr (fat ops t c)"
    using next_cluster_ok[OF t(2), of c] assms(2) same_geometry_fields(8)[OF t(3)] by (simp add: valid_cluster_def)
  moreover have "put_sectors ops ?l (0 # is) data s = Inr (True, [], t)"
    using t(1) b(1) assms(3,4) by simp
  moreover have "write_loop ops x c [] t = Some (Inr (True, t))" for x
    by (subst write_loop.simps) simp
  ultimately have "write_loop ops c 0 data s = Some (Inr (True, t))"
    using assms(4) valid_in_chain[OF assms(1,2)] n b(1) i
    by (subst write_loop.simps) (simp add: Let_def del: put_sectors.simps)
  then show ?thesis using t by (auto simp: write_file_data_def)
qed

text \<open>The messages of a file: the offset, the number of bytes and the bytes.\<close>

function chunk_msgs :: "nat \<Rightarrow> u8 list \<Rightarrow> u8 list list" where
  "chunk_msgs off bytes =
     (if bytes = [] then []
      else (le_bytes 4 (of_nat off :: u32) @ [of_nat (min 59 (length bytes))] @ take 59 bytes)
           # chunk_msgs (off + 59) (drop 59 bytes))"
  by pat_completeness auto
termination
  by (relation "measure (\<lambda>(off, bytes). length bytes)") auto

declare chunk_msgs.simps [simp del]

lemma chunk_msgs_data: "concat (map (drop 5) (chunk_msgs off bytes)) = bytes"
proof (induction off bytes rule: chunk_msgs.induct)
  case (1 off bytes)
  show ?case
  proof (cases "bytes = []")
    case False
    then show ?thesis using 1 by (subst chunk_msgs.simps) simp
  qed (simp add: chunk_msgs.simps)
qed

lemma send_chunks_spec:
  assumes "bytes_per_sector s = 512" "length sec = 512" "unat fin \<le> 512" "unat off \<le> unat fin"
  shows "send_chunks sec pid off fin s =
    Inr (fin, s\<lparr>outbox := outbox s @ map (\<lambda>m. (pid, 100, m))
      (chunk_msgs (unat off) (take (unat fin - unat off) (drop (unat off) sec)))\<rparr>)"
  using assms
proof (induction "unat fin - unat off" arbitrary: off s rule: less_induct)
  case less
  let ?bytes = "take (unat fin - unat off) (drop (unat off) sec)"
  show ?case
  proof (cases "off < fin")
    case True
    define chunk where "chunk = (if fin - off > 59 then 59 else fin - off)"
    note ch = chunk_step[OF True, folded chunk_def]
    have d: "unat (fin - off) = unat fin - unat off"
      using True by (simp add: unat_sub word_le_nat_alt word_less_nat_alt)
    have c: "unat chunk = min 59 (unat fin - unat off)" using d by (auto simp: chunk_def word_less_nat_alt min_def)
    have len: "length ?bytes = unat fin - unat off" using less.prems(2,3) by simp
    have m: "unat (off mod 512) = unat off" using True less.prems(3) by (simp add: unat_mod word_less_nat_alt)
    have "unat off + unat chunk \<le> 512" using ch(3) less.prems(3) by simp
    then have g: "get_bytes (unat (off mod 512)) (unat chunk) sec = Inr (take 59 ?bytes)"
      using less.prems(2) by (simp add: get_bytes_def m c min.commute)
    let ?msg = "le_bytes 4 off @ [ucast chunk] @ take 59 ?bytes"
    have uc: "(ucast chunk :: u8) = of_nat (min 59 (length ?bytes))"
      unfolding len c[symmetric] by simp
    have "send_chunks sec pid (off + chunk) fin (fs_send pid 100 ?msg s) =
        Inr (fin, s\<lparr>outbox := outbox s @ (pid, 100, ?msg) # map (\<lambda>m. (pid, 100, m))
          (chunk_msgs (unat off + unat chunk) (take (unat fin - (unat off + unat chunk)) (drop (unat off + unat chunk) sec)))\<rparr>)"
      using less.hyps[of "off + chunk" "fs_send pid 100 ?msg s"] ch less.prems by (simp add: fs_send_def)
    moreover have "chunk_msgs (unat off + unat chunk) (take (unat fin - (unat off + unat chunk)) (drop (unat off + unat chunk) sec))
        = chunk_msgs (unat off + 59) (drop 59 ?bytes)"
    proof (cases "unat fin - unat off \<le> 59")
      case True
      then show ?thesis using c ch(3) less.prems(4) by (simp add: chunk_msgs.simps)
    next
      case False
      then show ?thesis using c by (simp add: drop_take add.commute)
    qed
    moreover have "chunk_msgs (unat off) ?bytes = ?msg # chunk_msgs (unat off + 59) (drop 59 ?bytes)"
      using len ch uc by (subst chunk_msgs.simps) auto
    moreover have "send_chunks sec pid off fin s = send_chunks sec pid (off + chunk) fin (fs_send pid 100 ?msg s)"
      using True g less.prems(1) by (subst send_chunks.simps) (simp add: Let_def chunk_def)
    ultimately show ?thesis by simp
  next
    case False
    then have "fin = off" using less.prems(4) by (simp add: word_less_nat_alt word_unat_eq_iff)
    then show ?thesis by (subst send_chunks.simps) (simp add: chunk_msgs.simps)
  qed
qed

section \<open>New entries\<close>

lemma list_11:
  assumes "length name = 11"
  obtains a b c d e f g h i j k where "name = [a, b, c, d, e, f, g, h, i, j, k]"
  using assms by (auto simp: length_Suc_conv eval_nat_numeral)

lemma file_entry_bytes:
  "file_entry [a, b, c, d, e, f, g, h, i, j, k] cl n =
     [a, b, c, d, e, f, g, h, i, j, k, 0x20, 0, 0, 0, 0, 0, 0, 0, 0, 0, 0, 0, 0, 0, 0,
      ucast (cl AND 0xFF), ucast (drop_bit 8 cl AND 0xFF),
      ucast (n AND 0xFF), ucast (drop_bit 8 n AND 0xFF), ucast (drop_bit 16 n AND 0xFF), ucast (drop_bit 24 n AND 0xFF)]"
  unfolding file_entry_def put_name_def put_zeros_def put_cluster_def Let_def
  by (simp add: upt_rec eval_nat_numeral)

lemma ucast_low_byte: "(ucast (v AND 0xFF :: u32) :: u8) = ucast v"
proof -
  have "v AND 0xFF = take_bit 8 v" by (simp add: take_bit_eq_mask mask_eq_exp_minus_1)
  then show ?thesis by (intro bit_word_eqI) (simp add: bit_ucast_iff bit_take_bit_iff)
qed

lemma le_word_entry:
  fixes v :: u32
  shows "le_word [ucast v, ucast (drop_bit 8 v), ucast (drop_bit 16 v), ucast (drop_bit 24 v)] = v"
    "le_word [ucast v, ucast (drop_bit 8 v)] = take_bit 16 v"
proof -
  have "le_bytes 4 v = [ucast v, ucast (drop_bit 8 v), ucast (drop_bit 16 v), ucast (drop_bit 24 v)]"
    "le_bytes 2 v = [ucast v, ucast (drop_bit 8 v)]"
    by (simp_all add: eval_nat_numeral drop_bit_drop_bit del: drop_bit_of_nat)
  then show "le_word [ucast v, ucast (drop_bit 8 v), ucast (drop_bit 16 v), ucast (drop_bit 24 v)] = v"
    "le_word [ucast v, ucast (drop_bit 8 v)] = take_bit 16 v"
    using le_word_bytes[of 4 v] le_word_bytes[of 2 v] by (simp_all add: take_bit_u32)
qed

text \<open>What a search finds in a new entry: the size, but only half of the cluster number.\<close>

lemma file_entry_fields:
  fixes cl sz :: u32
  assumes "length name = 11" "slot_free name p sec"
  defines "e \<equiv> file_entry name cl sz"
  shows "length e = 32" "take 11 e = name" "e ! 0 = name ! 0" "e ! 0xB = 0x20"
    "entry_cluster (with_entry p e sec) p = take_bit 16 cl" "entry_size (with_entry p e sec) p = sz"
proof -
  obtain a b c d e' f g h i j k where name: "name = [a, b, c, d, e', f, g, h, i, j, k]"
    using list_11[OF assms(1)] .
  note bytes = file_entry_bytes[of a b c d e' f g h i j k cl sz, folded name e_def, unfolded ucast_low_byte]
  show len: "length e = 32" and "take 11 e = name" "e ! 0 = name ! 0" "e ! 0xB = 0x20"
    by (simp_all add: bytes name)
  have p: "length sec = 512" "p + 32 \<le> 512" using assms(2) entry_offsets_range by (auto simp: slot_free_def)
  note w = with_entry_same(3)[OF len p]
  have "take 2 (drop 0x14 e) = [0, 0]" "take 2 (drop 0x1A e) = [ucast cl, ucast (drop_bit 8 cl)]"
    "take 4 (drop 0x1C e) = [ucast sz, ucast (drop_bit 8 sz), ucast (drop_bit 16 sz), ucast (drop_bit 24 sz)]"
    by (simp_all add: bytes)
  then show "entry_cluster (with_entry p e sec) p = take_bit 16 cl" "entry_size (with_entry p e sec) p = sz"
    using w[of "0x14" 2] w[of "0x1A" 2] w[of "0x1C" 4] le_word_entry[of cl] le_word_entry[of sz]
    by (simp_all add: entry_cluster_def entry_size_def)
qed

section \<open>Reading\<close>

lemma send_sectors_done [simp]:
  "\<not> off < sz \<Longrightarrow> send_sectors ops pid sbase sz is off s = Inr (True, off, s)"
  by (cases "is") simp_all

lemma send_file_one:
  assumes "fs_ok ops ok n s" "valid_cluster s c" "read_sector ops (cluster_to_sector s c) (disk s) = Some sec"
    and "length sec = 512" "0 < sz" "unat sz \<le> 512"
  shows "send_file ops pid sz c 0 s = Some (Inr (s\<lparr>outbox := outbox s
    @ map (\<lambda>m. (pid, 100, m)) (chunk_msgs 0 (take (unat sz) sec)) @ [(pid, 101, [])]\<rparr>))"
proof -
  let ?msgs = "map (\<lambda>m. (pid, 100, m)) (chunk_msgs 0 (take (unat sz) sec))"
  let ?t = "s\<lparr>outbox := outbox s @ ?msgs\<rparr>"
  have b: "bytes_per_sector s = 512" using assms(1) by (simp add: fs_ok_def)
  obtain "is" where i: "[0..<unat (sectors_per_cluster s)] = 0 # is" using sector_upt[OF assms(1)] by blast
  have fin: "(if (512 :: u32) > sz then sz else 512) = sz"
    using assms(6) by (simp add: word_less_nat_alt word_unat_eq_iff)
  have "send_chunks sec pid 0 sz s = Inr (sz, ?t)"
    using send_chunks_spec[OF b assms(4,6), of 0 pid] by simp
  then have 1: "send_sectors ops pid (cluster_to_sector s c) sz (0 # is) 0 s = Inr (True, sz, ?t)"
    using assms(3,5) b fin by (simp add: Let_def)
  have "next_cluster ops ?t c = next_cluster ops s c" by (simp add: next_cluster_def fat_position_def)
  then have 2: "next_cluster ops ?t c = Inr (fat ops s c)"
    using next_cluster_ok[OF assms(1), of c] assms(2) by (simp add: valid_cluster_def)
  have 3: "send_file ops pid sz x sz ?t = Some (Inr (fs_send pid 101 [] ?t))" for x
    by (subst send_file.simps) simp
  have "send_file ops pid sz c 0 s = Some (Inr (fs_send pid 101 [] ?t))"
    using valid_in_chain[OF assms(1,2)] assms(5) 1 2 3 i by (subst send_file.simps) (simp del: send_sectors.simps)
  then show ?thesis by (simp add: fs_send_def)
qed

section \<open>Writing a file and reading it back\<close>

text \<open>The requests as a client sends them: the path with its zero byte, then the data.\<close>

definition write_request :: "u64 \<Rightarrow> u8 list \<Rightarrow> u8 list \<Rightarrow> request" where
  "write_request pid path data =
     \<lparr>req_sender = pid, req_type = 2,
      req_data = path @ 0 # data @ replicate (63 - length path - length data) 0,
      req_length = of_nat (length path + 1 + length data)\<rparr>"

definition read_request :: "u64 \<Rightarrow> u8 list \<Rightarrow> request" where
  "read_request pid path =
     \<lparr>req_sender = pid, req_type = 0, req_data = path @ 0 # replicate (63 - length path) 0,
      req_length = of_nat (length path + 1)\<rparr>"

lemma slash_none: "0x2F \<notin> set path \<Longrightarrow> slash path = None"
  by (auto simp: slash_def find_None_iff) (metis nth_mem)

lemma length_to_8_3: "length (to_8_3 name) = 11"
  by (simp add: to_8_3_spec name_8_3_def pad_def)

lemma u64_to_int_of_nat: "k \<le> 64 \<Longrightarrow> u64_to_int (of_nat k) = int k"
proof -
  assume "k \<le> 64"
  moreover from this have "unat (of_nat k :: u64) = k" by (simp add: unat_of_nat take_bit_nat_eq_self_iff)
  ultimately show ?thesis using u64_to_int_small[of "of_nat k"] by (simp add: word_less_nat_alt uint_nat)
qed

text \<open>A received request of either kind.\<close>

definition asks_write :: "request \<Rightarrow> u8 list \<Rightarrow> u8 list \<Rightarrow> bool" where
  "asks_write r path data \<longleftrightarrow>
     req_type r = 2 \<and> req_string r = Inr path \<and> req_length r = of_nat (length path + 1 + length data)
     \<and> get_bytes (length path + 1) (length data) (req_data r) = Inr data"

definition asks_read :: "request \<Rightarrow> u8 list \<Rightarrow> bool" where
  "asks_read r path \<longleftrightarrow> req_type r = 0 \<and> req_string r = Inr path"

lemma write_request_asks:
  assumes "0 \<notin> set path" "length path + 1 + length data \<le> 64"
  shows "asks_write (write_request pid path data) path data"
  using req_string_terminated[OF assms(1)] assms(2) by (simp add: asks_write_def write_request_def get_bytes_def)

lemma read_request_asks: "0 \<notin> set path \<Longrightarrow> asks_read (read_request pid path) path"
  using req_string_terminated by (simp add: asks_read_def read_request_def)

text \<open>A new file: its cluster, its data and its entry.\<close>

lemma handle_write_new:
  assumes "fs_ok ops ok n s" "valid_cluster s (root_cluster s)" "fat ops s (root_cluster s) \<noteq> 0"
    and "read_sector ops (cluster_to_sector s (root_cluster s)) (disk s) = Some sec"
    and "slot_free (to_8_3 path) p sec"
    and "asks_write r path data" "0x2F \<notin> set path" "data \<noteq> []" "length path + 1 + length data \<le> 64"
    and "List.find (\<lambda>k. table ops s ! k = 0) [2..<fat_entries s] = Some k"
  defines "c \<equiv> of_nat k" and "e \<equiv> file_entry (to_8_3 path) (of_nat k) (of_nat (length data))"
  shows "\<exists>t. handle_write ops r s = Some (Inr (fs_send (req_sender r) 200 [] t))
    \<and> fs_ok ops ok n t \<and> same_geometry s t \<and> valid_cluster s c
    \<and> read_sector ops (cluster_to_sector s (root_cluster s)) (disk t) = Some (with_entry p e sec)
    \<and> read_sector ops (cluster_to_sector s c) (disk t) = Some (data @ replicate (512 - length data) 0)"
proof -
  let ?r = "root_cluster s" and ?lr = "cluster_to_sector s (root_cluster s)" and ?lc = "cluster_to_sector s c"
  have k: "2 \<le> k" "k < fat_entries s" "table ops s ! k = 0" using assms(10) by (auto simp: find_Some_iff)
  have le: "fat_entries s \<le> 0x0FFFFFF8" using assms(1) by (simp add: fs_ok_def)
  then have uc: "unat c = k" using k(2) by (simp add: c_def unat_of_nat take_bit_nat_eq_self_iff)
  have c: "valid_cluster s c" using k uc by (simp add: valid_cluster_def)
  have "c \<noteq> ?r" using assms(3) k table_nth[of c s ops] uc by auto
  then have ne: "?lc \<noteq> ?lr"
    using cluster_sectors_distinct[OF assms(1)] c assms(2) by (simp add: valid_cluster_def)
  have c0: "c \<noteq> 0" using c by (auto simp: valid_cluster_def)
  obtain s1 where s1: "alloc_cluster ops s = Inr (c, s1)" "fs_ok ops ok n s1" "same_geometry s s1"
    "\<forall>l. unat (first_data_sector s) \<le> unat l \<longrightarrow> read_sector ops l (disk s1) = read_sector ops l (disk s)"
    using alloc_cluster_refines[OF assms(1)] assms(10) by (auto simp: table_alloc_def c_def table_step_def)
  note g1 = same_geometry_fields[OF s1(3)]
  have c1: "valid_cluster s1 c" "valid_cluster s1 ?r" using c assms(2) g1(8) by (simp_all add: valid_cluster_def)
  obtain s2 where s2: "write_file_data ops c data s1 = Some (Inr (True, s2))" "fs_ok ops ok n s2" "same_geometry s1 s2"
    "read_sector ops ?lc (disk s2) = Some (data @ replicate (512 - length data) 0)"
    "\<forall>l. l \<noteq> ?lc \<longrightarrow> read_sector ops l (disk s2) = read_sector ops l (disk s1)"
    using write_file_data_one[OF s1(2) c1(1), of data] assms(8,9) g1(9) by auto
  note g2 = same_geometry_fields[OF s2(3)]
  have c2: "valid_cluster s2 ?r" using c1(2) g2(8) by (simp add: valid_cluster_def)
  have "read_sector ops ?lr (disk s2) = Some sec"
    using s2(5) ne s1(4) first_sector(2)[OF assms(1,2)] assms(4) by simp
  moreover have l2: "cluster_to_sector s2 ?r = ?lr" using g1(9) g2(9) by simp
  moreover have "length e = 32" unfolding e_def by (rule file_entry_fields(1)[OF length_to_8_3 assms(5)])
  ultimately obtain t where t: "insert_entry ops (req_sender r) ?r c e s2 = Some (Inr (fs_send (req_sender r) 200 [] t))" "fs_ok ops ok n t"
    "same_geometry s2 t" "read_sector ops ?lr (disk t) = Some (with_entry p e sec)"
    "\<forall>l. l \<noteq> ?lr \<longrightarrow> read_sector ops l (disk t) = read_sector ops l (disk s2)"
    using insert_entry_first[OF s2(2) c2 _ assms(5), of e "req_sender r" c] by auto
  have find: "find_in_dir ops ?r (to_8_3 path) True s = Some (Inr None)"
    using find_in_dir_first(1)[OF assms(1,2,4)] slot_free_scans(1)[OF assms(5)] by simp
  have r: "req_string r = Inr path" "get_bytes (length path + 1) (length data) (req_data r) = Inr data"
    "req_length r = of_nat (length path + 1 + length data)"
    using assms(6) by (simp_all add: asks_write_def)
  have len: "u64_to_int (req_length r) - int (length path + 1) = int (length data)"
    unfolding r(3) using assms(9) u64_to_int_of_nat[of "length path + 1 + length data"] by simp
  have "handle_write ops r s = insert_entry ops (req_sender r) ?r c e s2"
    unfolding handle_write_def Let_def r(1) try_res_simps len resolve_parent_def slash_none[OF assms(7)]
    using assms(8) find s1(1) c0 r(2) s2(1) by (simp add: write_data_def write_entry_def e_def c_def)
  then show ?thesis
    using t c s2(4) ne geometry.then_rel[OF s1(3) geometry.then_rel[OF s2(3) t(3)]] by auto
qed

lemma first_of_8_3: "path \<noteq> [] \<Longrightarrow> to_8_3 path ! 0 = (if hd path = 0x2E then 0x20 else upper (hd path))"
  by (cases path) (auto simp: to_8_3_spec name_8_3_def pad_def nth_append)

lemma upper_nonzero: "c \<noteq> 0 \<Longrightarrow> upper c \<noteq> 0"
  by (auto simp: upper_def word_le_nat_alt)

text \<open>What a client that writes a file gets for it, and what a client that reads it then gets.\<close>

lemma written_file_reads:
  assumes "fs_ok ops ok n s" "valid_cluster s (root_cluster s)" "fat ops s (root_cluster s) \<noteq> 0"
    and "read_sector ops (cluster_to_sector s (root_cluster s)) (disk s) = Some sec"
    and "slot_free (to_8_3 path) p sec"
    and "path \<noteq> []" "0 \<notin> set path" "0x2F \<notin> set path" "to_8_3 path ! 0 \<noteq> 0xE5"
    and "data \<noteq> []" "length path + 1 + length data \<le> 64"
    and "List.find (\<lambda>k. table ops s ! k = 0) [2..<fat_entries s] = Some k" "k < 65536"
    and "asks_write w path data" "asks_read r path"
  shows "\<exists>t u. handle_request spawn ops w s = Some (Inr t) \<and> outbox t = outbox s @ [(req_sender w, 200, [])]
    \<and> handle_request spawn ops r t = Some (Inr u)
    \<and> outbox u = outbox t @ map (\<lambda>m. (req_sender r, 100, m)) (chunk_msgs 0 data) @ [(req_sender r, 101, [])]"
proof -
  let ?r = "root_cluster s" and ?c = "of_nat k :: u32" and ?sz = "of_nat (length data) :: u32"
  let ?e = "file_entry (to_8_3 path) ?c ?sz"
  obtain t where t: "handle_write ops w s = Some (Inr (fs_send (req_sender w) 200 [] t))"
    "fs_ok ops ok n t" "same_geometry s t" "valid_cluster s ?c"
    "read_sector ops (cluster_to_sector s ?r) (disk t) = Some (with_entry p ?e sec)"
    "read_sector ops (cluster_to_sector s ?c) (disk t) = Some (data @ replicate (512 - length data) 0)"
    using handle_write_new[OF assms(1-5,14,8,10-12)] by blast
  let ?t = "fs_send (req_sender w) 200 [] t"
  note g = same_geometry_fields[OF t(3)]
  have ok: "fs_ok ops ok n ?t" using t(2) by (simp add: fs_ok_def fs_send_def fat_entries_def)
  have ge: "root_cluster ?t = ?r" "cluster_to_sector ?t = cluster_to_sector s" "disk ?t = disk t"
      "outbox ?t = outbox s @ [(req_sender w, 200, [])]"
    using g(5,7,9) by (simp_all add: fs_send_def cluster_to_sector_def fun_eq_iff)
  have v: "valid_cluster ?t ?r" "valid_cluster ?t ?c"
    using assms(2) t(4) g(8) by (simp_all add: valid_cluster_def fs_send_def fat_entries_def)
  note fe = file_entry_fields[OF length_to_8_3 assms(5), of ?c ?sz]
  have "hd path \<noteq> 0" using assms(6,7) by (metis hd_in_set)
  then have "to_8_3 path ! 0 \<noteq> 0" using first_of_8_3[OF assms(6)] upper_nonzero by simp
  then have m: "match_entry (to_8_3 path) lba (with_entry p ?e sec) = Return (Some (lba, with_entry p ?e sec, p))" for lba
    using with_entry_match[OF assms(5) fe(1,2)] fe(3,4) assms(9) by simp
  have "take_bit 16 ?c = ?c"
    using assms(13) by (simp add: word_unat_eq_iff unsigned_take_bit_eq unat_of_nat take_bit_nat_eq_self_iff)
  then have find: "find_in_dir ops ?r (to_8_3 path) True ?t = Some (Inr (Some (?c, ?sz)))"
    using find_in_dir_first(2)[OF ok v(1) _ m] t(5) ge fe(5,6) by simp
  have usz: "unat ?sz = length data" using assms(11) by (simp add: unat_of_nat take_bit_nat_eq_self_iff)
  then have sz: "0 < ?sz" "unat ?sz \<le> 512" using assms(10,11) by (simp_all add: word_less_nat_alt)
  have send: "send_file ops (req_sender r) ?sz ?c 0 ?t = Some (Inr (?t\<lparr>outbox := outbox ?t
      @ map (\<lambda>m. (req_sender r, 100, m)) (chunk_msgs 0 data) @ [(req_sender r, 101, [])]\<rparr>))"
    using send_file_one[OF ok v(2) _ _ sz, of _ "req_sender r"] t(6) ge usz assms(11) by simp
  have "handle_read ops r ?t = Some (Inr (?t\<lparr>outbox := outbox ?t
      @ map (\<lambda>m. (req_sender r, 100, m)) (chunk_msgs 0 data) @ [(req_sender r, 101, [])]\<rparr>))"
    using find send ge(1) slash_none[OF assms(8)] assms(15)
    by (simp add: handle_read_def resolve_path_def asks_read_def)
  then show ?thesis
    using t(1) ge(4) assms(14,15) by (simp add: handle_request_def asks_write_def asks_read_def)
qed

text \<open>
  C23: on a working disk, with a free cluster below 65536 and a free slot in the first sector of the root directory,
  a client that writes a new file of up to 62 bytes is told so (200), and reading the file afterwards delivers
  exactly the bytes written, in messages of at most 59 bytes each with their offset and
  length, followed by the end message (101).
\<close>

theorem write_then_read:
  assumes "fs_ok ops ok n s" "valid_cluster s (root_cluster s)" "fat ops s (root_cluster s) \<noteq> 0"
    and "read_sector ops (cluster_to_sector s (root_cluster s)) (disk s) = Some sec"
    and "slot_free (to_8_3 path) p sec"
    and "path \<noteq> []" "0 \<notin> set path" "0x2F \<notin> set path" "to_8_3 path ! 0 \<noteq> 0xE5"
    and "data \<noteq> []" "length path + 1 + length data \<le> 64"
    and "List.find (\<lambda>k. table ops s ! k = 0) [2..<fat_entries s] = Some k" "k < 65536"
  shows "\<exists>t u. handle_request spawn ops (write_request pid path data) s = Some (Inr t)
    \<and> handle_request spawn ops (read_request reader path) t = Some (Inr u)
    \<and> outbox u = outbox s @ [(pid, 200, [])] @ map (\<lambda>m. (reader, 100, m)) (chunk_msgs 0 data) @ [(reader, 101, [])]
    \<and> concat (map (drop 5) (chunk_msgs 0 data)) = data"
  using written_file_reads[OF assms write_request_asks[OF assms(7,11)] read_request_asks[OF assms(7)], of spawn pid reader]
    chunk_msgs_data[of 0 data] by (fastforce simp: write_request_def read_request_def)

text \<open>The small file system with its root directory in cluster 2, empty.\<close>

lemma fs_demo_root:
  "\<exists>s. fs_ok ram_ops ram_ok 128 s \<and> valid_cluster s 2 \<and> root_cluster s = 2 \<and> fat ram_ops s 2 \<noteq> 0 \<and> outbox s = []
    \<and> read_sector ram_ops (cluster_to_sector s 2) (disk s) = Some (replicate 512 0)
    \<and> List.find (\<lambda>k. table ram_ops s ! k = 0) [2..<fat_entries s] = Some 3"
proof -
  have e: "unat (2 :: u32) < fat_entries fs_demo" by (simp add: fat_entries_def fs_demo_def)
  obtain s where s: "table_step ram_ops ram_ok 128 fs_demo s" "table ram_ops s = (table ram_ops fs_demo)[2 := EOC]"
    using set_table[OF fs_demo_ok e, of EOC] by auto
  then have g: "same_geometry fs_demo s" "fs_ok ram_ops ram_ok 128 s"
    "read_sector ram_ops 2 (disk s) = read_sector ram_ops 2 (disk fs_demo)"
    by (auto simp: table_step_def fs_demo_def)
  note f = same_geometry_fields[OF g(1)]
  have n: "fat_entries s = 128" "cluster_to_sector s 2 = 2" "root_cluster s = 2" "outbox s = []"
    using f(5,7,8,9) by (simp_all add: fat_entries_def fs_demo_def cluster_to_sector_def)
  have "table ram_ops s ! 2 = EOC" "table ram_ops s ! 3 = 0"
    using s(2) fs_demo_table[of 3] by (simp_all add: fat_entries_def fs_demo_def)
  moreover have "table ram_ops s ! 2 = fat ram_ops s 2" using table_nth[of 2 s ram_ops] n(1) by simp
  moreover have "[2..<128] = 2 # 3 # [4..<128]" by (simp add: upt_rec[of 2] upt_rec[of 3])
  ultimately show ?thesis
    using g n by (intro exI[of _ s]) (simp add: valid_cluster_def ram_ops_def fs_demo_def)
qed

lemma empty_slot: "slot_free name 0 (replicate 512 0)"
  by (simp add: slot_free_def entry_offsets_def)

theorem write_then_read_witness:
  "\<exists>s t u. handle_request (\<lambda>_. (0, 0)) ram_ops (write_request 9 [0x61, 0x2E, 0x74] [1, 2, 3]) s = Some (Inr t)
    \<and> handle_request (\<lambda>_. (0, 0)) ram_ops (read_request 9 [0x61, 0x2E, 0x74]) t = Some (Inr u)
    \<and> outbox u = [(9, 200, []), (9, 100, [0, 0, 0, 0, 3, 1, 2, 3]), (9, 101, [])]"
proof -
  obtain s where s: "fs_ok ram_ops ram_ok 128 s" "valid_cluster s 2" "root_cluster s = 2" "fat ram_ops s 2 \<noteq> 0" "outbox s = []"
    "read_sector ram_ops (cluster_to_sector s 2) (disk s) = Some (replicate 512 0)"
    "List.find (\<lambda>k. table ram_ops s ! k = 0) [2..<fat_entries s] = Some 3"
    using fs_demo_root by blast
  have "chunk_msgs 0 [1, 2, 3] = [[0, 0, 0, 0, 3, 1, 2, 3]]"
    by (simp add: chunk_msgs.simps eval_nat_numeral)
  moreover have "to_8_3 [0x61, 0x2E, 0x74] ! 0 \<noteq> 0xE5" by (simp add: first_of_8_3 upper_def)
  ultimately show ?thesis
    using write_then_read[OF s(1) _ _ _ empty_slot _ _ _ _ _ _ s(7), of "[0x61, 0x2E, 0x74]" "[1, 2, 3]" "\<lambda>_. (0, 0)" 9 9]
      s by auto
qed

section \<open>Paths with a directory\<close>

lemma find_without_size:
  assumes "find_in_dir ops c name True s = Some (Inr (Some r))"
  shows "find_in_dir ops c name False s = Some (Inl (Page_Fault 0))"
proof -
  obtain x where x: "locate ops c name s = Some x" using assms by (cases "locate ops c name s") (auto simp: find_in_dir_def)
  then show ?thesis
    using assms by (cases x) (auto simp: find_in_dir_def split: option.splits prod.splits)
qed

text \<open>
  A delete, remove-directory or make-directory request for a path inside an existing directory kills the server with
  a page fault at address 0: \<^verbatim>\<open>resolve_parent\<close> passes a null pointer for the size, through
  which the search stores the size of the directory's entry.
\<close>

theorem subdirectory_request_faults:
  assumes "req_string r = Inr path" "slash path = Some i" "i \<le> 63" "req_type r \<in> {3, 4, 5}"
    and "find_in_dir ops (root_cluster s) (to_8_3 (take i path)) True s = Some (Inr (Some d))"
  shows "handle_request spawn ops r s = Some (Inl (Page_Fault 0))"
proof -
  have "resolve_parent ops path s = Some (Inl (Page_Fault 0))"
    using assms(2,3) find_without_size[OF assms(5)] by (simp add: resolve_parent_def)
  then show ?thesis
    using assms(1,4) by (auto simp: handle_request_def handle_delete_def handle_mkdir_def Let_def)
qed

text \<open>A root directory with one entry, the directory \<^verbatim>\<open>D\<close>.\<close>

theorem subdirectory_request_faults_witness:
  "\<exists>s. handle_request (\<lambda>_. (0, 0)) ram_ops
     \<lparr>req_sender = 9, req_type = 3, req_data = [0x64, 0x2F, 0x61] @ 0 # replicate 60 0, req_length = 4\<rparr> s
     = Some (Inl (Page_Fault 0))"
proof -
  let ?r = "\<lparr>req_sender = 9, req_type = 3, req_data = [0x64, 0x2F, 0x61] @ 0 # replicate 60 0, req_length = 4\<rparr>"
  obtain s where s: "fs_ok ram_ops ram_ok 128 s" "valid_cluster s 2" "root_cluster s = 2"
    "read_sector ram_ops (cluster_to_sector s 2) (disk s) = Some (replicate 512 0)"
    using fs_demo_root by blast
  let ?e = "file_entry (to_8_3 [0x64]) 0 0" and ?l = "cluster_to_sector s 2"
  note fe = file_entry_fields[OF length_to_8_3 empty_slot, of "[0x64]" 0 0]
  obtain t where t: "fs_ok ram_ops ram_ok 128 t" "same_geometry s t"
    "read_sector ram_ops ?l (disk t) = Some (with_entry 0 ?e (replicate 512 0))"
    using fs_write_works[OF s(1) first_sector(1)[OF s(1,2)] with_entry_same(1)[OF fe(1), of "replicate 512 0" 0]] by auto
  note g = same_geometry_fields[OF t(2)]
  have v: "valid_cluster t 2" "cluster_to_sector t 2 = ?l" "root_cluster t = 2"
    using s(2,3) g(5,8,9) by (simp_all add: valid_cluster_def)
  have "to_8_3 [0x64] ! 0 = 0x44" by (simp add: first_of_8_3 upper_def)
  then have "match_entry (to_8_3 [0x64]) ?l (with_entry 0 ?e (replicate 512 0)) =
      Return (Some (?l, with_entry 0 ?e (replicate 512 0), 0))"
    using with_entry_match[OF empty_slot fe(1,2)] fe(3,4) by simp
  then have "find_in_dir ram_ops (root_cluster t) (to_8_3 (take 1 [0x64, 0x2F, 0x61])) True t =
      Some (Inr (Some (entry_cluster (with_entry 0 ?e (replicate 512 0)) 0, entry_size (with_entry 0 ?e (replicate 512 0)) 0)))"
    using find_in_dir_first(2)[OF t(1) v(1)] t(3) v(2,3) by simp
  moreover have "req_string ?r = Inr [0x64, 0x2F, 0x61]" by (rule req_string_terminated) simp
  moreover have "slash [0x64, 0x2F, 0x61] = Some 1" by (simp add: slash_def upt_rec)
  ultimately show ?thesis
    using subdirectory_request_faults[of ?r "[0x64, 0x2F, 0x61]" 1 ram_ops t] by auto
qed

end
