(* ===== verification/Fat32_Safety.thy ===== *)
theory Fat32_Safety
  imports Fat32_Files
begin

text \<open>
  Memory safety of the FAT32 server, whatever is on the disk. The only law asked of the disk here is that sectors
  have 512 bytes: the tables, directories and chains on it may be corrupt, and reads and writes may fail.
  The rules of \<open>fine\<close> and \<open>safe\<close> compose what the operations promise along the sequencing operators;
  the partial functions, which follow a chain that may be a cycle, are
  treated by their induction rule.
\<close>

section \<open>Safe results\<close>

text \<open>
  The server stops otherwise than by returning only in the store through the null pointer of
  \<^verbatim>\<open>resolve_parent\<close>; no array is accessed outside its bounds.
\<close>

definition fine :: "('a \<Rightarrow> bool) \<Rightarrow> 'a res \<Rightarrow> bool" where
  "fine Q y \<longleftrightarrow> (case y of Inl e \<Rightarrow> e = Page_Fault 0 | Inr x \<Rightarrow> Q x)"

definition safe :: "('a \<Rightarrow> bool) \<Rightarrow> 'a res option \<Rightarrow> bool" where
  "safe Q r \<longleftrightarrow> (case r of None \<Rightarrow> True | Some y \<Rightarrow> fine Q y)"

lemma fine_simps [simp]: "fine Q (Inr x) \<longleftrightarrow> Q x" "fine Q (Inl e) \<longleftrightarrow> e = Page_Fault 0"
  by (simp_all add: fine_def)

lemma safe_simps [simp]: "safe Q None" "safe Q (Some y) \<longleftrightarrow> fine Q y"
  by (simp_all add: safe_def)

lemma fine_bind: "fine P r \<Longrightarrow> (\<And>x. P x \<Longrightarrow> fine Q (f x)) \<Longrightarrow> fine Q (bind_res r f)"
  by (cases r) auto

lemma safe_try: "fine P r \<Longrightarrow> (\<And>x. P x \<Longrightarrow> safe Q (f x)) \<Longrightarrow> safe Q (try_res r f)"
  by (cases r) auto

lemma safe_and_then: "safe P r \<Longrightarrow> (\<And>x. P x \<Longrightarrow> safe Q (f x)) \<Longrightarrow> safe Q (and_then r f)"
  by (cases r) (auto simp: and_then_def intro: safe_try)

lemma fine_mono: "fine P r \<Longrightarrow> (\<And>x. P x \<Longrightarrow> Q x) \<Longrightarrow> fine Q r"
  by (cases r) auto

lemma safe_mono: "safe P r \<Longrightarrow> (\<And>x. P x \<Longrightarrow> Q x) \<Longrightarrow> safe Q r"
  by (cases r) (auto intro: fine_mono)

text \<open>For the partial functions: the property is one of every result they return, so it may be proved by fixed-point induction.\<close>

lemma safe_iff: "safe Q r \<longleftrightarrow> (\<forall>y. r = Some y \<longrightarrow> fine Q y)"
  by (cases r) auto

lemma safe_admissible:
  "option.admissible (\<lambda>f. safe Q (f x))"
  "option.admissible P \<Longrightarrow> option.admissible (\<lambda>f. A \<longrightarrow> P f)"
  "option.admissible P \<Longrightarrow> option.admissible P' \<Longrightarrow> option.admissible (\<lambda>f. P f \<and> P' f)"
  "(\<And>z. option.admissible (R z)) \<Longrightarrow> option.admissible (\<lambda>f. \<forall>z. R z f)"
  unfolding safe_iff using option_admissible[of "\<lambda>z y. z = x \<longrightarrow> fine Q y"]
  by (auto simp: ccpo.admissible_def)

section \<open>Typed states\<close>

text \<open>The sectors of an \<open>ok\<close> disk have 512 bytes, and writing such a sector keeps it \<open>ok\<close>.\<close>

definition sector_disk :: "'d disk_ops \<Rightarrow> ('d \<Rightarrow> bool) \<Rightarrow> bool" where
  "sector_disk ops ok \<longleftrightarrow>
     (\<forall>d lba sec. ok d \<longrightarrow> read_sector ops lba d = Some sec \<longrightarrow> length sec = 512)
     \<and> (\<forall>d lba sec. ok d \<longrightarrow> length sec = 512 \<longrightarrow> ok (snd (write_sector ops lba sec d)))"

definition fs_typed :: "'d disk_ops \<Rightarrow> ('d \<Rightarrow> bool) \<Rightarrow> 'd fs \<Rightarrow> bool" where
  "fs_typed ops ok s \<longleftrightarrow>
     sector_disk ops ok \<and> ok (disk s) \<and> bytes_per_sector s = 512 \<and> length (file_buf s) = 32768"

text \<open>A piece of a file on its way to \<open>pid\<close>: offset, length and at most 59 bytes.\<close>

definition data_msg :: "u64 \<Rightarrow> sent_msg \<Rightarrow> bool" where
  "data_msg pid m \<longleftrightarrow> fst m = pid \<and> fst (snd m) = 100 \<and> length (snd (snd m)) \<le> 64"

text \<open>
  What an operation does before the reply: disk and buffer change, pieces of a file are sent,
  and the geometry stays.
\<close>

definition streams :: "'d disk_ops \<Rightarrow> ('d \<Rightarrow> bool) \<Rightarrow> u64 \<Rightarrow> 'd fs \<Rightarrow> 'd fs \<Rightarrow> bool" where
  "streams ops ok pid s t \<longleftrightarrow>
     (fs_typed ops ok s \<longrightarrow> fs_typed ops ok t)
     \<and> (\<exists>d buf ms. t = s\<lparr>disk := d, file_buf := buf, outbox := outbox s @ ms\<rparr> \<and> list_all (data_msg pid) ms)"

text \<open>The whole treatment of a request: the pieces, and one closing message.\<close>

definition settles :: "'d disk_ops \<Rightarrow> ('d \<Rightarrow> bool) \<Rightarrow> u64 \<Rightarrow> 'd fs \<Rightarrow> 'd fs \<Rightarrow> bool" where
  "settles ops ok pid s t \<longleftrightarrow>
     (\<exists>u code bytes. streams ops ok pid s u \<and> code \<in> {101, 200, 255} \<and> length bytes \<le> 64 \<and> t = fs_send pid code bytes u)"

lemma streams_quietly:
  assumes "fs_typed ops ok s \<Longrightarrow> fs_typed ops ok t" "t = s\<lparr>disk := d, file_buf := buf\<rparr>"
  shows "streams ops ok pid s t"
proof -
  have "t = s\<lparr>disk := d, file_buf := buf, outbox := outbox s @ []\<rparr>" "list_all (data_msg pid) []"
    using assms(2) by simp_all
  then show ?thesis using assms(1) unfolding streams_def by blast
qed

interpretation stream: step_contract "streams ops ok pid"
proof
  show "streams ops ok pid s s" for s by (rule streams_quietly[where d = "disk s" and buf = "file_buf s"]) simp_all
  fix s t u
  assume st: "streams ops ok pid s t" and tu: "streams ops ok pid t u"
  obtain d buf ms where t: "t = s\<lparr>disk := d, file_buf := buf, outbox := outbox s @ ms\<rparr>" "list_all (data_msg pid) ms"
    using st by (auto simp: streams_def)
  obtain d' buf' ms' where u: "u = t\<lparr>disk := d', file_buf := buf', outbox := outbox t @ ms'\<rparr>" "list_all (data_msg pid) ms'"
    using tu by (auto simp: streams_def)
  have "u = s\<lparr>disk := d', file_buf := buf', outbox := outbox s @ (ms @ ms')\<rparr>" "list_all (data_msg pid) (ms @ ms')"
    using t u by simp_all
  moreover have "fs_typed ops ok s \<longrightarrow> fs_typed ops ok u" using st tu by (simp add: streams_def)
  ultimately show "streams ops ok pid s u" unfolding streams_def by blast
qed

lemma streams_typed: "streams ops ok pid s t \<Longrightarrow> fs_typed ops ok s \<Longrightarrow> fs_typed ops ok t"
  by (simp add: streams_def)

lemma settles_typed: "settles ops ok pid s t \<Longrightarrow> fs_typed ops ok s \<Longrightarrow> fs_typed ops ok t"
  by (auto simp: settles_def fs_send_def fs_typed_def dest!: streams_typed)

lemma streams_settles: "streams ops ok pid s t \<Longrightarrow> settles ops ok pid t u \<Longrightarrow> settles ops ok pid s u"
  by (auto simp: settles_def intro: stream.then_rel)

lemma settles_then: "streams ops ok pid s t \<Longrightarrow> safe (settles ops ok pid t) r \<Longrightarrow> safe (settles ops ok pid s) r"
  by (erule safe_mono) (rule streams_settles)

lemma send_settles: "code \<in> {101, 200, 255} \<Longrightarrow> length bytes \<le> 64 \<Longrightarrow> settles ops ok pid s (fs_send pid code bytes s)"
  unfolding settles_def using stream.unchanged by blast

lemma settles_now [simp]:
  "settles ops ok pid s (fs_send pid 101 [] s)" "settles ops ok pid s (fs_send pid 200 [] s)"
  "settles ops ok pid s (fs_send pid 255 [] s)" "settles ops ok pid s (fs_send pid 101 (le_bytes 8 v) s)"
  by (simp_all add: send_settles)

lemma settles_after:
  assumes "streams ops ok pid s t"
  shows "settles ops ok pid s (fs_send pid 101 [] t)" "settles ops ok pid s (fs_send pid 200 [] t)"
    "settles ops ok pid s (fs_send pid 255 [] t)" "settles ops ok pid s (fs_send pid 101 (le_bytes 8 v) t)"
  using streams_settles[OF assms] by simp_all

lemma typed_read: "fs_typed ops ok s \<Longrightarrow> read_sector ops lba (disk s) = Some sec \<Longrightarrow> length sec = 512"
  by (auto simp: fs_typed_def sector_disk_def)

lemma write_streams:
  assumes "length sec = 512" "fs_write ops lba sec s = (b, t)"
  shows "streams ops ok pid s t"
proof -
  obtain d where d: "write_sector ops lba sec (disk s) = (b, d)" "t = s\<lparr>disk := d\<rparr>"
    using assms(2) by (auto simp: fs_write_def split: prod.splits)
  have "fs_typed ops ok s \<longrightarrow> fs_typed ops ok t"
  proof
    assume "fs_typed ops ok s"
    then have "ok (snd (write_sector ops lba sec (disk s)))" "sector_disk ops ok" "bytes_per_sector s = 512"
      "length (file_buf s) = 32768"
      using assms(1) by (simp_all add: fs_typed_def sector_disk_def)
    then show "fs_typed ops ok t" using d by (simp add: fs_typed_def)
  qed
  then show ?thesis by (intro streams_quietly[where d = d and buf = "file_buf s"]) (simp_all add: d(2))
qed

section \<open>The allocation table\<close>

text \<open>The entry of any cluster number, valid or not, lies inside one sector.\<close>

lemma fat_position_typed:
  assumes "fs_typed ops ok s"
  obtains lba off where "fat_position s c = Inr (lba, off)" "off + 4 \<le> 512"
proof -
  have "unat (c * 4 mod 512) = unat (c * 4) mod 512" by (simp add: unat_mod)
  also have "\<dots> = 4 * (unat c mod 128)"
    by (simp add: unat_word_ariths mod_mod_cancel mult_mod_right mult.commute)
  finally have "unat (c * 4 mod 512) + 4 \<le> 512" using mod_less_divisor[of 128 "unat c"] by simp
  then show ?thesis using assms that by (auto simp: fat_position_def fs_typed_def Let_def)
qed

lemma next_cluster_fine: "fs_typed ops ok s \<Longrightarrow> fine (\<lambda>_. True) (next_cluster ops s c)"
  by (frule fat_position_typed[of _ _ _ c])
    (auto simp: next_cluster_def get32_def get_bytes_def dest: typed_read split: option.split)

lemma set_fat_entry_fine:
  assumes "fs_typed ops ok s"
  shows "fine (\<lambda>(b, t). streams ops ok pid s t) (set_fat_entry ops c v s)"
proof -
  obtain lba off where f: "fat_position s c = Inr (lba, off)" "off + 4 \<le> 512"
    using fat_position_typed[OF assms] by blast
  show ?thesis
  proof (cases "read_sector ops lba (disk s)")
    case None
    then show ?thesis using f stream.unchanged by (simp add: set_fat_entry_def)
  next
    case (Some sec)
    then have len: "length sec = 512" using typed_read[OF assms] by simp
    obtain old where "get32 off sec = Inr old" using get32_in_range[of off sec] f(2) len by auto
    moreover obtain sec' where "put32 off ((old AND 0xF0000000) OR (v AND 0x0FFFFFFF)) sec = Inr sec'" "length sec' = 512"
      using put32_in_range[of off sec] f(2) len by fastforce
    ultimately show ?thesis using f Some write_streams[of sec']
      by (auto simp: set_fat_entry_def)
  qed
qed

lemma alloc_loop_fine:
  "fs_typed ops ok s \<Longrightarrow> fine (\<lambda>(c, t). streams ops ok pid s t) (alloc_loop ops c m s)"
proof (induction ops c m s rule: alloc_loop.induct)
  case (1 ops c m s)
  show ?case
  proof (cases "c < m")
    case True
    obtain n where n: "next_cluster ops s c = Inr n \<or> next_cluster ops s c = Inl (Page_Fault 0)"
      using next_cluster_fine[OF "1.prems", of c] by (cases "next_cluster ops s c") auto
    then show ?thesis
      using True "1.IH"[of n] "1.prems" set_fat_entry_fine[OF "1.prems", of pid c EOC]
      by (subst alloc_loop.simps) (auto intro!: fine_bind[of "\<lambda>(b, t). streams ops ok pid s t"])
  qed (subst alloc_loop.simps, simp add: stream.unchanged)
qed

lemma alloc_cluster_fine:
  "fs_typed ops ok s \<Longrightarrow> fine (\<lambda>(c, t). streams ops ok pid s t) (alloc_cluster ops s)"
  unfolding alloc_cluster_def by (rule alloc_loop_fine)

lemma free_cluster_chain_safe:
  assumes "fs_typed ops ok s"
  shows "safe (streams ops ok pid s) (free_cluster_chain ops c s)"
  using assms
proof (induction arbitrary: c s rule: free_cluster_chain.fixp_induct)
  case (3 f)
  have rec: "safe (streams ops ok pid s) (f ops n t)" if "streams ops ok pid s t" for n t
    using "3.IH"[of t n] streams_typed[OF that 3(2)] that by (blast intro: safe_mono stream.then_rel)
  show ?case
    using rec stream.unchanged
    by (auto intro!: safe_try[OF next_cluster_fine[OF 3(2)]] safe_try[OF set_fat_entry_fine[OF 3(2), of pid]])
qed (auto simp: curry_def intro!: safe_admissible)

section \<open>Directories\<close>

lemma scan_entries_Return: "scan_entries f offs = Return r \<Longrightarrow> \<exists>off \<in> set offs. f off = Return r"
  by (induction offs) (auto split: scan.splits)

lemma scan_sectors_Return:
  "scan_sectors ops f base s is = Return (Some r) \<Longrightarrow>
    \<exists>lba sec. read_sector ops lba (disk s) = Some sec \<and> f lba sec = Return r"
  by (induction "is") (auto split: option.splits scan.splits)

text \<open>What a search finds is what the test of a sector of 512 bytes can give.\<close>

lemma walk_dir_safe:
  assumes "fs_typed ops ok s" "\<And>lba sec r. length sec = 512 \<Longrightarrow> f lba sec = Return r \<Longrightarrow> Q r"
  shows "safe (pred_option Q) (walk_dir ops f c s)"
proof (induction arbitrary: c rule: walk_dir.fixp_induct)
  case (3 g)
  have "pred_option Q r" if "scan_sectors ops f (cluster_to_sector s c) s [0..<unat (sectors_per_cluster s)] = Return r" for r
    using scan_sectors_Return[of ops f _ s] that assms(2) typed_read[OF assms(1)] by (cases r) fastforce+
  then show ?case using "3.IH" by (auto split: scan.split intro!: safe_try[OF next_cluster_fine[OF assms(1)]])
qed (auto simp: curry_def intro!: safe_admissible)

text \<open>A place found in a directory: a sector and the offset of an entry inside it.\<close>

definition place :: "u32 \<times> u8 list \<times> nat \<Rightarrow> bool" where
  "place x \<longleftrightarrow> (case x of (lba, sec, off) \<Rightarrow> length sec = 512 \<and> off + 32 \<le> 512)"

lemma match_entry_place: "length sec = 512 \<Longrightarrow> match_entry name lba sec = Return r \<Longrightarrow> pred_option place r"
  unfolding match_entry_def by (drule scan_entries_Return) (auto simp: place_def dest: entry_offsets_range split: if_splits)

lemma unused_entry_place: "length sec = 512 \<Longrightarrow> unused_entry lba sec = Return r \<Longrightarrow> place r"
  unfolding unused_entry_def by (drule scan_entries_Return) (auto simp: place_def dest: entry_offsets_range split: if_splits)

lemma locate_safe: "fs_typed ops ok s \<Longrightarrow> safe (pred_option place) (locate ops c name s)"
  unfolding locate_def
  by (rule safe_and_then[OF walk_dir_safe[where Q = "pred_option place"]]) (auto dest: match_entry_place split: option.split)

lemma find_in_dir_safe: "fs_typed ops ok s \<Longrightarrow> safe (\<lambda>_. True) (find_in_dir ops c name b s)"
  unfolding find_in_dir_def by (rule safe_and_then[OF locate_safe]) (auto split: option.split)

lemma resolve_path_safe: "fs_typed ops ok s \<Longrightarrow> safe (\<lambda>_. True) (resolve_path ops path s)"
  unfolding resolve_path_def by (auto split: option.split intro!: safe_and_then[OF find_in_dir_safe] find_in_dir_safe)

lemma resolve_parent_safe: "fs_typed ops ok s \<Longrightarrow> safe (\<lambda>_. True) (resolve_parent ops path s)"
  unfolding resolve_parent_def by (auto split: option.split intro!: safe_and_then[OF find_in_dir_safe])

lemma free_dir_entry_safe:
  assumes "fs_typed ops ok s"
  shows "safe (\<lambda>(pos, t). streams ops ok pid s t \<and> pred_option (\<lambda>off. off + 32 \<le> 512) pos) (free_dir_entry ops c s)"
  unfolding free_dir_entry_def
  by (rule safe_and_then[OF walk_dir_safe[OF assms unused_entry_place]])
    (auto simp: place_def stream.unchanged split: option.split prod.split intro: write_streams)

lemma delete_entry_safe:
  assumes "fs_typed ops ok s"
  shows "safe (\<lambda>(b, t). streams ops ok pid s t) (delete_entry ops c name s)"
proof -
  have "safe (\<lambda>(b, t). streams ops ok pid s t) (and_then (free_cluster_chain ops d t) (\<lambda>s. Some (Inr (True, s))))"
    if "streams ops ok pid s t" for d t
    by (rule safe_and_then[OF free_cluster_chain_safe[OF streams_typed[OF that assms], of pid]])
      (use that in \<open>auto intro: stream.then_rel\<close>)
  moreover have "streams ops ok pid s t" if "fs_write ops lba (sec[off := x]) s = (b, t)" "place (lba, sec, off)" for lba sec off x b t
    using that by (auto simp: place_def intro: write_streams[of "sec[off := x]"])
  ultimately show ?thesis
    unfolding delete_entry_def
    by (intro safe_and_then[OF locate_safe[OF assms]])
      (auto simp: stream.unchanged split: option.split prod.split)
qed

section \<open>File data\<close>

lemma put_sectors_fine:
  "fs_typed ops ok s \<Longrightarrow> fine (\<lambda>(b, left, t). streams ops ok pid s t) (put_sectors ops sbase is bytes s)"
proof (induction "is" arbitrary: bytes s)
  case Nil
  then show ?case by (simp add: stream.unchanged)
next
  case (Cons i "is")
  show ?case
  proof (cases "bytes = []")
    case False
    let ?sec = "take 512 bytes @ replicate (512 - length (take 512 bytes)) 0"
    obtain b t where w: "fs_write ops (sbase + of_nat i) ?sec s = (b, t)" by fastforce
    then have st: "streams ops ok pid s t" by (intro write_streams[of ?sec]) auto
    have "fine (\<lambda>(b, left, u). streams ops ok pid s u) (put_sectors ops sbase is (drop 512 bytes) t)"
      by (rule fine_mono[OF Cons.IH[OF streams_typed[OF st Cons.prems]]]) (use st in \<open>auto intro: stream.then_rel\<close>)
    then show ?thesis using False w st Cons.prems by (simp add: fs_typed_def Let_def)
  qed (simp add: stream.unchanged)
qed

lemma write_loop_safe:
  assumes "fs_typed ops ok s"
  shows "safe (\<lambda>(b, t). streams ops ok pid s t) (write_loop ops c prev bytes s)"
  using assms
proof (induction arbitrary: c prev bytes s rule: write_loop.fixp_induct)
  case (3 f)
  let ?Q = "\<lambda>(b :: bool, t). streams ops ok pid s t"
  have step: "safe ?Q (try_res (put_sectors ops base is w t) (\<lambda>(ok, left, u).
      if ok then try_res (next_cluster ops u d) (\<lambda>n. f ops n d (left @ rest) u) else Some (Inr (False, u))))"
    if t: "streams ops ok pid s t" for base "is" w t d rest
  proof (rule safe_try[OF put_sectors_fine[OF streams_typed[OF t 3(2)], of pid]])
    fix x :: "bool \<times> u8 list \<times> _"
    assume "case x of (b, left, u) \<Rightarrow> streams ops ok pid t u"
    then obtain b left u where x: "x = (b, left, u)" "streams ops ok pid s u" using stream.then_rel[OF t] by (cases x) auto
    have "safe ?Q (f ops n d bs u)" for n bs
      by (rule safe_mono[OF "3.IH"[OF streams_typed[OF x(2) 3(2)]]]) (use x(2) in \<open>auto intro: stream.then_rel\<close>)
    then show "safe ?Q (case x of (ok, left, u) \<Rightarrow>
        if ok then try_res (next_cluster ops u d) (\<lambda>n. f ops n d (left @ rest) u) else Some (Inr (False, u)))"
      using x by (auto intro!: safe_try[OF next_cluster_fine[OF streams_typed[OF x(2) 3(2)]]])
  qed
  have linked: "fine (\<lambda>(target, u). streams ops ok pid s u) (bind_res (set_fat_entry ops prev n t)
      (\<lambda>(ok, u). Inr (if ok then Some n else None, u)))" if t: "streams ops ok pid s t" for n t
    by (rule fine_bind[OF set_fat_entry_fine[OF streams_typed[OF t 3(2)], of pid]]) (use t in \<open>auto intro: stream.then_rel\<close>)
  have target: "fine (\<lambda>(target, t). streams ops ok pid s t)
      (if in_chain c then Inr (Some c, s)
       else bind_res (alloc_cluster ops s) (\<lambda>(new_c, s).
         if new_c = 0 then Inr (None, s)
         else if prev \<noteq> 0 then bind_res (set_fat_entry ops prev new_c s) (\<lambda>(ok, s). Inr (if ok then Some new_c else None, s))
         else Inr (Some new_c, s)))"
    using linked stream.unchanged by (auto intro!: fine_bind[OF alloc_cluster_fine[OF 3(2), of pid]])
  show ?case
  proof (cases "bytes = []")
    case False
    show ?thesis
      unfolding if_not_P[OF False] by (rule safe_try[OF target]) (auto intro!: step split: option.split simp: Let_def)
  qed (simp add: stream.unchanged)
qed (auto simp: curry_def intro!: safe_admissible)

lemma send_streams:
  "length bytes \<le> 64 \<Longrightarrow> streams ops ok pid s (fs_send pid 100 bytes s)"
proof -
  assume "length bytes \<le> 64"
  then have "list_all (data_msg pid) [(pid, 100, bytes)]" by (simp add: data_msg_def)
  moreover have "fs_send pid 100 bytes s = s\<lparr>disk := disk s, file_buf := file_buf s, outbox := outbox s @ [(pid, 100, bytes)]\<rparr>"
    by (simp add: fs_send_def)
  moreover have "fs_typed ops ok s \<longrightarrow> fs_typed ops ok (fs_send pid 100 bytes s)" by (simp add: fs_send_def fs_typed_def)
  ultimately show ?thesis unfolding streams_def by blast
qed

lemma in_sector:
  fixes x c e :: nat
  assumes "x + c \<le> e" "e \<le> 512 * (x div 512 + 1)"
  shows "x mod 512 + c \<le> 512"
proof -
  have "512 * (x div 512) + x mod 512 = x" by simp
  then show ?thesis using assms by (simp only: distrib_left)
qed

text \<open>The pieces of one sector never reach over its end.\<close>

lemma send_chunks_fine:
  assumes "fs_typed ops ok s" "length sec = 512" "unat fin \<le> 512 * (unat off div 512 + 1)"
  shows "fine (\<lambda>(o', t). streams ops ok pid s t \<and> o' = (if off < fin then fin else off)) (send_chunks sec pid off fin s)"
  using assms
proof (induction sec pid off fin s rule: send_chunks.induct)
  case (1 sec pid off fin s)
  show ?case
  proof (cases "off < fin")
    case True
    define chunk where "chunk = (if fin - off > 59 then 59 else fin - off)"
    note ch = chunk_step[OF True, folded chunk_def]
    have le: "unat chunk \<le> 59" by (auto simp: chunk_def word_less_nat_alt)
    have b: "bytes_per_sector s = 512" using 1(2) by (simp add: fs_typed_def)
    have "unat off mod 512 + unat chunk \<le> 512" by (rule in_sector[OF ch(3) 1(4)])
    then have g: "get_bytes (unat (off mod 512)) (unat chunk) sec
        = Inr (take (unat chunk) (drop (unat off mod 512) sec))"
      using 1(3) by (simp add: get_bytes_def unat_mod)
    then have gg: "get_bytes (unat (off mod ucast (bytes_per_sector s))) (unat chunk) sec
        = Inr (take (unat chunk) (drop (unat off mod 512) sec))" using b by simp
    let ?t = "fs_send pid 100 (le_bytes 4 off @ [ucast chunk] @ take (unat chunk) (drop (unat off mod 512) sec)) s"
    have st: "streams ops ok pid s ?t" using le by (intro send_streams) simp
    have "unat fin \<le> 512 * (unat (off + chunk) div 512 + 1)"
      using 1(4) ch(1) div_le_mono[of "unat off" "unat (off + chunk)" 512] by simp
    then have "fine (\<lambda>(o', u). streams ops ok pid ?t u \<and> o' = (if off + chunk < fin then fin else off + chunk))
        (send_chunks sec pid (off + chunk) fin ?t)"
      by (intro "1.IH"[OF True chunk_def refl gg streams_typed[OF st 1(2)] 1(3)])
    moreover have "(if off + chunk < fin then fin else off + chunk) = fin"
      using ch by (simp add: word_less_nat_alt word_unat_eq_iff)
    ultimately have "fine (\<lambda>(o', u). streams ops ok pid s u \<and> o' = fin) (send_chunks sec pid (off + chunk) fin ?t)"
      by (elim fine_mono) (use st in \<open>auto intro: stream.then_rel\<close>)
    then show ?thesis using True g b by (subst send_chunks.simps) (simp add: Let_def chunk_def[symmetric])
  qed (subst send_chunks.simps, simp add: stream.unchanged)
qed

lemma sector_step:
  fixes off :: u32
  assumes "512 dvd unat off"
  shows "512 dvd unat (off + 512)" "unat (off + 512) \<le> 512 * (unat off div 512 + 1)"
proof -
  have "(unat off + 512) mod 2 ^ 32 mod 512 = 0" using assms by (simp add: mod_mod_cancel dvd_eq_mod_eq_0)
  then show "512 dvd unat (off + 512)" by (simp add: unat_word_ariths dvd_eq_mod_eq_0)
  have "unat (off + 512) \<le> unat off + 512" by (simp add: unat_word_ariths)
  then show "unat (off + 512) \<le> 512 * (unat off div 512 + 1)" using assms by simp
qed

text \<open>
  The offset is a multiple of the sector size until the end of the file is reached; a failed read ends the request.
\<close>

lemma send_sectors_fine:
  assumes "fs_typed ops ok s" "512 dvd unat off \<or> \<not> off < sz"
  shows "fine (\<lambda>(b, o', t). if b then streams ops ok pid s t \<and> (512 dvd unat o' \<or> \<not> o' < sz) else settles ops ok pid s t)
    (send_sectors ops pid sbase sz is off s)"
  using assms
proof (induction "is" arbitrary: off s)
  case Nil
  then show ?case by (simp add: stream.unchanged)
next
  case (Cons i "is")
  show ?case
  proof (cases "off < sz")
    case True
    show ?thesis
    proof (cases "read_sector ops (sbase + of_nat i) (disk s)")
      case None
      then show ?thesis using True by simp
    next
      case (Some sec)
      have al: "512 dvd unat off" using Cons.prems(2) True by simp
      have b: "bytes_per_sector s = 512" using Cons.prems(1) by (simp add: fs_typed_def)
      let ?fin = "if off + 512 > sz then sz else off + 512"
      have f: "unat ?fin \<le> 512 * (unat off div 512 + 1)"
        using sector_step(2)[OF al] by (auto simp: word_less_nat_alt)
      have next_off: "512 dvd unat (if off < ?fin then ?fin else off) \<or> \<not> (if off < ?fin then ?fin else off) < sz"
        using al sector_step(1)[OF al] by auto
      have "fine (\<lambda>(b, o', t). if b then streams ops ok pid s t \<and> (512 dvd unat o' \<or> \<not> o' < sz) else settles ops ok pid s t)
          (bind_res (send_chunks sec pid off ?fin s) (\<lambda>(off, s). send_sectors ops pid sbase sz is off s))"
      proof (rule fine_bind[OF send_chunks_fine[OF Cons.prems(1) typed_read[OF Cons.prems(1) Some] f, of pid]])
        fix x
        assume "case x of (o', t) \<Rightarrow> streams ops ok pid s t \<and> o' = (if off < ?fin then ?fin else off)"
        then obtain o' t where x: "x = (o', t)" "streams ops ok pid s t" "512 dvd unat o' \<or> \<not> o' < sz"
          using next_off by (cases x) auto
        show "fine (\<lambda>(b, o', t). if b then streams ops ok pid s t \<and> (512 dvd unat o' \<or> \<not> o' < sz) else settles ops ok pid s t)
            (case x of (off, s) \<Rightarrow> send_sectors ops pid sbase sz is off s)"
          unfolding x(1) prod.case
          by (rule fine_mono[OF Cons.IH[OF streams_typed[OF x(2) Cons.prems(1)] x(3)]])
            (use x(2) in \<open>auto intro: stream.then_rel streams_settles\<close>)
      qed
      then show ?thesis using True Some b by (simp add: Let_def)
    qed
  qed (use Cons.prems in \<open>simp add: stream.unchanged\<close>)
qed

lemma send_file_safe:
  assumes "fs_typed ops ok s" "512 dvd unat off \<or> \<not> off < sz"
  shows "safe (settles ops ok pid s) (send_file ops pid sz c off s)"
  using assms
proof (induction arbitrary: c off s rule: send_file.fixp_induct)
  case (3 f)
  let ?R = "\<lambda>(b, o', t). if b then streams ops ok pid s t \<and> (512 dvd unat o' \<or> \<not> o' < sz) else settles ops ok pid s t"
  have go_on: "safe (settles ops ok pid s) (case x of (b, off, t) \<Rightarrow>
      if b then try_res (next_cluster ops t c) (\<lambda>n. f ops pid sz n off t) else Some (Inr t))" if x: "?R x" for x
  proof -
    obtain b o' t where e: "x = (b, o', t)" by (cases x)
    have "safe (settles ops ok pid s) (f ops pid sz n o' t)" if "streams ops ok pid s t" "512 dvd unat o' \<or> \<not> o' < sz" for n
      by (rule settles_then[OF that(1) "3.IH"[OF streams_typed[OF that(1) 3(2)] that(2)]])
    then show ?thesis using x unfolding e
      by (auto intro!: safe_try[OF next_cluster_fine[OF streams_typed[OF _ 3(2)]]])
  qed
  show ?case by (auto intro!: safe_try[OF send_sectors_fine[OF 3(2,3)] go_on])
qed (auto simp: curry_def intro!: safe_admissible)

text \<open>A file of at most 32768 bytes is loaded inside the buffer.\<close>

lemma load_sectors_fine:
  assumes "fs_typed ops ok s" "512 dvd unat off" "sz \<le> 32768"
  shows "fine (\<lambda>(b, o', t). streams ops ok pid s t \<and> 512 dvd unat o') (load_sectors ops sbase sz is off s)"
  using assms(1,2)
proof (induction "is" arbitrary: off s)
  case Nil
  then show ?case by (simp add: stream.unchanged)
next
  case (Cons i "is")
  show ?case
  proof (cases "off < sz")
    case True
    show ?thesis
    proof (cases "read_sector ops (sbase + of_nat i) (disk s)")
      case None
      then show ?thesis using True Cons.prems by (simp add: stream.unchanged)
    next
      case (Some sec)
      have len: "length sec = 512" "length (file_buf s) = 32768" "bytes_per_sector s = 512"
        using typed_read[OF Cons.prems(1) Some] Cons.prems(1) by (simp_all add: fs_typed_def)
      have "unat off < 32768" using True assms(3) by (simp add: word_less_nat_alt word_le_nat_alt)
      then have "unat off + 512 \<le> 32768" using Cons.prems(2) by (auto elim!: dvdE)
      then have "\<exists>buf. put_bytes (unat off) sec (file_buf s) = Inr buf" using len by (simp add: put_bytes_def)
      then obtain buf where buf: "put_bytes (unat off) sec (file_buf s) = Inr buf" "length buf = 32768"
        using len(2) put_bytes_Inr(3) by metis
      let ?t = "s\<lparr>file_buf := buf\<rparr>"
      have st: "streams ops ok pid s ?t"
        by (rule streams_quietly[where d = "disk s" and buf = buf]) (use buf(2) in \<open>simp_all add: fs_typed_def\<close>)
      have "fine (\<lambda>(b, o', u). streams ops ok pid s u \<and> 512 dvd unat o') (load_sectors ops sbase sz is (off + 512) ?t)"
        by (rule fine_mono[OF Cons.IH[OF streams_typed[OF st Cons.prems(1)] sector_step(1)[OF Cons.prems(2)]]])
          (use st in \<open>auto intro: stream.then_rel\<close>)
      then show ?thesis using True Some buf(1) len(3) by simp
    qed
  qed (use Cons.prems in \<open>simp add: stream.unchanged\<close>)
qed

lemma load_file_safe:
  assumes "fs_typed ops ok s" "512 dvd unat off" "sz \<le> 32768"
  shows "safe (\<lambda>(b, t). streams ops ok pid s t) (load_file ops sz c off s)"
  using assms(1,2)
proof (induction arbitrary: c off s rule: load_file.fixp_induct)
  case (3 f)
  have go_on: "safe (\<lambda>(b, t). streams ops ok pid s t) (case x of (b, off, t) \<Rightarrow>
      if b then try_res (next_cluster ops t c) (\<lambda>n. f ops sz n off t) else Some (Inr (False, t)))"
    if x: "case x of (b, o', t) \<Rightarrow> streams ops ok pid s t \<and> 512 dvd unat o'" for x
  proof -
    obtain b o' t where e: "x = (b, o', t)" "streams ops ok pid s t" "512 dvd unat o'" using x by (cases x) auto
    have "safe (\<lambda>(b, t). streams ops ok pid s t) (f ops sz n o' t)" for n
      by (rule safe_mono[OF "3.IH"[OF streams_typed[OF e(2) 3(2)] e(3)]]) (use e(2) in \<open>auto intro: stream.then_rel\<close>)
    then show ?thesis using e
      by (auto intro!: safe_try[OF next_cluster_fine[OF streams_typed[OF e(2) 3(2)]]])
  qed
  show ?case by (auto simp: stream.unchanged intro!: safe_try[OF load_sectors_fine[OF 3(2,3) assms(3)] go_on])
qed (auto simp: curry_def intro!: safe_admissible)

section \<open>Adding and changing entries\<close>

lemma length_patch_entry [simp]:
  "length sec = 512 \<Longrightarrow> off + 32 \<le> 512 \<Longrightarrow> length (patch_entry off c n sec) = 512"
  by (simp add: patch_entry_def Let_def)

lemma update_sector_safe:
  assumes "fs_typed ops ok s" "length sec = 512" "set offs \<subseteq> set entry_offsets"
  shows "safe (\<lambda>(r, t). streams ops ok pid s t) (update_sector ops name old start len lba offs sec found s)"
  using assms
proof (induction offs arbitrary: sec found s)
  case Nil
  then show ?case by (simp add: stream.unchanged)
next
  case (Cons off offs)
  let ?sec = "patch_entry off start len sec"
  have len: "length ?sec = 512" using Cons.prems(2,3) entry_offsets_range[of off] by simp
  have "safe (\<lambda>(r, t). streams ops ok pid s t) (and_then (free_cluster_chain ops old s) (\<lambda>s.
      let (ok, s) = fs_write ops lba ?sec s
      in if ok then update_sector ops name old start len lba offs ?sec 1 s else Some (Inr (None, s))))"
  proof (rule safe_and_then[OF free_cluster_chain_safe[OF Cons.prems(1), of pid]])
    fix t
    assume t: "streams ops ok pid s t"
    obtain b u where w: "fs_write ops lba ?sec t = (b, u)" by fastforce
    have u: "streams ops ok pid s u" using stream.then_rel[OF t write_streams[OF len w]] .
    have "safe (\<lambda>(r, t). streams ops ok pid s t) (update_sector ops name old start len lba offs ?sec 1 u)"
      by (rule safe_mono[OF Cons.IH[OF streams_typed[OF u Cons.prems(1)] len]])
        (use u Cons.prems(3) in \<open>auto intro: stream.then_rel\<close>)
    then show "safe (\<lambda>(r, t). streams ops ok pid s t) (let (ok, s) = fs_write ops lba ?sec t
      in if ok then update_sector ops name old start len lba offs ?sec 1 s else Some (Inr (None, s)))"
      using w u by simp
  qed
  then show ?case using Cons by (simp add: stream.unchanged Let_def)
qed

lemma update_sectors_safe:
  assumes "fs_typed ops ok s"
  shows "safe (\<lambda>(r, t). streams ops ok pid s t) (update_sectors ops name old start len base is found s)"
  using assms
proof (induction "is" arbitrary: found s)
  case (Cons i "is")
  have go_on: "safe (\<lambda>(r, t). streams ops ok pid s t) (update_sectors ops name old start len base is found' t)"
    if "streams ops ok pid s t" for found' t
    by (rule safe_mono[OF Cons.IH[OF streams_typed[OF that Cons.prems]]]) (use that in \<open>auto intro: stream.then_rel\<close>)
  then have "safe (\<lambda>(r, t). streams ops ok pid s t)
      (and_then (update_sector ops name old start len (base + of_nat i) entry_offsets sec found s) (\<lambda>(res, s).
        case res of None \<Rightarrow> Some (Inr (Write_Failed, s))
        | Some found \<Rightarrow> update_sectors ops name old start len base is found s))"
    if "read_sector ops (base + of_nat i) (disk s) = Some sec" for sec
    by (intro safe_and_then[OF update_sector_safe[OF Cons.prems typed_read[OF Cons.prems that]]])
      (auto split: option.split)
  then show ?case by (auto simp: stream.unchanged split: option.split)
qed (simp add: stream.unchanged)

lemma update_entry_safe:
  assumes "fs_typed ops ok s"
  shows "safe (\<lambda>(r, t). streams ops ok pid s t) (update_entry ops name old start len c found s)"
  using assms
proof (induction arbitrary: c found s rule: update_entry.fixp_induct)
  case (3 f)
  have go_on: "safe (\<lambda>(r, t). streams ops ok pid s t) (case r of
        Found found \<Rightarrow> try_res (next_cluster ops t c) (\<lambda>n. f ops name old start len n found t)
      | _ \<Rightarrow> Some (Inr (r, t)))"
    if t: "streams ops ok pid s t" for r t
  proof -
    have "safe (\<lambda>(r, t). streams ops ok pid s t) (f ops name old start len n found' t)" for n found'
      by (rule safe_mono[OF "3.IH"[OF streams_typed[OF t 3(2)]]]) (use t in \<open>auto intro: stream.then_rel\<close>)
    then show ?thesis using t
      by (auto intro!: safe_try[OF next_cluster_fine[OF streams_typed[OF t 3(2)]]] split: update_end.split)
  qed
  show ?case
    by (auto simp: stream.unchanged and_then_def[symmetric]
        intro!: safe_and_then[OF update_sectors_safe[OF 3(2), of pid]] go_on)
qed (auto simp: curry_def intro!: safe_admissible)

lemma length_put_zeros [simp]: "length (put_zeros i n e) = length e"
  unfolding put_zeros_def by (induction n) simp_all

lemma length_put_name [simp]: "length (put_name name e) = length e"
proof -
  have "length (fold (\<lambda>i e. e[i := name ! i]) is e) = length e" for "is" by (induction "is" arbitrary: e) simp_all
  then show ?thesis by (simp only: put_name_def)
qed

lemma length_entries [simp]:
  "length (file_entry name c n) = 32" "length (dir_entry name c) = 32" "length (dir_sector c p) = 512"
  by (simp_all add: file_entry_def dir_entry_def dir_sector_def put_cluster_def Let_def)

lemma give_up_safe:
  assumes "fs_typed ops ok s"
  shows "safe (settles ops ok pid s) (give_up ops pid start s)"
  unfolding give_up_def
  by (rule safe_and_then[OF free_cluster_chain_safe[OF assms, of pid]]) (auto intro: settles_after)

lemma insert_entry_safe:
  assumes "fs_typed ops ok s" "length e = 32"
  shows "safe (settles ops ok pid s) (insert_entry ops pid parent start e s)"
proof -
  have give_up: "safe (settles ops ok pid s) (give_up ops pid start t)" if "streams ops ok pid s t" for t
    by (rule settles_then[OF that give_up_safe[OF streams_typed[OF that assms(1)]]])
  have store: "safe (settles ops ok pid s) (try_res (put_bytes (off mod 512) e sec) (\<lambda>sec.
      let (ok, s) = fs_write ops lba sec t in if ok then Some (Inr (fs_send pid 200 [] s)) else give_up ops pid start s))"
    if t: "streams ops ok pid s t" and sec: "length sec = 512" "off + 32 \<le> 512" for t sec off lba
  proof (rule safe_try[of "\<lambda>sec. length sec = 512"])
    show "fine (\<lambda>sec. length sec = 512) (put_bytes (off mod 512) e sec)"
      using sec assms(2) by (simp add: put_bytes_def)
    fix sec' :: "u8 list"
    assume "length sec' = 512"
    moreover obtain b u where w: "fs_write ops lba sec' t = (b, u)" by fastforce
    ultimately have "streams ops ok pid s u" using stream.then_rel[OF t write_streams] by blast
    then show "safe (settles ops ok pid s) (let (ok, s) = fs_write ops lba sec' t
        in if ok then Some (Inr (fs_send pid 200 [] s)) else give_up ops pid start s)"
      using w give_up by (auto intro: settles_after)
  qed
  show ?thesis
    unfolding insert_entry_def
    by (rule safe_and_then[OF free_dir_entry_safe[OF assms(1), of pid]])
      (auto simp: Let_def split: option.split
        intro!: give_up store[unfolded Let_def] dest: typed_read[OF streams_typed[OF _ assms(1)]])
qed

section \<open>Requests\<close>

text \<open>A request as \<^verbatim>\<open>recv\<close> delivers it; its string ends in the bytes of the length at the latest.\<close>

definition received :: "request \<Rightarrow> bool" where
  "received r \<longleftrightarrow> length (req_data r) = 64 \<and> unat (req_length r) \<le> 64"

lemma recv_delivers:
  assumes "length bytes \<le> 64" "length (req_data buf) = 64"
  shows "received (recv_into (pid, code, bytes) buf)"
proof -
  have "unat (of_nat (length bytes) :: u64) = length bytes" using assms(1) by (simp add: unat_of_nat)
  then show ?thesis using assms by (simp add: received_def recv_into_def)
qed

lemma req_string_fine: "received r \<Longrightarrow> fine (\<lambda>_. True) (req_string r)"
proof -
  assume "received r"
  then have "drop_bit 8 (req_length r) = 0"
    by (simp add: received_def word_unat_eq_iff drop_bit_eq_div unat_div)
  then have "0 \<in> set (le_bytes 8 (req_length r))" by (simp add: numeral_eq_Suc)
  then show ?thesis by (simp add: req_string_def msg_bytes_def)
qed

lemma handle_read_safe:
  assumes "fs_typed ops ok s" "received r"
  shows "safe (settles ops ok (req_sender r) s) (handle_read ops r s)"
  unfolding handle_read_def using send_file_safe[OF assms(1)]
  by (intro safe_try[OF req_string_fine[OF assms(2)]] safe_and_then[OF resolve_path_safe[OF assms(1)]])
    (auto split: option.split)

lemma handle_spawn_safe:
  assumes "fs_typed ops ok s" "received r"
  shows "safe (settles ops ok (req_sender r) s) (handle_spawn spawn ops r s)"
proof -
  have "safe (settles ops ok (req_sender r) s) (and_then (load_file ops sz c 0 s) (\<lambda>(ok, s).
      if \<not> ok then Some (Inr (fs_send (req_sender r) 255 [] s))
      else let (res, pid) = spawn (take (unat sz) (file_buf s))
           in if res = 0 then Some (Inr (fs_send (req_sender r) 101 (le_bytes 8 pid) s))
              else Some (Inr (fs_send (req_sender r) 255 [] s))))" if "\<not> sz > 32768" for sz c
    by (rule safe_and_then[OF load_file_safe[OF assms(1), where pid = "req_sender r"]])
      (use that in \<open>auto split: prod.split intro: settles_after\<close>)
  then show ?thesis
    unfolding handle_spawn_def Let_def
    by (intro safe_try[OF req_string_fine[OF assms(2)]] safe_and_then[OF resolve_path_safe[OF assms(1)]])
      (auto split: option.split)
qed

lemma handle_delete_safe:
  assumes "fs_typed ops ok s" "received r"
  shows "safe (settles ops ok (req_sender r) s) (handle_delete ops r s)"
proof -
  have "safe (settles ops ok (req_sender r) s) (and_then (delete_entry ops c name s) (\<lambda>(ok, s).
      Some (Inr (fs_send (req_sender r) (if ok then 200 else 255) [] s))))" for c name
    by (rule safe_and_then[OF delete_entry_safe[OF assms(1), of "req_sender r"]]) (auto intro: settles_after)
  then show ?thesis
    unfolding handle_delete_def
    by (intro safe_try[OF req_string_fine[OF assms(2)]] safe_and_then[OF resolve_parent_safe[OF assms(1)]])
      (auto split: option.split)
qed

lemma handle_mkdir_safe:
  assumes "fs_typed ops ok s" "received r"
  shows "safe (settles ops ok (req_sender r) s) (handle_mkdir ops r s)"
proof -
  let ?pid = "req_sender r"
  have made: "safe (settles ops ok ?pid s) (let (ok, s) = fs_write ops lba (dir_sector c p) t
      in if ok then insert_entry ops ?pid p c (dir_entry name c) s else give_up ops ?pid c s)"
    if t: "streams ops ok ?pid s t" for lba c p t name
  proof -
    obtain b u where w: "fs_write ops lba (dir_sector c p) t = (b, u)" by fastforce
    have u: "streams ops ok ?pid s u" using stream.then_rel[OF t write_streams[OF _ w]] by simp
    note ty = streams_typed[OF u assms(1)]
    have "safe (settles ops ok ?pid u) (insert_entry ops ?pid p c (dir_entry name c) u)"
      "safe (settles ops ok ?pid u) (give_up ops ?pid c u)"
      using insert_entry_safe[OF ty] give_up_safe[OF ty] by simp_all
    then show ?thesis using w settles_then[OF u] by simp
  qed
  have "safe (settles ops ok ?pid s) (try_res (alloc_cluster ops s) (\<lambda>(c, s).
      if c = 0 then Some (Inr (fs_send ?pid 255 [] s))
      else let (ok, s) = fs_write ops (cluster_to_sector s c) (dir_sector c p) s
           in if ok then insert_entry ops ?pid p c (dir_entry (to_8_3 name) c) s else give_up ops ?pid c s))" for p name
    using made by (intro safe_try[OF alloc_cluster_fine[OF assms(1), of ?pid]]) (auto intro: settles_after)
  then show ?thesis
    unfolding handle_mkdir_def Let_def
    by (intro safe_try[OF req_string_fine[OF assms(2)]] safe_and_then[OF resolve_parent_safe[OF assms(1)]])
      (auto split: option.split)
qed

lemma write_entry_safe:
  assumes "fs_typed ops ok s"
  shows "safe (settles ops ok pid s) (write_entry ops pid name exists parent start len s)"
proof -
  have give_up: "safe (settles ops ok pid s) (give_up ops pid start t)" if "streams ops ok pid s t" for t
    by (rule settles_then[OF that give_up_safe[OF streams_typed[OF that assms]]])
  show ?thesis
    unfolding write_entry_def using insert_entry_safe[OF assms]
    by (auto split: option.split update_end.split
        intro!: safe_and_then[OF update_entry_safe[OF assms, of pid]] give_up intro: settles_after)
qed

lemma write_data_safe:
  assumes "fs_typed ops ok s" "received r" "n = u64_to_int (req_length r) - int k" "\<not> n < 0"
  shows "safe (settles ops ok (req_sender r) s) (write_data ops r name exists parent k n s)"
proof -
  let ?pid = "req_sender r"
  have stored: "safe (settles ops ok ?pid s) (and_then (write_file_data ops start data t) (\<lambda>(ok, s).
      if ok then write_entry ops ?pid name exists parent start len s else give_up ops ?pid start s))"
    if t: "streams ops ok ?pid s t" for start data t len
    unfolding write_file_data_def
  proof (rule settles_then[OF t], rule safe_and_then[OF write_loop_safe[OF streams_typed[OF t assms(1)], of ?pid]])
    fix x :: "bool \<times> 'a fs"
    assume "case x of (b, u) \<Rightarrow> streams ops ok ?pid t u"
    then obtain b u where x: "x = (b, u)" "streams ops ok ?pid t u" by (cases x) auto
    note ty = streams_typed[OF stream.then_rel[OF t x(2)] assms(1)]
    show "safe (settles ops ok ?pid t) (case x of (ok, s) \<Rightarrow>
        if ok then write_entry ops ?pid name exists parent start len s else give_up ops ?pid start s)"
      using settles_then[OF x(2) give_up_safe[OF ty]] settles_then[OF x(2) write_entry_safe[OF ty]]
      by (simp add: x(1))
  qed
  have len: "u64_to_int (req_length r) = int (unat (req_length r))" "unat (req_length r) \<le> 64"
    using assms(2) u64_to_int_small[of "req_length r"] by (simp_all add: received_def word_less_nat_alt)
  then have "k + nat n \<le> 64" using assms(3,4) by linarith
  then have data: "fine (\<lambda>_. True) (get_bytes k (nat n) (req_data r))"
    using assms(2) by (simp add: received_def get_bytes_def)
  have alloc: "fine (\<lambda>(c, t). streams ops ok ?pid s t) (if 0 < n then alloc_cluster ops s else Inr (0, s))"
    using alloc_cluster_fine[OF assms(1)] by (simp add: stream.unchanged)
  show ?thesis
    unfolding write_data_def
    by (rule safe_try[OF alloc]) (auto intro: settles_after intro!: safe_try[OF data] stored)
qed

lemma handle_write_safe:
  assumes "fs_typed ops ok s" "received r"
  shows "safe (settles ops ok (req_sender r) s) (handle_write ops r s)"
  unfolding handle_write_def Let_def
proof (rule safe_try[OF req_string_fine[OF assms(2)]], goal_cases)
  case (1 path)
  show ?case
    using write_data_safe[OF assms refl, of "Suc (length path)"]
    by (auto split: option.split intro!: safe_and_then[OF resolve_parent_safe[OF assms(1)]]
        safe_and_then[OF find_in_dir_safe[OF assms(1)]])
qed

lemmas handlers_safe = handle_read_safe handle_spawn_safe handle_write_safe handle_delete_safe handle_mkdir_safe

lemma handle_request_safe:
  "fs_typed ops ok s \<Longrightarrow> received r \<Longrightarrow> safe (settles ops ok (req_sender r) s) (handle_request spawn ops r s)"
  unfolding handle_request_def by (auto intro: handlers_safe)

lemma settles_outbox:
  assumes "settles ops ok pid s t"
  shows "\<exists>data reply text. outbox t = outbox s @ data @ [(pid, reply, text)] \<and> list_all (data_msg pid) data
    \<and> reply \<in> {101, 200, 255} \<and> length text \<le> 64"
  using assms unfolding settles_def streams_def fs_send_def by fastforce


lemma fs_demo_typed: "fs_typed ram_ops ram_ok fs_demo"
  by (auto simp: fs_typed_def sector_disk_def fs_demo_def ram_ops_def ram_ok_def split: if_splits)


section \<open>The running server\<close>

text \<open>The closing messages, and the bound on every message.\<close>

definition closing :: "sent_msg list \<Rightarrow> sent_msg list" where
  "closing ms = filter (\<lambda>m. fst (snd m) \<noteq> 100) ms"

definition short :: "sent_msg list \<Rightarrow> bool" where
  "short ms \<longleftrightarrow> list_all (\<lambda>m. length (snd (snd m)) \<le> 64) ms"

lemma settles_closing:
  assumes "settles ops ok pid s t" "short (outbox s)"
  shows "map fst (closing (outbox t)) = map fst (closing (outbox s)) @ [pid]" "short (outbox t)"
proof -
  obtain data reply bytes where t: "outbox t = outbox s @ data @ [(pid, reply, bytes)]" "list_all (data_msg pid) data"
      "reply \<in> {101, 200, 255}" "length bytes \<le> 64"
    using settles_outbox[OF assms(1)] by blast
  have "closing data = []" "short data"
    using t(2) by (auto simp: closing_def short_def list_all_iff data_msg_def filter_empty_conv)
  then show "map fst (closing (outbox t)) = map fst (closing (outbox s)) @ [pid]" "short (outbox t)"
    using t assms(2) by (auto simp: closing_def short_def)
qed

lemma fat32_loop_safe:
  assumes "fs_typed ops ok s" "short ms" "length (req_data req) = 64" "short (outbox s)"
  shows "safe (\<lambda>t. fs_typed ops ok t \<and> short (outbox t)
      \<and> map fst (closing (outbox t)) = map fst (closing (outbox s)) @ map fst ms)
    (fat32_loop spawn ops ms req s)"
  using assms
proof (induction ms arbitrary: req s)
  case (Cons m ms)
  obtain pid code bytes where m: "m = (pid, code, bytes)" by (cases m)
  let ?r = "recv_into m req"
  have r: "received ?r" "req_sender ?r = pid" "length (req_data ?r) = 64"
    using recv_delivers[of bytes req pid code] Cons.prems(2,3) by (simp_all add: m short_def recv_into_def)
  have "safe (settles ops ok pid s) (handle_request spawn ops ?r s)"
    using handle_request_safe[OF Cons.prems(1) r(1)] r(2) by simp
  then show ?case
    unfolding fat32_loop.simps
  proof (rule safe_and_then)
    fix t
    assume t: "settles ops ok pid s t"
    note c = settles_closing[OF t Cons.prems(4)]
    have "short ms" using Cons.prems(2) by (simp add: short_def)
    from Cons.IH[OF settles_typed[OF t Cons.prems(1)] this r(3) c(2)]
    show "safe (\<lambda>t. fs_typed ops ok t \<and> short (outbox t)
        \<and> map fst (closing (outbox t)) = map fst (closing (outbox s)) @ map fst (m # ms)) (fat32_loop spawn ops ms ?r t)"
      by (rule safe_mono) (simp add: c(1) m)
  qed
qed simp

lemma init_fs_typed:
  assumes "sector_disk ops ok" "ok (disk s)" "length (file_buf s) = 32768"
    and "read_sector ops 0 (disk s) = Some sec" "get16 0x0B sec = Inr 512"
  shows "\<exists>t. init_fs ops s = Inr (True, t) \<and> fs_typed ops ok t \<and> outbox t = outbox s"
proof -
  have "length sec = 512" using assms(1,2,4) unfolding sector_disk_def by blast
  then show ?thesis
    using assms by (simp add: init_fs_def get16_def get32_def get8_def get_bytes_def fs_typed_def)
qed


definition boot_sector_demo :: "u8 list" where
  "boot_sector_demo = (replicate 512 0)[0x0C := 2, 0x0D := 1, 0x0E := 1, 0x10 := 1, 0x24 := 1, 0x2C := 2]"


end
