(* ===== verification/User_Drivers.thy ===== *)
theory User_Drivers
  imports User_Messages
begin

text \<open>
  The device drivers among the user programs: the serial server
  (\<^verbatim>\<open>_sdk/user_backup/serial.c\<close>), the keyboard driver (\<^verbatim>\<open>keyboard_driver.c\<close>) and the
  disk driver (\<^verbatim>\<open>disk.c\<close>). They reach their ports through the system calls 4 and 5, which the
  kernel answers with one port read or write each. Shown: what the disk driver answers on
  every outcome of the transfer, and what the keyboard driver can send at all.
\<close>

section \<open>The serial server\<close>

definition put_byte :: "u8 \<Rightarrow> 'a machine_scheme \<Rightarrow> 'a machine_scheme option" where
  "put_byte b s = Option.bind (wait_tx s) (\<lambda>s. Some (outb 0x3F8 b s))"

primrec put_bytes_out :: "u8 list \<Rightarrow> 'a machine_scheme \<Rightarrow> 'a machine_scheme option" where
  "put_bytes_out [] s = Some s"
| "put_bytes_out (b # bs) s = Option.bind (put_byte b s) (put_bytes_out bs)"

definition serial_message :: "request \<Rightarrow> 'a machine_scheme \<Rightarrow> 'a machine_scheme res option" where
  "serial_message msg s =
     (if req_type msg = 0 then map_option Inr (put_byte (req_data msg ! 0) s)
      else if req_type msg = 1 then try_res (req_string msg) (\<lambda>str. map_option Inr (put_bytes_out str s))
      else Some (Inr s))"

text \<open>The inner loop, over the messages that are there; the structure is reused.\<close>

primrec serial_drain ::
  "sent_msg list \<Rightarrow> request \<Rightarrow> 'a machine_scheme \<Rightarrow> 'a machine_scheme res option" where
  "serial_drain [] msg s = Some (Inr s)"
| "serial_drain (m # ms) msg s =
     and_then (serial_message (recv_into m msg) s) (serial_drain ms (recv_into m msg))"

text \<open>One round of the server: the waiting messages, then at most one received character.\<close>

definition serial_round :: "sent_msg list \<Rightarrow> request \<Rightarrow> 'a uproc_scheme \<Rightarrow> 'a uproc_scheme res option" where
  "serial_round ms msg s =
     and_then (serial_drain ms msg s) (\<lambda>s.
       let (status, s) = inb 0x3FD s
       in if status AND 1 \<noteq> 0
          then let (c, s) = inb 0x3F8 s in Some (Inr (u_send 4 0 [c] s))
          else Some (Inr s))"

text \<open>The endless loop, for the messages that are waiting in each of its rounds.\<close>

primrec serial_loop :: "sent_msg list list \<Rightarrow> request \<Rightarrow> 'a uproc_scheme \<Rightarrow> 'a uproc_scheme res option" where
  "serial_loop [] msg s = Some (Inr s)"
| "serial_loop (ms # rounds) msg s =
     and_then (serial_round ms msg s) (serial_loop rounds (fold recv_into ms msg))"

section \<open>The keyboard driver\<close>

definition keymap :: "u8 list" where
  "keymap =
     [0, 0] @ map of_char ''1234567890-='' @ [0] @
     [0] @ map of_char ''qwertyuiop[]'' @ [0, 0] @
     map of_char ''asdfghjkl;'' @ [0, 0, 0, 0] @
     map of_char ''zxcvbnm,./'' @ [0] @ map of_char ''*'' @ [0] @ map of_char '' ''"

definition keyboard_message :: "request \<Rightarrow> 'a uproc_scheme \<Rightarrow> 'a uproc_scheme" where
  "keyboard_message msg s =
     (if req_sender msg = 0 \<and> req_type msg = 0
      then
        let sc = req_data msg ! 0
        in if sc AND 0x80 = 0 \<and> unat sc < length keymap
           then let c = keymap ! unat sc in if c \<noteq> 0 then u_send 4 0 [c] s else s
           else s
      else s)"

primrec keyboard_loop :: "sent_msg list \<Rightarrow> request \<Rightarrow> 'a uproc_scheme \<Rightarrow> 'a uproc_scheme" where
  "keyboard_loop [] msg s = s"
| "keyboard_loop (m # ms) msg s = keyboard_loop ms (recv_into m msg) (keyboard_message (recv_into m msg) s)"

section \<open>The disk driver\<close>

text \<open>The status is polled at most ten million times.\<close>

primrec ata_wait :: "nat \<Rightarrow> 'a machine_scheme \<Rightarrow> bool \<times> 'a machine_scheme" where
  "ata_wait 0 s = (False, s)"
| "ata_wait (Suc tries) s =
     (let (status, s) = inb 0x1F7 s
      in if status AND 0x80 = 0 then (status AND 1 = 0, s) else ata_wait tries s)"

abbreviation ATA_TRIES :: nat where "ATA_TRIES \<equiv> 10000000"

primrec read_data :: "nat \<Rightarrow> 'a machine_scheme \<Rightarrow> u8 list \<times> 'a machine_scheme" where
  "read_data 0 s = ([], s)"
| "read_data (Suc n) s =
     (let (lo, s) = inb 0x1F0 s; (hi, s) = inb 0x1F0 s; (bs, s) = read_data n s in (lo # hi # bs, s))"

definition ata_select :: "u32 \<Rightarrow> u8 \<Rightarrow> 'a machine_scheme \<Rightarrow> 'a machine_scheme" where
  "ata_select lba drive s =
     (let s = outb 0x1F6 (push_bit 4 drive OR 0xE0 OR ucast (drop_bit 24 lba AND 0x0F)) s;
          s = snd (inb 0x1F7 (snd (inb 0x1F7 (snd (inb 0x1F7 (snd (inb 0x1F7 s)))))));
          s = outb 0x1F2 1 s;
          s = outb 0x1F3 (ucast (lba AND 0xFF)) s;
          s = outb 0x1F4 (ucast (drop_bit 8 lba AND 0xFF)) s;
          s = outb 0x1F5 (ucast (drop_bit 16 lba AND 0xFF)) s;
          s = outb 0x1F7 0x20 s
      in snd (inb 0x1F7 s))"

definition ata_read :: "u32 \<Rightarrow> u8 \<Rightarrow> 'a machine_scheme \<Rightarrow> u8 list option \<times> 'a machine_scheme" where
  "ata_read lba drive s =
     (let (ok, s) = ata_wait ATA_TRIES (ata_select lba drive s)
      in if ok then let (sector, s) = read_data 256 s in (Some sector, s) else (None, s))"

definition disk_message :: "request \<Rightarrow> 'a uproc_scheme \<Rightarrow> 'a uproc_scheme" where
  "disk_message req s =
     (if req_type req = 0
      then
        let lba = le_word (take 4 (req_data req)); drive = req_data req ! 4;
            (r, s) = ata_read lba drive s
        in (case r of
              Some sector \<Rightarrow>
                fold (\<lambda>ch. u_send (req_sender req) (100 + of_nat ch) (take 64 (drop (ch * 64) sector))) [0..<8] s
            | None \<Rightarrow> u_send (req_sender req) 255 [] s)
      else s)"

primrec disk_loop :: "sent_msg list \<Rightarrow> request \<Rightarrow> 'a uproc_scheme \<Rightarrow> 'a uproc_scheme" where
  "disk_loop [] req s = s"
| "disk_loop (m # ms) req s = disk_loop ms (recv_into m req) (disk_message (recv_into m req) s)"

section \<open>What the disk driver answers\<close>

text \<open>The bytes read from the data port (oldest first), the last status and the number of status reads.\<close>

fun data_in :: "io_event list \<Rightarrow> u8 list" where
  "data_in [] = []"
| "data_in (In_Port p v # es) = (if p = 0x1F0 then data_in es @ [ucast v] else data_in es)"
| "data_in (e # es) = data_in es"

fun status_in :: "io_event list \<Rightarrow> u8 list" where
  "status_in [] = []"
| "status_in (In_Port p v # es) = (if p = 0x1F7 then ucast v # status_in es else status_in es)"
| "status_in (e # es) = status_in es"

text \<open>The value a register was last given, and the sector address in the four registers.\<close>

fun reg_out :: "u16 \<Rightarrow> io_event list \<Rightarrow> u8" where
  "reg_out p [] = 0"
| "reg_out p (Out_Byte q v # es) = (if q = p then v else reg_out p es)"
| "reg_out p (e # es) = reg_out p es"

definition ata_address :: "io_event list \<Rightarrow> nat" where
  "ata_address es =
     unat (reg_out 0x1F3 es) + 256 * unat (reg_out 0x1F4 es) + 65536 * unat (reg_out 0x1F5 es)
     + 16777216 * unat (reg_out 0x1F6 es AND 0x0F)"

lemma byte_cast [simp]: "ucast (ucast (b :: u8) :: u16) = b"
  by (rule bit_word_eqI) (auto simp: bit_ucast_iff)

lemma ata_wait_polls:
  "\<exists>ok es. ata_wait (Suc n) s = (ok, s\<lparr>io_log := es\<rparr>) \<and> data_in es = data_in (io_log s)
     \<and> (\<forall>p. reg_out p es = reg_out p (io_log s))
     \<and> (ok \<longleftrightarrow> hd (status_in es) AND 0x80 = 0 \<and> hd (status_in es) AND 1 = 0)
     \<and> length (status_in es) \<le> length (status_in (io_log s)) + Suc n
     \<and> (hd (status_in es) AND 0x80 \<noteq> 0 \<longrightarrow> length (status_in es) = length (status_in (io_log s)) + Suc n)"
proof (induction n arbitrary: s)
  case 0
  let ?v = "ucast (device s (io_log s) 0x1F7) :: u8"
  show ?case
    by (intro exI[of _ "?v AND 0x80 = 0 \<and> ?v AND 1 = 0"] exI[of _ "In_Port 0x1F7 (ucast ?v) # io_log s"])
      (simp add: inb_def Let_def)
next
  case (Suc n)
  let ?v = "ucast (device s (io_log s) 0x1F7) :: u8"
  let ?s = "s\<lparr>io_log := In_Port 0x1F7 (ucast ?v) # io_log s\<rparr>"
  show ?case
  proof (cases "?v AND 0x80 = 0")
    case True
    then show ?thesis
      by (intro exI[of _ "?v AND 1 = 0"] exI[of _ "In_Port 0x1F7 (ucast ?v) # io_log s"])
        (subst ata_wait.simps, simp add: inb_def Let_def)
  next
    case False
    then have "ata_wait (Suc (Suc n)) s = ata_wait (Suc n) ?s"
      by (subst ata_wait.simps) (simp add: inb_def Let_def)
    then show ?thesis using Suc[of ?s] by auto
  qed
qed

lemma read_data_reads:
  "\<exists>bs es. read_data n s = (bs, s\<lparr>io_log := es\<rparr>) \<and> length bs = 2 * n
     \<and> data_in es = data_in (io_log s) @ bs \<and> status_in es = status_in (io_log s)
     \<and> (\<forall>p. reg_out p es = reg_out p (io_log s))"
proof (induction n arbitrary: s)
  case 0
  then show ?case by (intro exI[of _ "[]"] exI[of _ "io_log s"]) simp
next
  case (Suc n)
  define a where "a = (ucast (device s (io_log s) 0x1F0) :: u8)"
  define e where "e = In_Port 0x1F0 (ucast a) # io_log s"
  define b where "b = (ucast (device s e 0x1F0) :: u8)"
  obtain bs es where "read_data n (s\<lparr>io_log := In_Port 0x1F0 (ucast b) # e\<rparr>) = (bs, s\<lparr>io_log := es\<rparr>)"
      "length bs = 2 * n" "data_in es = data_in (In_Port 0x1F0 (ucast b) # e) @ bs"
      "status_in es = status_in e" "\<forall>p. reg_out p es = reg_out p e"
    using Suc[of "s\<lparr>io_log := In_Port 0x1F0 (ucast b) # e\<rparr>"] by auto
  then show ?case
    by (intro exI[of _ "a # b # bs"] exI[of _ es]) (simp add: inb_def Let_def a_def e_def b_def)
qed

lemma unat_byte_at:
  fixes lba :: u32
  shows "unat (ucast (drop_bit n lba) :: u8) = unat lba div 2 ^ n mod 256"
proof -
  have "take_bit 32 (unat lba) = unat lba"
    using unsigned_less[of lba, where 'a = nat] by (intro take_bit_nat_eq_self) simp
  then have "unat (drop_bit n lba) = unat lba div 2 ^ n"
    by (simp only: unsigned_drop_bit_eq) (simp add: drop_bit_eq_div)
  then show ?thesis by (simp only: unsigned_ucast_eq) (simp add: take_bit_eq_mod)
qed

lemma byte_of_lba:
  fixes lba :: u32
  shows "unat (ucast (drop_bit n lba AND 0xFF) :: u8) = unat lba div 2 ^ n mod 256"
proof -
  have "(ucast (take_bit 8 w) :: u8) = ucast w" for w :: u32
    by (rule bit_word_eqI) (simp add: bit_ucast_iff bit_take_bit_iff)
  from this[of "drop_bit n lba"] show ?thesis
    using unat_byte_at[of n lba] by (simp add: take_bit_eq_mask mask_eq_exp_minus_1)
qed

lemma low_nibble:
  fixes d :: u8
  assumes "x AND 0x0F = x"
  shows "(push_bit 4 d OR 0xE0 OR x) AND 0x0F = x"
proof -
  have "push_bit 4 d AND 0x0F = 0"
    using take_bit_eq_mask[of 4 "push_bit 4 d"] by (simp add: mask_eq_exp_minus_1 take_bit_push_bit)
  then show ?thesis using assms by (simp add: bit.conj_disj_distrib2)
qed

lemma nibble_of_lba:
  fixes lba :: u32
  defines "x \<equiv> ucast (drop_bit 24 lba AND 0x0F) :: u8"
  shows "x AND 0x0F = x" and "unat x = unat lba div 16777216 mod 16"
proof -
  have m: "(y AND 0x0F :: u8) = take_bit 4 y" "(z AND 0x0F :: u32) = take_bit 4 z" for y z
    by (simp_all add: take_bit_eq_mask mask_eq_exp_minus_1)
  have x: "x = take_bit 4 (ucast (drop_bit 24 lba))"
    unfolding x_def m by (rule bit_word_eqI) (auto simp: bit_ucast_iff bit_take_bit_iff)
  then show "x AND 0x0F = x" by (simp add: m)
  have "unat (ucast (drop_bit 24 lba) :: u8) = unat lba div 16777216 mod 256"
    using unat_byte_at[of 24 lba] by simp
  then show "unat x = unat lba div 16777216 mod 16"
    unfolding x by (simp only: unsigned_take_bit_eq) (simp add: take_bit_eq_mod mod_mod_cancel)
qed

lemma ata_select_registers:
  "\<exists>es. ata_select lba drive s = s\<lparr>io_log := es\<rparr> \<and> ata_address es = unat lba mod 2 ^ 28
    \<and> data_in es = data_in (io_log s) \<and> reg_out 0x1F7 es = 0x20
    \<and> length (status_in es) = length (status_in (io_log s)) + 5"
proof -
  obtain es where es: "ata_select lba drive s = s\<lparr>io_log := es\<rparr>"
      "reg_out 0x1F3 es = ucast (lba AND 0xFF)" "reg_out 0x1F4 es = ucast (drop_bit 8 lba AND 0xFF)"
      "reg_out 0x1F5 es = ucast (drop_bit 16 lba AND 0xFF)"
      "reg_out 0x1F6 es = push_bit 4 drive OR 0xE0 OR ucast (drop_bit 24 lba AND 0x0F)"
      "data_in es = data_in (io_log s)" "reg_out 0x1F7 es = 0x20"
      "length (status_in es) = length (status_in (io_log s)) + 5"
    by (simp add: ata_select_def inb_def outb_def Let_def)
  have "reg_out 0x1F6 es AND 0x0F = ucast (drop_bit 24 lba AND 0x0F)"
    unfolding es(5) by (rule low_nibble[OF nibble_of_lba(1)])
  then have "ata_address es = unat lba mod 256 + 256 * (unat lba div 2 ^ 8 mod 256)
      + 65536 * (unat lba div 2 ^ 16 mod 256) + 16777216 * (unat lba div 16777216 mod 16)"
    unfolding ata_address_def es(2-4) nibble_of_lba(2)[symmetric] using byte_of_lba[of 0 lba]
    by (simp add: byte_of_lba)
  also have "\<dots> = unat lba mod 2 ^ 28"
    using mod_mult2_eq[of "unat lba" 256 "1048576"] mod_mult2_eq[of "unat lba div 256" 256 4096]
      mod_mult2_eq[of "unat lba div 65536" 256 16]
    by (simp add: div_mult2_eq[symmetric])
  finally show ?thesis using es by blast
qed

lemma sent_fold_send:
  "sent (fold (\<lambda>ch. u_send pid (f ch) (g ch)) xs s) = sent s @ map (\<lambda>ch. (pid, f ch, take 64 (g ch))) xs"
  "io_log (fold (\<lambda>ch. u_send pid (f ch) (g ch)) xs s) = io_log s"
  by (induction xs arbitrary: s) (simp_all add: u_send_def)

text \<open>The reply to a sector read: eight pieces of 64 bytes, numbered from 100.\<close>

definition sector_replies :: "u64 \<Rightarrow> u8 list \<Rightarrow> sent_msg list" where
  "sector_replies pid sector = map (\<lambda>ch. (pid, 100 + of_nat ch, take 64 (drop (ch * 64) sector))) [0..<8]"

lemma concat_pieces:
  "concat (map (\<lambda>ch. take k (drop (ch * k) xs)) [0..<n]) = take (n * k) xs"
  by (induction n) (simp_all add: take_add[symmetric] add.commute)

lemma disk_message_answers:
  assumes "req_type req = 0"
  shows "\<exists>t sector replies. t = disk_message req s
    \<and> ata_address (io_log t) = unat (le_word (take 4 (req_data req)) :: u32) mod 2 ^ 28 \<and> reg_out 0x1F7 (io_log t) = 0x20
    \<and> data_in (io_log t) = data_in (io_log s) @ sector \<and> sent t = sent s @ replies
    \<and> length (status_in (io_log t)) \<le> length (status_in (io_log s)) + 10000005
    \<and> (hd (status_in (io_log t)) AND 0x80 \<noteq> 0 \<longrightarrow>
         length (status_in (io_log t)) = length (status_in (io_log s)) + 10000005)
    \<and> (if hd (status_in (io_log t)) AND 0x80 = 0 \<and> hd (status_in (io_log t)) AND 1 = 0
       then length sector = 512 \<and> replies = sector_replies (req_sender req) sector
         \<and> concat (map (\<lambda>(_, _, d). d) replies) = sector
       else sector = [] \<and> replies = [(req_sender req, 255, [])])"
proof -
  let ?lba = "le_word (take 4 (req_data req)) :: u32" and ?d = "req_data req ! 4" and ?pid = "req_sender req"
  obtain es where es: "ata_select ?lba ?d s = s\<lparr>io_log := es\<rparr>" "ata_address es = unat ?lba mod 2 ^ 28"
      "data_in es = data_in (io_log s)" "reg_out 0x1F7 es = 0x20"
      "length (status_in es) = length (status_in (io_log s)) + 5"
    using ata_select_registers by blast
  have n: "Suc 9999999 = ATA_TRIES" by simp
  obtain ok fs where fs: "ata_wait ATA_TRIES (s\<lparr>io_log := es\<rparr>) = (ok, s\<lparr>io_log := fs\<rparr>)" "data_in fs = data_in es"
      "\<And>p. reg_out p fs = reg_out p es" "ok \<longleftrightarrow> hd (status_in fs) AND 0x80 = 0 \<and> hd (status_in fs) AND 1 = 0"
      "length (status_in fs) \<le> length (status_in es) + ATA_TRIES"
      "hd (status_in fs) AND 0x80 \<noteq> 0 \<Longrightarrow> length (status_in fs) = length (status_in es) + ATA_TRIES"
    using ata_wait_polls[of 9999999 "s\<lparr>io_log := es\<rparr>", unfolded n] by auto
  obtain bs gs where gs: "read_data 256 (s\<lparr>io_log := fs\<rparr>) = (bs, s\<lparr>io_log := gs\<rparr>)" "length bs = 512"
      "data_in gs = data_in fs @ bs" "status_in gs = status_in fs" "\<And>p. reg_out p gs = reg_out p fs"
    using read_data_reads[of 256 "s\<lparr>io_log := fs\<rparr>"] by auto
  have a: "ata_address fs = ata_address es" "ata_address gs = ata_address fs"
    by (simp_all add: ata_address_def fs(3) gs(5))
  have r: "ata_read ?lba ?d s = (if ok then (Some bs, s\<lparr>io_log := gs\<rparr>) else (None, s\<lparr>io_log := fs\<rparr>))"
    unfolding ata_read_def Let_def es(1) fs(1) prod.case gs(1) ..
  have c: "concat (map (\<lambda>(_, _, d). d) (sector_replies ?pid bs)) = bs"
    using concat_pieces[of 64 bs 8] gs(2) by (simp add: sector_replies_def o_def del: upt_rec_numeral)
  show ?thesis
  proof (cases ok)
    case True
    then have "disk_message req s = fold (\<lambda>ch. u_send ?pid (100 + of_nat ch) (take 64 (drop (ch * 64) bs))) [0..<8] (s\<lparr>io_log := gs\<rparr>)"
      using assms r by (simp add: disk_message_def)
    moreover from this have "sent (disk_message req s) = sent s @ sector_replies ?pid bs" "io_log (disk_message req s) = gs"
      by (simp_all add: sent_fold_send sector_replies_def del: upt_rec_numeral)
    ultimately show ?thesis
      using True es fs gs a c by (intro exI[of _ "disk_message req s"] exI[of _ bs] exI[of _ "sector_replies ?pid bs"]) auto
  next
    case False
    then have "disk_message req s = u_send ?pid 255 [] (s\<lparr>io_log := fs\<rparr>)"
      using assms r by (simp add: disk_message_def)
    then have "sent (disk_message req s) = sent s @ [(?pid, 255, [])]" "io_log (disk_message req s) = fs"
      by (simp_all add: u_send_def)
    then show ?thesis
      using False es fs a by (intro exI[of _ "disk_message req s"] exI[of _ "[]"] exI[of _ "[(?pid, 255, [])]"]) auto
  qed
qed

text \<open>
  C32: the disk driver answers every read request, after at most ten million status reads: it gives the drive the
  low 28 bits of the requested sector number; when the drive reports neither busy nor an error it
  sends the 512 bytes of the sector in eight messages of 64 bytes, in order, and otherwise a
  single error message (255) and reads no data.
\<close>

theorem disk_answers_read:
  assumes "req_type req = 0"
  shows "\<exists>t sector replies. t = disk_message req s
    \<and> ata_address (io_log t) = unat (le_word (take 4 (req_data req)) :: u32) mod 2 ^ 28 \<and> reg_out 0x1F7 (io_log t) = 0x20
    \<and> data_in (io_log t) = data_in (io_log s) @ sector \<and> sent t = sent s @ replies
    \<and> length (status_in (io_log t)) \<le> length (status_in (io_log s)) + 10000005
    \<and> (hd (status_in (io_log t)) AND 0x80 \<noteq> 0 \<longrightarrow>
         length (status_in (io_log t)) = length (status_in (io_log s)) + 10000005)
    \<and> (if hd (status_in (io_log t)) AND 0x80 = 0 \<and> hd (status_in (io_log t)) AND 1 = 0
       then length sector = 512 \<and> replies = sector_replies (req_sender req) sector
         \<and> concat (map (\<lambda>(_, _, d). d) replies) = sector
       else sector = [] \<and> replies = [(req_sender req, 255, [])])"
  using assms by (rule disk_message_answers)

definition uproc_demo :: uproc where
  "uproc_demo = \<lparr>mem = (\<lambda>_. 0), device = (\<lambda>_ p. if p = 0x1F7 then 0x50 else if p = 0x3FD then 0x20 else 0),
     io_log = [], console = [], sent = []\<rparr>"

theorem disk_answers_read_witness:
  "\<exists>t. t = disk_message \<lparr>req_sender = 7, req_type = 0, req_data = [2, 1, 0, 0, 1] @ replicate 59 0, req_length = 5\<rparr> uproc_demo
     \<and> ata_address (io_log t) = 258 \<and> length (sent t) \<in> {1, 8}"
  using disk_answers_read[of "\<lparr>req_sender = 7, req_type = 0, req_data = [2, 1, 0, 0, 1] @ replicate 59 0, req_length = 5\<rparr>" uproc_demo]
  by (auto simp: uproc_demo_def sector_replies_def le_word_def split: if_splits)

text \<open>
  The running driver: read requests are answered in their order, each by one sector or one
  error; messages of another type are ignored.
\<close>

definition disk_reply :: "sent_msg \<Rightarrow> sent_msg list \<Rightarrow> bool" where
  "disk_reply m r \<longleftrightarrow> r = [(fst m, 255, [])] \<or> (\<exists>sector. length sector = 512 \<and> r = sector_replies (fst m) sector)"

theorem disk_loop_answers:
  "\<exists>rs. sent (disk_loop ms req s) = sent s @ concat rs
     \<and> list_all2 disk_reply (filter (\<lambda>m. fst (snd m) = 0) ms) rs"
proof (induction ms arbitrary: req s)
  case (Cons m ms)
  let ?r = "recv_into m req"
  have r: "req_type ?r = fst (snd m)" "req_sender ?r = fst m" by (cases m; simp add: recv_into_def)+
  obtain rs where rs: "sent (disk_loop (m # ms) req s) = sent (disk_message ?r s) @ concat rs"
    "list_all2 disk_reply (filter (\<lambda>m. fst (snd m) = 0) ms) rs"
    using Cons[of ?r "disk_message ?r s"] by auto
  show ?case
  proof (cases "fst (snd m) = 0")
    case True
    obtain replies where "sent (disk_message ?r s) = sent s @ replies" "disk_reply m replies"
      using disk_message_answers[of ?r s] True r unfolding disk_reply_def by (metis (no_types, lifting))
    then have "sent (disk_loop (m # ms) req s) = sent s @ concat (replies # rs)
        \<and> list_all2 disk_reply (filter (\<lambda>m. fst (snd m) = 0) (m # ms)) (replies # rs)"
      using rs True by simp
    then show ?thesis by blast
  next
    case False
    then show ?thesis using rs r by (auto simp: disk_message_def)
  qed
qed simp

section \<open>What the keyboard driver can send\<close>

lemma keymap_lower: "length keymap = 58" "\<forall>c \<in> set keymap. c \<noteq> 0x0A \<and> c \<noteq> 0x0D"
  by (simp_all add: keymap_def)

text \<open>
  The table has no entry for the Enter key (scan code 28 is zero), so nothing the keyboard driver
  sends can end a line of the shell, which waits for a carriage return or a line feed.
\<close>

theorem keyboard_never_ends_line:
  "\<exists>ms. sent (keyboard_message msg s) = sent s @ ms \<and> length ms \<le> 1
     \<and> (\<forall>(pid, typ, bytes) \<in> set ms. pid = 4 \<and> typ = 0 \<and> (\<exists>c. bytes = [c] \<and> c \<in> set keymap \<and> c \<noteq> 0x0A \<and> c \<noteq> 0x0D))"
  using keymap_lower by (auto simp: keyboard_message_def u_send_def Let_def)

theorem keyboard_loop_sends:
  "\<exists>cs. sent (keyboard_loop ms msg s) = sent s @ map (\<lambda>c. (4, 0, [c])) cs \<and> length cs \<le> length ms
     \<and> set cs \<subseteq> set keymap - {0, 0x0A, 0x0D}"
proof (induction ms arbitrary: msg s)
  case (Cons m ms)
  let ?r = "recv_into m msg"
  obtain cs where cs: "sent (keyboard_loop (m # ms) msg s) = sent (keyboard_message ?r s) @ map (\<lambda>c. (4, 0, [c])) cs"
    "length cs \<le> length ms" "set cs \<subseteq> set keymap - {0, 0x0A, 0x0D}"
    using Cons[of ?r "keyboard_message ?r s"] by auto
  obtain ds where ds: "sent (keyboard_message ?r s) = sent s @ map (\<lambda>c. (4, 0, [c])) ds" "length ds \<le> 1"
    "set ds \<subseteq> set keymap - {0, 0x0A, 0x0D}"
  proof (cases "sent (keyboard_message ?r s) = sent s")
    case True
    then show ?thesis using that[of "[]"] by simp
  next
    case False
    then show ?thesis
      using that[of "[keymap ! unat (req_data ?r ! 0)]"] keymap_lower
      by (auto simp: keyboard_message_def u_send_def Let_def split: if_splits)
  qed
  have "sent (keyboard_loop (m # ms) msg s) = sent s @ map (\<lambda>c. (4, 0, [c])) (ds @ cs)" using cs(1) ds(1) by simp
  then show ?case using cs(2,3) ds(2,3) by (intro exI[of _ "ds @ cs"]) auto
qed simp

end
