(* ===== verification/User_Shell.thy ===== *)
theory User_Shell
  imports User_Drivers "HOL-Library.Signed_Division"
begin

text \<open>
  The shell (\<^verbatim>\<open>_sdk/user_backup/shell.c\<close>) and the command server it hands its lines to
  (\<^verbatim>\<open>command.c\<close>), which turns a line into a request to the FAT32 server and the reply into
  text. Texts are lists of bytes without their terminating zero. The contents of a message
  structure that no \<^verbatim>\<open>recv\<close> has filled yet are the parameter \<open>u\<close>.
\<close>

section \<open>The shell's output\<close>

definition shell_putc :: "u8 \<Rightarrow> 'a uproc_scheme \<Rightarrow> 'a uproc_scheme" where
  "shell_putc c = u_send 5 0 [c]"

text \<open>Pieces of at most 63 characters, each with a zero byte.\<close>

function shell_puts :: "u8 list \<Rightarrow> 'a uproc_scheme \<Rightarrow> 'a uproc_scheme" where
  "shell_puts str s =
     (if str = [] then s else shell_puts (drop 63 str) (u_send 5 1 (take 63 str @ [0]) s))"
  by pat_completeness auto
termination by (relation "measure (length \<circ> fst)") simp_all

declare shell_puts.simps [simp del]

abbreviation bytes_of :: "string \<Rightarrow> u8 list" where "bytes_of \<equiv> map of_char"

abbreviation crlf_bytes :: "u8 list" where "crlf_bytes \<equiv> [0x0D, 0x0A]"

definition shell_puthex :: "u64 \<Rightarrow> 'a uproc_scheme \<Rightarrow> 'a uproc_scheme" where
  "shell_puthex v = shell_puts (bytes_of (puthex_string v))"

section \<open>The shell's input and its requests\<close>

text \<open>\<^verbatim>\<open>getchar\<close> takes the first byte of any message.\<close>

definition getchar :: "request \<Rightarrow> sent_msg \<Rightarrow> u8" where
  "getchar u m = req_data (recv_into m u) ! 0"

text \<open>A line, echoed as it comes; from the 256th character on the rest is dropped.\<close>

primrec read_line ::
  "request \<Rightarrow> u8 list \<Rightarrow> sent_msg list \<Rightarrow> 'a uproc_scheme \<Rightarrow> (u8 list \<times> sent_msg list \<times> 'a uproc_scheme) option" where
  "read_line u buf [] s = None"
| "read_line u buf (m # ms) s =
     (let c = getchar u m
      in if c = 0x0D \<or> c = 0x0A then Some (buf, ms, shell_putc 0x0A (shell_putc 0x0D s))
         else read_line u (if length buf < 255 then buf @ [c] else buf) ms (shell_putc c s))"

text \<open>
  The replies of the command server: type 3 ends the shell (\<open>True\<close>), type 4 the command
  (\<open>False\<close>), every other type is text. Messages of other senders are dropped.
\<close>

primrec shell_replies ::
  "request \<Rightarrow> sent_msg list \<Rightarrow> 'a uproc_scheme \<Rightarrow> (bool \<times> sent_msg list \<times> 'a uproc_scheme) res option" where
  "shell_replies resp [] s = None"
| "shell_replies resp (m # ms) s =
     (let resp = recv_into m resp
      in if req_sender resp \<noteq> 3 then shell_replies resp ms s
         else if req_type resp = 3
         then try_res (req_string resp) (\<lambda>str. Some (Inr (True, ms, shell_puts str s)))
         else if req_type resp = 4 then Some (Inr (False, ms, s))
         else try_res (req_string resp) (\<lambda>str. shell_replies resp ms (shell_puts str s)))"

text \<open>
  One round of the shell: prompt, line, request, replies. An empty line, or one whose first
  character is zero, is not sent.
\<close>

definition shell_round ::
  "request \<Rightarrow> sent_msg list \<Rightarrow> 'a uproc_scheme \<Rightarrow> (bool \<times> sent_msg list \<times> 'a uproc_scheme) res option" where
  "shell_round u ms s =
     (case read_line u [] ms (shell_puts (bytes_of ''root@os:~$ '') s) of
        None \<Rightarrow> None
      | Some (buf, ms, s) \<Rightarrow>
          if (buf @ [0]) ! 0 = 0 then Some (Inr (False, ms, s))
          else shell_replies u ms (u_send 3 1 buf s))"

partial_function (option) shell_loop ::
  "request \<Rightarrow> sent_msg list \<Rightarrow> 'a uproc_scheme \<Rightarrow> 'a uproc_scheme res option" where
  "shell_loop u ms s =
     (case shell_round u ms s of
        None \<Rightarrow> None
      | Some r \<Rightarrow> try_res r (\<lambda>(fin, ms, s).
          if fin then Some (Inr (shell_puts (bytes_of ''shell: goodbye'' @ crlf_bytes) s))
          else shell_loop u ms s))"

definition shell_start :: "request \<Rightarrow> sent_msg list \<Rightarrow> 'a uproc_scheme \<Rightarrow> 'a uproc_scheme res option" where
  "shell_start u ms s =
     (let s = shell_puts ([0x1B] @ bytes_of ''[2J'' @ [0x1B] @ bytes_of ''[H'') s;
          s = shell_puts (bytes_of ''sborchikOS v0.2 (microkernel)'' @ crlf_bytes) s;
          s = shell_puts (bytes_of ''Type '' @ [0x27] @ bytes_of ''help'' @ [0x27] @ crlf_bytes @ crlf_bytes) s
      in shell_loop u ms s)"

section \<open>The command server\<close>

function send_str :: "u64 \<Rightarrow> u8 list \<Rightarrow> 'a uproc_scheme \<Rightarrow> 'a uproc_scheme" where
  "send_str pid str s = (if str = [] then s else send_str pid (drop 63 str) (u_send pid 2 (take 63 str) s))"
  by pat_completeness auto
termination by (relation "measure (length \<circ> fst \<circ> snd)") simp_all

declare send_str.simps [simp del]

text \<open>
  The position behind the spaces at \<open>off\<close>; a run of spaces up to the end of the structure
  leaves it.
\<close>

definition skip_spaces :: "nat \<Rightarrow> u8 list \<Rightarrow> nat res" where
  "skip_spaces off bytes =
     (let p = off + length (takeWhile (\<lambda>b. b = 0x20) (drop off bytes))
      in if p < length bytes then Inr p else Inl Undefined)"

text \<open>A path is passed on as 63 bytes from its first character.\<close>

definition send_path :: "u64 \<Rightarrow> nat \<Rightarrow> request \<Rightarrow> 'a uproc_scheme \<Rightarrow> 'a uproc_scheme res" where
  "send_path typ off msg s =
     bind_res (skip_spaces off (msg_bytes msg)) (\<lambda>p.
     if p + 63 \<le> length (msg_bytes msg) then Inr (u_send 7 typ (take 63 (drop p (msg_bytes msg))) s)
     else Inl Undefined)"

text \<open>\<^verbatim>\<open>while (recv(&resp) != 0 || resp.sender_pid != FAT32_PID)\<close>.\<close>

primrec await_fat32 :: "request \<Rightarrow> sent_msg list \<Rightarrow> (request \<times> sent_msg list) option" where
  "await_fat32 resp [] = None"
| "await_fat32 resp (m # ms) =
     (let resp = recv_into m resp
      in if req_sender resp = 7 then Some (resp, ms) else await_fat32 resp ms)"

text \<open>
  The replies to a read request, up to the error message or the end message; every pass of the
  loop has a structure of its own.
\<close>

primrec read_replies ::
  "u64 \<Rightarrow> request \<Rightarrow> request \<Rightarrow> sent_msg list \<Rightarrow> 'a uproc_scheme \<Rightarrow> (sent_msg list \<times> 'a uproc_scheme) option" where
  "read_replies shell u resp [] s = None"
| "read_replies shell u resp (m # ms) s =
     (let resp = recv_into m resp
      in if req_sender resp \<noteq> 7 then read_replies shell u resp ms s
         else if req_type resp = 255
         then Some (ms, u_send shell 4 [] (u_send shell 2 (bytes_of ''Error'' @ crlf_bytes) s))
         else if req_type resp = 101 then Some (ms, s)
         else if req_type resp = 100
         then
           let chunk_sz = unat (req_data resp ! 4)
           in read_replies shell u u ms (u_send shell 2 (take chunk_sz (drop 5 (msg_bytes resp))) s)
         else read_replies shell u u ms s)"

type_synonym 'a served = "(bool \<times> sent_msg list \<times> 'a uproc_scheme) res option"

definition cmd_read :: "request \<Rightarrow> request \<Rightarrow> sent_msg list \<Rightarrow> 'a uproc_scheme \<Rightarrow> 'a served" where
  "cmd_read u msg ms s =
     (let shell = req_sender msg
      in try_res (send_path 0 9 msg s) (\<lambda>s.
         case read_replies shell u u ms s of
           None \<Rightarrow> None
         | Some (ms, s) \<Rightarrow> Some (Inr (False, ms, u_send shell 4 [] (u_send shell 2 crlf_bytes s)))))"

text \<open>The identifier in hexadecimal without leading zeros.\<close>

definition pid_text :: "u64 \<Rightarrow> u8 list" where
  "pid_text pid =
     (let hex = bytes_of (puthex_string pid); z = min 15 (length (takeWhile (\<lambda>b. b = 0x30) hex))
      in drop z hex)"

definition cmd_spawn :: "request \<Rightarrow> request \<Rightarrow> sent_msg list \<Rightarrow> 'a uproc_scheme \<Rightarrow> 'a served" where
  "cmd_spawn u msg ms s =
     (let shell = req_sender msg
      in try_res (send_path 1 6 msg s) (\<lambda>s.
         case await_fat32 u ms of
           None \<Rightarrow> None
         | Some (resp, ms) \<Rightarrow>
             let s = (if req_type resp = 255 then send_str shell (bytes_of ''Spawn error'' @ crlf_bytes) s
                      else if req_type resp = 101
                      then
                        let pid = le_word (take 8 (req_data resp));
                            s = send_str shell (bytes_of ''Spawned PID '') s;
                            s = send_str shell (pid_text pid) s
                        in send_str shell crlf_bytes s
                      else s)
             in Some (Inr (False, ms, u_send shell 4 [] s))))"

text \<open>The digits of a reply code, as the characters the arithmetic gives.\<close>

definition err_text :: "u64 \<Rightarrow> u8 list" where
  "err_text typ =
     (let n = u64_to_int typ
      in bytes_of ''Err: '' @
         [word_of_int (n sdiv 100 + 0x30), word_of_int ((n sdiv 10) smod 10 + 0x30), word_of_int (n smod 10 + 0x30)] @
         crlf_bytes @ [0])"

definition cmd_write :: "request \<Rightarrow> request \<Rightarrow> sent_msg list \<Rightarrow> 'a uproc_scheme \<Rightarrow> 'a served" where
  "cmd_write u msg ms s =
     (let shell = req_sender msg; bytes = msg_bytes msg
      in try_res (skip_spaces 10 bytes) (\<lambda>p.
         let path = takeWhile (\<lambda>b. b \<noteq> 0 \<and> b \<noteq> 0x20) (drop p bytes); sep = p + length path
         in if \<not> sep < length bytes then Some (Inl Undefined)
            else if bytes ! sep = 0 \<or> path = []
            then Some (Inr (False, ms, send_str shell (bytes_of ''Usage: writefile <path> <data>'' @ crlf_bytes) s))
            else if 0 \<notin> set (drop (Suc sep) bytes) then Some (Inl Undefined)
            else
              let data = takeWhile (\<lambda>b. b \<noteq> 0) (drop (Suc sep) bytes);
                  name = take 50 path @ [0];
                  s = u_send 7 2 (name @ take (64 - length name) data) s
              in case await_fat32 u ms of
                   None \<Rightarrow> None
                 | Some (resp, ms) \<Rightarrow>
                     let s = (if req_type resp \<ge> 250 then u_send shell 2 (err_text (req_type resp)) s
                              else send_str shell (bytes_of ''OK'' @ crlf_bytes) s)
                     in Some (Inr (False, ms, u_send shell 4 [] s))))"

text \<open>Delete, make-directory and remove-directory differ in offset, request type and text.\<close>

definition cmd_path ::
  "u64 \<Rightarrow> nat \<Rightarrow> u8 list \<Rightarrow> request \<Rightarrow> request \<Rightarrow> sent_msg list \<Rightarrow> 'a uproc_scheme \<Rightarrow> 'a served" where
  "cmd_path typ off err u msg ms s =
     (let shell = req_sender msg
      in try_res (send_path typ off msg s) (\<lambda>s.
         case await_fat32 u ms of
           None \<Rightarrow> None
         | Some (resp, ms) \<Rightarrow>
             let s = send_str shell ((if req_type resp = 255 then err else bytes_of ''OK'') @ crlf_bytes) s
             in Some (Inr (False, ms, u_send shell 4 [] s))))"

definition help_text :: "u8 list" where
  "help_text =
     concat (map (\<lambda>l. bytes_of l @ crlf_bytes)
       [''Commands:'', ''  help'', ''  readfile <path>'', ''  spawn <path>'', ''  writefile <path> <data>'',
        ''  delete <path>'', ''  mkdir <path>'', ''  rmdir <path>'', ''  clear'', ''  exit''])"

text \<open>
  One request; the result says whether the server has exited, and the messages not yet
  received. \<open>cmd k\<close> is the \<open>k\<close>-th character of the line.
\<close>

definition command_message :: "request \<Rightarrow> request \<Rightarrow> sent_msg list \<Rightarrow> 'a uproc_scheme \<Rightarrow> 'a served" where
  "command_message u msg ms s =
     (let shell = req_sender msg; cmd = (\<lambda>k c. req_data msg ! k = of_char c)
      in if req_type msg \<noteq> 1 then Some (Inr (False, ms, s))
         else if cmd 0 CHR ''h'' then Some (Inr (False, ms, u_send shell 4 [] (send_str shell help_text s)))
         else if cmd 0 CHR ''c''
         then Some (Inr (False, ms,
                u_send shell 4 [] (send_str shell ([0x1B] @ bytes_of ''[2J'' @ [0x1B] @ bytes_of ''[H'') s)))
         else if cmd 0 CHR ''e''
         then Some (Inr (True, ms, u_send shell 3 [0] (send_str shell (bytes_of ''Bye!'' @ crlf_bytes) s)))
         else if cmd 0 CHR ''r'' \<and> cmd 1 CHR ''e'' then cmd_read u msg ms s
         else if cmd 0 CHR ''s'' \<and> cmd 1 CHR ''p'' then cmd_spawn u msg ms s
         else if cmd 0 CHR ''w'' then cmd_write u msg ms s
         else if cmd 0 CHR ''d'' then cmd_path 3 7 (bytes_of ''Delete error'') u msg ms s
         else if cmd 0 CHR ''m'' then cmd_path 4 6 (bytes_of ''Mkdir error'') u msg ms s
         else if cmd 0 CHR ''r'' \<and> cmd 1 CHR ''m'' then cmd_path 5 6 (bytes_of ''Rmdir error'') u msg ms s
         else Some (Inr (False, ms, u_send shell 4 [] (send_str shell (bytes_of ''Unknown'' @ crlf_bytes) s))))"

partial_function (option) command_loop ::
  "request \<Rightarrow> request \<Rightarrow> sent_msg list \<Rightarrow> 'a uproc_scheme \<Rightarrow> 'a uproc_scheme res option" where
  "command_loop u msg ms s =
     (case ms of
        [] \<Rightarrow> Some (Inr s)
      | m # ms \<Rightarrow>
          (case command_message u (recv_into m msg) ms s of
             None \<Rightarrow> None
           | Some r \<Rightarrow> try_res r (\<lambda>(fin, ms, s).
               if fin then Some (Inr s) else command_loop u (recv_into m msg) ms s)))"

text \<open>Only messages of type 1 are requests.\<close>

lemma command_loop_ignores:
  assumes "list_all (\<lambda>m. fst (snd m) \<noteq> 1) ms"
  shows "command_loop u msg ms s = Some (Inr s)"
  using assms
proof (induction ms arbitrary: msg)
  case Nil
  then show ?case by (subst command_loop.simps) simp
next
  case (Cons m ms)
  have "req_type (recv_into m msg) = fst (snd m)" by (cases m) (simp add: recv_into_def)
  then show ?case using Cons by (subst command_loop.simps) (simp add: command_message_def Let_def)
qed

section \<open>From the shell to the serial line\<close>

text \<open>The messages of a program as their receiver gets them, with the sender's identifier.\<close>

definition arriving :: "u64 \<Rightarrow> u64 \<Rightarrow> sent_msg list \<Rightarrow> sent_msg list" where
  "arriving sender pid ms = map (\<lambda>(_, typ, d). (sender, typ, d)) (filter (\<lambda>(q, _, _). q = pid) ms)"

lemma arriving_simps [simp]:
  "arriving a p [] = []"
  "arriving a p ((q, typ, d) # ms) = (if q = p then (a, typ, d) # arriving a p ms else arriving a p ms)"
  "arriving a p (ms @ ns) = arriving a p ms @ arriving a p ns"
  by (simp_all add: arriving_def)

definition chars_of :: "u8 list \<Rightarrow> string" where
  "chars_of bs = map (\<lambda>b. char_of (unat b)) bs"

lemma put_bytes_out_puts:
  fixes s :: "'a machine_scheme"
  shows "put_bytes_out bs s = puts (chars_of bs) s"
proof (induction bs arbitrary: s)
  case Nil
  then show ?case by (simp add: chars_of_def)
next
  case (Cons b bs)
  have "put_byte b s = putc (char_of (unat b)) s" by (simp add: put_byte_def putc_def byte_of_char)
  moreover have "put_bytes_out bs = (puts (chars_of bs) :: 'a machine_scheme \<Rightarrow> _)" by (rule ext) (rule Cons)
  ultimately show ?case by (simp add: chars_of_def o_def)
qed

lemma serial_prints_message:
  assumes "uart_responsive (device s)" "0 \<notin> set str"
  shows "\<exists>es. serial_message (recv_into (a, 1, str @ [0]) u) s = Some (Inr (s\<lparr>io_log := es\<rparr>))
    \<and> uart_out es = uart_out (io_log s) @ chars_of str"
proof -
  have "req_string (recv_into (a, 1, str @ [0]) u) = Inr str"
    using req_string_terminated[OF assms(2)] by (simp add: recv_into_def)
  then show ?thesis
    using puts_sends[OF assms(1), of "chars_of str"] by (auto simp: serial_message_def recv_into_def put_bytes_out_puts)
qed

lemma shell_puts_prints:
  assumes "0 \<notin> set str"
  shows "\<exists>ms. sent (shell_puts str c) = sent c @ ms
    \<and> (\<forall>u (s :: 'b machine_scheme). uart_responsive (device s) \<longrightarrow>
         (\<exists>es. serial_drain (arriving a 5 ms) u s = Some (Inr (s\<lparr>io_log := es\<rparr>))
            \<and> uart_out es = uart_out (io_log s) @ chars_of str))"
  using assms
proof (induction str c rule: shell_puts.induct)
  case (1 str c)
  show ?case
  proof (cases "str = []")
    case True
    then have "shell_puts str c = c" by (simp add: shell_puts.simps)
    moreover have "\<exists>es. Inr s = Inr (s\<lparr>io_log := es\<rparr>) \<and> uart_out es = uart_out (io_log s)" for s :: "'b machine_scheme"
      by (intro exI[of _ "io_log s"]) simp
    ultimately show ?thesis using True by (intro exI[of _ "[]"]) (simp add: chars_of_def)
  next
    case False
    let ?c = "u_send 5 1 (take 63 str @ [0]) c"
    have z: "0 \<notin> set (take 63 str)" "0 \<notin> set (drop 63 str)"
      using "1.prems" by (auto dest: in_set_takeD in_set_dropD)
    obtain ms where ms: "sent (shell_puts (drop 63 str) ?c) = sent ?c @ ms"
        "\<And>u (s :: 'b machine_scheme). uart_responsive (device s) \<Longrightarrow>
         \<exists>es. serial_drain (arriving a 5 ms) u s = Some (Inr (s\<lparr>io_log := es\<rparr>))
            \<and> uart_out es = uart_out (io_log s) @ chars_of (drop 63 str)"
      using "1.IH"[OF False z(2)] by blast
    have split: "chars_of str = chars_of (take 63 str) @ chars_of (drop 63 str)"
      by (simp add: chars_of_def flip: map_append)
    have "\<exists>es. serial_drain (arriving a 5 ((5, 1, take 63 str @ [0]) # ms)) u s = Some (Inr (s\<lparr>io_log := es\<rparr>))
        \<and> uart_out es = uart_out (io_log s) @ chars_of str" if r: "uart_responsive (device s)" for u and s :: "'b machine_scheme"
    proof -
      let ?u = "recv_into (a, 1, take 63 str @ [0]) u"
      obtain es where es: "serial_message ?u s = Some (Inr (s\<lparr>io_log := es\<rparr>))"
          "uart_out es = uart_out (io_log s) @ chars_of (take 63 str)"
        using serial_prints_message[OF r z(1)] by blast
      with ms(2)[of "s\<lparr>io_log := es\<rparr>" ?u] r split show ?thesis by auto
    qed
    moreover have "sent (shell_puts str c) = sent c @ (5, 1, take 63 str @ [0]) # ms"
      using False ms(1) by (subst shell_puts.simps) (simp add: u_send_def)
    ultimately show ?thesis by blast
  qed
qed



section \<open>A command and its answers\<close>

lemma recv_into_fields [simp]:
  "req_sender (recv_into (a, typ, d) u) = a" "req_type (recv_into (a, typ, d) u) = typ"
  "req_length (recv_into (a, typ, d) u) = of_nat (length d)"
  "length d \<le> 64 \<Longrightarrow> length (req_data u) = 64 \<Longrightarrow> length (req_data (recv_into (a, typ, d) u)) = 64"
  by (simp_all add: recv_into_def)

lemma length_msg_bytes: "length (req_data r) = 64 \<Longrightarrow> length (msg_bytes r) = 72"
  by (simp add: msg_bytes_def)

text \<open>A received text always ends inside the structure: the length field has a zero byte.\<close>

lemma received_string:
  assumes "length d \<le> 64"
  shows "\<exists>str. req_string (recv_into (a, typ, d) u) = Inr str"
proof -
  have "unat (of_nat (length d) :: u64) = length d" using assms by (simp add: unat_of_nat take_bit_nat_eq_self_iff)
  then have "drop_bit 8 (of_nat (length d) :: u64) = 0"
    using assms by (simp add: drop_bit_eq_div word_arith_nat_div)
  then have "0 \<in> set (le_bytes 8 (of_nat (length d) :: u64))" by (simp add: eval_nat_numeral)
  then show ?thesis by (simp add: req_string_def msg_bytes_def)
qed

text \<open>Between \<open>s\<close> and \<open>t\<close> the server has sent texts to \<open>p\<close> and requests to the FAT32 server.\<close>

definition says :: "u64 \<Rightarrow> 'a uproc_scheme \<Rightarrow> 'a uproc_scheme \<Rightarrow> bool" where
  "says p s t \<longleftrightarrow>
     (\<exists>ms. sent t = sent s @ ms \<and> (\<forall>(q, typ, d) \<in> set ms. (q = p \<and> typ = 2 \<or> q = 7) \<and> length d \<le> 64))"

lemma says_refl [simp]: "says p s s"
  by (simp add: says_def)

lemma says_trans: "says p s t \<Longrightarrow> says p t r \<Longrightarrow> says p s r"
  unfolding says_def by (elim exE conjE) (rule exI, intro conjI, simp, auto)

interpretation says: step_contract "says p" for p
  by unfold_locales (rule says_refl, rule says_trans)

lemma says_send: "says p s (u_send p 2 d s)" "says p s (u_send 7 typ d s)"
  by (simp_all add: says_def u_send_def)

lemma send_str_sent: "\<exists>ns. sent (send_str p str s) = sent s @ ns \<and> (\<forall>(q, ty, d) \<in> set ns. q = p \<and> ty = 2 \<and> length d \<le> 64)"
proof (induction p str s rule: send_str.induct)
  case (1 p str s)
  show ?case
  proof (cases "str = []")
    case False
    moreover from this obtain ns where "sent (send_str p (drop 63 str) (u_send p 2 (take 63 str) s)) = sent (u_send p 2 (take 63 str) s) @ ns"
        "\<forall>(q, ty, d) \<in> set ns. q = p \<and> ty = 2 \<and> length d \<le> 64"
      using "1.IH" by blast
    moreover from False have "send_str p str s = send_str p (drop 63 str) (u_send p 2 (take 63 str) s)"
      by (subst send_str.simps) simp
    ultimately have "sent (send_str p str s) = sent s @ (p, 2, take 63 str) # ns
        \<and> (\<forall>(q, ty, d) \<in> set ((p, 2, take 63 str) # ns). q = p \<and> ty = 2 \<and> length d \<le> 64)"
      by (simp add: u_send_def)
    then show ?thesis by blast
  qed (simp add: send_str.simps)
qed

lemma says_send_str: "says p s (send_str p str s)"
  using send_str_sent[of p str s] by (fastforce simp: says_def)

lemma says_more:
  "says p s t \<Longrightarrow> says p s (send_str p str t)" "says p s t \<Longrightarrow> says p s (u_send p 2 d t)"
  "says p s t \<Longrightarrow> says p s (u_send 7 typ d t)"
  by (blast intro: says.then_rel says_send_str says_send)+

lemma says_read_replies:
  "\<exists>(q, typ, d) \<in> set ms. q = 7 \<and> (typ = 101 \<or> typ = 255) \<Longrightarrow>
     \<exists>rest t. read_replies p u resp ms s = Some (rest, t)
       \<and> (says p s t \<or> (\<exists>r. says p s r \<and> t = u_send p 4 [] r \<and> (\<exists>d. (7, 255, d) \<in> set ms)))"
proof (induction ms arbitrary: resp s)
  case Nil
  then show ?case by simp
next
  case (Cons m ms)
  obtain q ty d where m: "m = (q, ty, d)" by (cases m)
  show ?case
  proof (cases "q = 7 \<and> (ty = 101 \<or> ty = 255)")
    case True
    then show ?thesis
      unfolding m by (auto simp: Let_def intro: says_send)
  next
    case False
    then have later: "\<exists>(q, typ, d) \<in> set ms. q = 7 \<and> (typ = 101 \<or> typ = 255)" using Cons.prems m by auto
    define v where "v = (if q = 7 then u else recv_into m resp)"
    define t where "t = (if q = 7 \<and> ty = 100
      then u_send p 2 (take (unat (req_data (recv_into m resp) ! 4)) (drop 5 (msg_bytes (recv_into m resp)))) s else s)"
    have t: "says p s t" "read_replies p u resp (m # ms) s = read_replies p u v ms t"
      using False by (auto simp: m v_def t_def Let_def intro: says_send)
    show ?thesis
      using Cons.IH[OF later, of v t] t says_trans[OF t(1)] by (auto; blast)
  qed
qed

lemma shell_reads_texts:
  "\<forall>(q, ty, d) \<in> set ts. q = 3 \<and> ty = 2 \<and> length d \<le> 64 \<Longrightarrow>
     \<exists>v t. shell_replies u (ts @ ms) s = shell_replies v ms t"
proof (induction ts arbitrary: u s)
  case (Cons m ts)
  obtain d where m: "m = (3, 2, d)" "length d \<le> 64" using Cons.prems by auto
  obtain str where "req_string (recv_into m u) = Inr str" using received_string[OF m(2)] m(1) by blast
  then have "shell_replies u ((m # ts) @ ms) s = shell_replies (recv_into m u) (ts @ ms) (shell_puts str s)"
    using m(1) by (simp add: Let_def)
  then show ?case using Cons.IH[of "recv_into m u" "shell_puts str s"] Cons.prems by auto
qed auto

text \<open>The answers from \<open>s\<close> to \<open>t\<close> make the shell's wait end, with \<open>left\<close> behind the last one it reads.\<close>

definition answers :: "u64 \<Rightarrow> bool \<Rightarrow> sent_msg list \<Rightarrow> bool \<Rightarrow> bool" where
  "answers p ex ms clean \<longleftrightarrow>
     (\<exists>ts d left. arriving 3 p ms = ts @ (3, if ex then 3 else 4, d) # left \<and> length d \<le> 64
        \<and> (\<forall>(q, ty, d) \<in> set ts. q = 3 \<and> ty = 2 \<and> length d \<le> 64) \<and> (clean \<longrightarrow> left = []))"

lemma answersI:
  assumes "\<forall>(q, ty, d) \<in> set (arriving 3 p ms). q = 3 \<and> ty = 2 \<and> length d \<le> 64" "length d \<le> 64"
    and "typ = (if ex then 3 else 4)" "clean \<longrightarrow> arriving 3 p left = []"
  shows "answers p ex (ms @ (p, typ, d) # left) clean"
  using assms unfolding answers_def
  by (intro exI[of _ "arriving 3 p ms"] exI[of _ d] exI[of _ "arriving 3 p left"]) simp

lemma answers_shell:
  assumes "answers p ex ms clean"
  shows "\<exists>left c'. shell_replies u (arriving 3 p ms) c = Some (Inr (ex, left, c')) \<and> (clean \<longrightarrow> left = [])"
proof -
  obtain ts d left where a: "arriving 3 p ms = ts @ (3, if ex then 3 else 4, d) # left" "length d \<le> 64"
      "\<forall>(q, ty, d) \<in> set ts. q = 3 \<and> ty = 2 \<and> length d \<le> 64" "clean \<longrightarrow> left = []"
    using assms by (auto simp: answers_def)
  obtain v t where "shell_replies u (arriving 3 p ms) c = shell_replies v ((3, if ex then 3 else 4, d) # left) t"
    using shell_reads_texts[OF a(3)] a(1) by metis
  moreover obtain str where "req_string (recv_into (3, 3, d) v) = Inr str" using received_string[OF a(2)] by blast
  ultimately show ?thesis using a(4) by (cases ex) (auto simp: Let_def)
qed

lemma says_arriving:
  assumes "says p s t" "p \<noteq> 7"
  obtains ms where "sent t = sent s @ ms" "\<forall>(q, ty, d) \<in> set (arriving 3 p ms). q = 3 \<and> ty = 2 \<and> length d \<le> 64"
proof -
  obtain ms where "sent t = sent s @ ms" "\<forall>(q, typ, d) \<in> set ms. (q = p \<and> typ = 2 \<or> q = 7) \<and> length d \<le> 64"
    using assms(1) by (auto simp: says_def)
  moreover from this(2) have "\<forall>(q, ty, d) \<in> set (arriving 3 p ms). q = 3 \<and> ty = 2 \<and> length d \<le> 64"
    using assms(2) by (auto simp: arriving_def)
  ultimately show ?thesis using that by blast
qed

lemma says_then_end:
  assumes "says p s r" "p \<noteq> 7" "typ = (if ex then 3 else 4)"
  shows "\<exists>ms. sent (u_send p typ d r) = sent s @ ms \<and> answers p ex ms True"
proof -
  obtain ms where "sent r = sent s @ ms" "\<forall>(q, ty, d) \<in> set (arriving 3 p ms). q = 3 \<and> ty = 2 \<and> length d \<le> 64"
    using says_arriving[OF assms(1,2)] .
  then show ?thesis
    using assms(3) answersI[of p ms "take 64 d" "typ" ex True "[]"]
    by (intro exI[of _ "ms @ [(p, typ, take 64 d)]"]) (simp add: u_send_def)
qed

section \<open>The prompt comes back\<close>

definition path_inside :: "nat \<Rightarrow> request \<Rightarrow> bool" where
  "path_inside off msg =
     (case skip_spaces off (msg_bytes msg) of Inl _ \<Rightarrow> False | Inr p \<Rightarrow> p + 63 \<le> length (msg_bytes msg))"

definition write_inside :: "request \<Rightarrow> bool" where
  "write_inside msg =
     (case skip_spaces 10 (msg_bytes msg) of
        Inl _ \<Rightarrow> False
      | Inr p \<Rightarrow>
          let bytes = msg_bytes msg; path = takeWhile (\<lambda>b. b \<noteq> 0 \<and> b \<noteq> 0x20) (drop p bytes); sep = p + length path
          in sep < length bytes \<and> bytes ! sep \<noteq> 0 \<and> path \<noteq> [] \<and> 0 \<in> set (drop (Suc sep) bytes))"

text \<open>A line whose arguments lie inside the message, and for \<^verbatim>\<open>writefile\<close> has both of them.\<close>

definition command_ok :: "request \<Rightarrow> bool" where
  "command_ok msg \<longleftrightarrow>
     (let cmd = (\<lambda>k c. req_data msg ! k = of_char c)
      in (cmd 0 CHR ''r'' \<and> cmd 1 CHR ''e'' \<longrightarrow> path_inside 9 msg)
       \<and> (cmd 0 CHR ''s'' \<and> cmd 1 CHR ''p'' \<longrightarrow> path_inside 6 msg)
       \<and> (cmd 0 CHR ''w'' \<longrightarrow> write_inside msg)
       \<and> (cmd 0 CHR ''d'' \<longrightarrow> path_inside 7 msg)
       \<and> (cmd 0 CHR ''m'' \<or> cmd 0 CHR ''r'' \<and> cmd 1 CHR ''m'' \<longrightarrow> path_inside 6 msg))"

lemma send_path_inside: "path_inside off msg \<Longrightarrow> \<exists>t. send_path typ off msg s = Inr t \<and> says p s t"
  by (auto simp: path_inside_def send_path_def split: sum.splits intro: says_send)

lemma await_fat32_returns: "7 \<in> fst ` set ms \<Longrightarrow> \<exists>resp rest. await_fat32 u ms = Some (resp, rest)"
proof (induction ms arbitrary: u)
  case (Cons m ms)
  then show ?case by (cases m) (auto simp: Let_def)
qed simp

text \<open>\<open>served r p s clean\<close>: the request is answered; \<open>clean\<close>, with nothing behind the end message.\<close>

definition served :: "'a served \<Rightarrow> u64 \<Rightarrow> 'a uproc_scheme \<Rightarrow> bool \<Rightarrow> bool" where
  "served r p s clean \<longleftrightarrow>
     (\<exists>ex rest t ms. r = Some (Inr (ex, rest, t)) \<and> sent t = sent s @ ms \<and> answers p ex ms clean)"

lemma servedI:
  assumes "says p s r" "p \<noteq> 7" "typ = (if ex then 3 else 4)"
  shows "served (Some (Inr (ex, rest, u_send p typ d r))) p s clean"
  using says_then_end[OF assms, of d] unfolding served_def answers_def by blast

lemma cmd_path_served:
  assumes "path_inside off msg" "7 \<in> fst ` set ms" "req_sender msg \<noteq> 7"
  shows "served (cmd_path typ off err u msg ms s) (req_sender msg) s True"
proof -
  obtain t where t: "send_path typ off msg s = Inr t" "says (req_sender msg) s t"
    using send_path_inside[OF assms(1)] by blast
  obtain resp rest where "await_fat32 u ms = Some (resp, rest)" using await_fat32_returns[OF assms(2)] by blast
  then show ?thesis
    using assms(3) t by (auto simp: cmd_path_def Let_def intro!: servedI says_more)
qed

lemma cmd_spawn_served:
  assumes "path_inside 6 msg" "7 \<in> fst ` set ms" "req_sender msg \<noteq> 7"
  shows "served (cmd_spawn u msg ms s) (req_sender msg) s True"
proof -
  obtain t where t: "send_path 1 6 msg s = Inr t" "says (req_sender msg) s t"
    using send_path_inside[OF assms(1)] by blast
  obtain resp rest where "await_fat32 u ms = Some (resp, rest)" using await_fat32_returns[OF assms(2)] by blast
  then show ?thesis
    using assms(3) t by (auto simp: cmd_spawn_def Let_def intro!: servedI says_more)
qed

lemma cmd_write_served:
  assumes "write_inside msg" "7 \<in> fst ` set ms" "req_sender msg \<noteq> 7"
  shows "served (cmd_write u msg ms s) (req_sender msg) s True"
proof -
  obtain resp rest where "await_fat32 u ms = Some (resp, rest)" using await_fat32_returns[OF assms(2)] by blast
  moreover obtain p where "skip_spaces 10 (msg_bytes msg) = Inr p"
    using assms(1) by (auto simp: write_inside_def split: sum.splits)
  ultimately show ?thesis
    using assms(1,3)
    by (auto simp: cmd_write_def write_inside_def Let_def intro!: servedI says_more)
qed

lemma cmd_read_served:
  assumes "path_inside 9 msg" "req_sender msg \<noteq> 7"
    and "\<exists>(q, ty, d) \<in> set ms. q = 7 \<and> (ty = 101 \<or> ty = 255)"
  shows "served (cmd_read u msg ms s) (req_sender msg) s (\<forall>d. (7, 255, d) \<notin> set ms)"
proof -
  let ?p = "req_sender msg"
  obtain t where t: "send_path 0 9 msg s = Inr t" "says ?p s t"
    using send_path_inside[OF assms(1)] by blast
  obtain rest r where r: "read_replies ?p u u ms t = Some (rest, r)"
      "says ?p t r \<or> (\<exists>v. says ?p t v \<and> r = u_send ?p 4 [] v \<and> (\<exists>d. (7, 255, d) \<in> set ms))"
    using says_read_replies[OF assms(3)] by metis
  let ?t = "u_send ?p 4 [] (u_send ?p 2 crlf_bytes r)"
  have c: "cmd_read u msg ms s = Some (Inr (False, rest, ?t))"
    using t(1) r(1) by (simp add: cmd_read_def Let_def)
  show ?thesis
  proof (cases "says ?p t r")
    case True
    then have "says ?p s (u_send ?p 2 crlf_bytes r)"
      using t(2) by (blast intro: says_trans says_send)
    then show ?thesis unfolding c using assms(2) by (intro servedI) simp_all
  next
    case False
    then obtain v d where v: "says ?p s v" "r = u_send ?p 4 [] v" "(7, 255, d) \<in> set ms"
      using r(2) t(2) says_trans by blast
    obtain ns where "sent v = sent s @ ns" "\<forall>(q, ty, d) \<in> set (arriving 3 ?p ns). q = 3 \<and> ty = 2 \<and> length d \<le> 64"
      using says_arriving[OF v(1) assms(2)] .
    then have "sent ?t = sent s @ ns @ (?p, 4, []) # [(?p, 2, crlf_bytes), (?p, 4, [])]"
      "answers ?p False (ns @ (?p, 4, []) # [(?p, 2, crlf_bytes), (?p, 4, [])]) (\<forall>d. (7, 255, d) \<notin> set ms)"
      using v(2,3) by (auto simp: u_send_def intro: answersI)
    then show ?thesis unfolding c served_def by blast
  qed
qed

lemma served_weaken: "served r p s True \<Longrightarrow> served r p s clean"
  unfolding served_def answers_def by blast

lemma served_if: "(b \<Longrightarrow> served x p s clean) \<Longrightarrow> (\<not> b \<Longrightarrow> served y p s clean) \<Longrightarrow> served (if b then x else y) p s clean"
  by simp

lemma command_served:
  assumes "req_type msg = 1" "command_ok msg" "req_sender msg \<noteq> 7"
    and "(7, typ, d) \<in> set ms" "typ = 101 \<or> typ = 255"
  shows "served (command_message u msg ms s) (req_sender msg) s
    (\<not> (req_data msg ! 0 = 0x72 \<and> req_data msg ! 1 = 0x65) \<or> (\<forall>d. (7, 255, d) \<notin> set ms))"
proof -
  have m: "7 \<in> fst ` set ms" "\<exists>(q, ty, d) \<in> set ms. q = 7 \<and> (ty = 101 \<or> ty = 255)"
    using assms(4,5) by force+
  note sub = cmd_path_served[OF _ m(1) assms(3)] cmd_spawn_served[OF _ m(1) assms(3)]
    cmd_write_served[OF _ m(1) assms(3)]
  note r = cmd_read_served[OF _ assms(3) m(2)]
  let ?clean = "\<not> (req_data msg ! 0 = 0x72 \<and> req_data msg ! 1 = 0x65) \<or> (\<forall>d. (7, 255, d) \<notin> set ms)"
  have read: "served (cmd_read u msg ms s) (req_sender msg) s ?clean"
    if "path_inside 9 msg" "req_data msg ! 0 = 0x72" "req_data msg ! 1 = 0x65"
    using r[OF that(1)] that(2,3) by simp
  show ?thesis
    unfolding command_message_def Let_def
    by (intro served_if servedI says_more says_refl read served_weaken[OF sub(1)] served_weaken[OF sub(2)]
        served_weaken[OF sub(3)])
      (use assms(1,3) assms(2)[unfolded command_ok_def Let_def] in simp_all)
qed


text \<open>The line \<^verbatim>\<open>delete a\<close> from the shell, and the FAT32 server's answer.\<close>

definition delete_line :: request where
  "delete_line = \<lparr>req_sender = 4, req_type = 1, req_data = bytes_of ''delete a'' @ replicate 56 0, req_length = 8\<rparr>"


text \<open>
  A \<^verbatim>\<open>writefile\<close> line without data is answered with its usage text and no end message, so the
  shell waits for ever.
\<close>

theorem usage_error_hangs_shell:
  assumes "req_type msg = 1" "req_data msg ! 0 = 0x77" "skip_spaces 10 (msg_bytes msg) = Inr p"
    and "path = takeWhile (\<lambda>b. b \<noteq> 0 \<and> b \<noteq> 0x20) (drop p (msg_bytes msg))" "p + length path < length (msg_bytes msg)"
    and "msg_bytes msg ! (p + length path) = 0"
  shows "\<exists>rest t ans. command_message u msg ms s = Some (Inr (False, rest, t)) \<and> sent t = sent s @ ans
    \<and> shell_replies v (arriving 3 (req_sender msg) ans) c = None"
proof -
  let ?t = "send_str (req_sender msg) (bytes_of ''Usage: writefile <path> <data>'' @ crlf_bytes) s"
  have c: "command_message u msg ms s = Some (Inr (False, ms, ?t))"
    using assms by (simp add: command_message_def cmd_write_def)
  obtain ns where ns: "sent ?t = sent s @ ns" "\<forall>(q, ty, d) \<in> set ns. q = req_sender msg \<and> ty = 2 \<and> length d \<le> 64"
    using send_str_sent by blast
  then have "\<forall>(q, ty, d) \<in> set (arriving 3 (req_sender msg) ns). q = 3 \<and> ty = 2 \<and> length d \<le> 64"
    by (auto simp: arriving_def)
  then obtain v' c' where "shell_replies v (arriving 3 (req_sender msg) ns @ []) c = shell_replies v' [] c'"
    using shell_reads_texts by blast
  then show ?thesis using c ns(1) by auto
qed

section \<open>Texts without their end\<close>

text \<open>
  The command server sends its texts without a zero byte, and \<^verbatim>\<open>recv\<close> leaves the bytes behind a
  message as they were.
\<close>

lemma received_text:
  assumes "0 \<notin> set d" "0 \<in> set (drop (length d) (req_data u))"
  shows "req_string (recv_into (a, typ, d) u) = Inr (d @ takeWhile (\<lambda>b. b \<noteq> 0) (drop (length d) (req_data u)))"
proof -
  let ?r = "drop (length d) (req_data u)"
  have "takeWhile (\<lambda>b. b \<noteq> 0) (d @ xs) = d @ takeWhile (\<lambda>b. b \<noteq> 0) xs" for xs
    using assms(1) by (intro takeWhile_append2) auto
  moreover have "takeWhile (\<lambda>b. b \<noteq> 0) (?r @ ys) = takeWhile (\<lambda>b. b \<noteq> 0) ?r" for ys
    using assms(2) by (rule takeWhile_append1) simp
  ultimately show ?thesis using assms(2) by (simp add: req_string_def msg_bytes_def recv_into_def)
qed

text \<open>
  When the command server answers with two texts of which the second is shorter, as with the pieces of its
  help text, the shell prints behind the second one what it leaves of the first, even if the message
  structure was all zero at the start.
\<close>

theorem shell_prints_leftover:
  assumes "0 \<notin> set d1" "0 \<notin> set d2" "length d2 < length d1" "length d1 < 64" "req_data u = replicate 64 0"
  shows "shell_replies u [(3, 2, d1), (3, 2, d2), (3, 4, [])] s =
    Some (Inr (False, [], shell_puts (d2 @ drop (length d2) d1) (shell_puts d1 s)))"
proof -
  let ?u = "recv_into (3, 2, d1) u"
  have data: "req_data ?u = d1 @ replicate (64 - length d1) 0" using assms(5) by (simp add: recv_into_def)
  have 1: "req_string ?u = Inr d1"
    using received_text[OF assms(1), of u 3 2] assms(4,5) by (cases "64 - length d1") auto
  have "drop (length d2) (req_data ?u) = drop (length d2) d1 @ 0 # replicate (63 - length d1) 0"
    using assms(3,4) unfolding data by (simp add: replicate_app_Cons_same[symmetric] flip: replicate_Suc)
  moreover have "takeWhile (\<lambda>b. b \<noteq> 0) (drop (length d2) d1 @ 0 # xs) = drop (length d2) d1" for xs
    using assms(1) by (subst takeWhile_append2) (auto dest: in_set_dropD)
  ultimately have 2: "req_string (recv_into (3, 2, d2) ?u) = Inr (d2 @ drop (length d2) d1)"
    using received_text[OF assms(2), of ?u 3 2] by simp
  show ?thesis using 1 2 by (simp add: Let_def)
qed

theorem shell_prints_leftover_witness:
  "shell_replies \<lparr>req_sender = 0, req_type = 0, req_data = replicate 64 0, req_length = 0\<rparr>
     [(3, 2, bytes_of ''long text''), (3, 2, bytes_of ''ok''), (3, 4, [])] uproc_demo =
   Some (Inr (False, [], shell_puts (bytes_of ''okng text'') (shell_puts (bytes_of ''long text'') uproc_demo)))"
  using shell_prints_leftover[of "bytes_of ''long text''" "bytes_of ''ok''"
      "\<lparr>req_sender = 0, req_type = 0, req_data = replicate 64 0, req_length = 0\<rparr>" uproc_demo]
  by simp

end
