(* ===== verification/Init_Program.thy ===== *)
theory Init_Program
  imports Interrupts User_Messages
begin

text \<open>
  Programs that use the serial port themselves, through the port system calls: the first user
  program \<^verbatim>\<open>user/init.c\<close>, and the output routines it shares with the example programs. They run against the
  kernel's dispatcher \<open>syscall_handler\<close>; the model follows one program and does not show what
  other tasks do between its calls.
\<close>

section \<open>System calls of a program\<close>

text \<open>\<^verbatim>\<open>_sys(n, a1, a2, a3, a4)\<close>; the interrupts that arrive during a sleep are a parameter.\<close>

definition sys :: "nat list \<Rightarrow> u64 \<Rightarrow> u64 \<Rightarrow> u64 \<Rightarrow> u64 \<Rightarrow> u64 \<Rightarrow> kstate \<Rightarrow> (u64 \<times> kstate) res" where
  "sys irqs n a1 a2 a3 a4 s = syscall_handler irqs n a1 a2 a3 a4 s"

lemma sys_port_calls [simp]:
  "sys irqs 4 p a2 a3 a4 s = (let (v, t) = inb (ucast p) s in Inr (ucast v, t))"
  "sys irqs 5 p v a3 a4 s = Inr (0, outb (ucast p) (ucast v) s)"
  by (simp_all add: sys_def syscall_handler_def)

section \<open>Output\<close>

partial_function (option) poll_tx :: "kstate \<Rightarrow> kstate res option" where
  "poll_tx s =
     try_res (sys [] 4 0x3FD 0 0 0 s) (\<lambda>(v, s). if v AND 0x20 = 0 then poll_tx s else Some (Inr s))"

text \<open>A \<^verbatim>\<open>char\<close> is signed: the argument of the call is its sign extension.\<close>

definition init_putc :: "u8 \<Rightarrow> kstate \<Rightarrow> kstate res option" where
  "init_putc c s =
     and_then (poll_tx s) (\<lambda>s. try_res (sys [] 5 0x3F8 (scast c) 0 0 s) (\<lambda>(_, s). Some (Inr s)))"

primrec init_puts :: "u8 list \<Rightarrow> kstate \<Rightarrow> kstate res option" where
  "init_puts [] s = Some (Inr s)"
| "init_puts (c # cs) s = and_then (init_putc c s) (init_puts cs)"

section \<open>The first program\<close>

record spawn_entry =
  sp_name :: "u8 list"
  sp_addr :: u64
  sp_end :: u64

text \<open>The list of the repository is empty.\<close>

definition spawn_list :: "spawn_entry list" where
  "spawn_list = []"

primrec spawn_loop :: "spawn_entry list \<Rightarrow> kstate \<Rightarrow> kstate res option" where
  "spawn_loop [] s = Some (Inr s)"
| "spawn_loop (e # es) s =
     (let size = sp_end e - sp_addr e
      in and_then (init_puts (map of_char ''[init] spawning '') s) (\<lambda>s.
         and_then (init_puts (sp_name e) s) (\<lambda>s.
         and_then (init_puts [0x0A] s) (\<lambda>s.
         try_res (sys [] 26 (sp_addr e) size 0 0 s) (\<lambda>(_, s). spawn_loop es s)))))"

text \<open>The banner has a Greek letter, two bytes in UTF-8. The program then pauses for ever.\<close>

definition init_banner :: "u8 list" where
  "init_banner = map of_char ''[init] '' @ [0xCE, 0xBC] @ map of_char ''krn ready'' @ [0x0A]"

definition init_start :: "spawn_entry list \<Rightarrow> kstate \<Rightarrow> kstate res option" where
  "init_start entries s = and_then (init_puts init_banner s) (spawn_loop entries)"

section \<open>What reaches the serial line\<close>

lemma byte_bit_wide: "(ucast (v :: u8) :: u64) AND ucast (w :: u8) = 0 \<longleftrightarrow> v AND w = 0"
proof -
  have "(ucast v :: u64) AND ucast w = ucast (v AND w)"
    by (rule bit_word_eqI) (auto simp: bit_and_iff bit_ucast_iff)
  moreover have "(ucast x :: u64) = 0 \<longleftrightarrow> x = 0" for x :: u8
    using unsigned_less[of x, where 'a = nat]
    by (simp add: word_unat_eq_iff unsigned_ucast_eq take_bit_nat_eq_self_iff take_bit_nat_eq_self)
  ultimately show ?thesis by simp
qed

lemma poll_tx_wait:
  assumes "wait_tx s = Some t"
  shows "poll_tx s = Some (Inr t)"
proof (rule wait_tx.raw_induct[where P = "\<lambda>s t. poll_tx s = Some (Inr t)", OF _ assms])
  fix w and s t :: kstate
  assume IH: "\<And>s t. w s = Some t \<Longrightarrow> poll_tx s = Some (Inr t)"
    and run: "(let (v, s') = inb 0x3FD s in if v AND 0x20 = 0 then w s' else Some s') = Some t"
  obtain v u where u: "inb 0x3FD s = (v, u)" by fastforce
  have "(ucast v :: u64) AND 0x20 = 0 \<longleftrightarrow> v AND 0x20 = 0" using byte_bit_wide[of v "0x20"] by simp
  then show "poll_tx s = Some (Inr t)"
    using run IH[of u t] u by (subst poll_tx.simps) (auto split: if_splits)
qed

lemma signed_char_low: "(ucast (scast (c :: u8) :: u64) :: u8) = c"
  by (rule bit_word_eqI) (auto simp: bit_ucast_iff bit_signed_iff)

lemma init_putc_putc: "putc c s = Some t \<Longrightarrow> init_putc (of_char c) s = Some (Inr t)"
  by (auto simp: putc_def init_putc_def signed_char_low poll_tx_wait split: Option.bind_splits)

lemma init_puts_puts: "puts cs s = Some t \<Longrightarrow> init_puts (map of_char cs) s = Some (Inr t)"
proof (induction cs arbitrary: s)
  case (Cons c cs)
  then obtain u where "putc c s = Some u" "puts cs u = Some t" by (auto split: Option.bind_splits)
  then show ?case using Cons.IH[of u] init_putc_putc[of c s u] by simp
qed simp

lemma init_puts_sends:
  assumes "uart_responsive (device s)"
  shows "\<exists>es. init_puts bs s = Some (Inr (s\<lparr>io_log := es\<rparr>))
    \<and> uart_out es = uart_out (io_log s) @ map (\<lambda>b. char_of (unat b)) bs"
proof -
  let ?cs = "map (\<lambda>b. char_of (unat b)) bs"
  obtain es where "puts ?cs s = Some (s\<lparr>io_log := es\<rparr>)" "uart_out es = uart_out (io_log s) @ ?cs"
    using puts_sends[OF assms] by blast
  then show ?thesis using init_puts_puts[of ?cs s] by (auto simp: o_def byte_of_char)
qed

text \<open>
  The first program of the repository, on a UART that becomes ready again, prints its
  banner and reaches its final loop; it changes nothing but the serial line.
\<close>

theorem init_prints_banner:
  assumes "uart_responsive (device s)"
  shows "\<exists>es. init_start spawn_list s = Some (Inr (s\<lparr>io_log := es\<rparr>))
    \<and> uart_out es = uart_out (io_log s) @ map (\<lambda>b. char_of (unat b)) init_banner"
  using init_puts_sends[OF assms, of init_banner] by (auto simp: init_start_def spawn_list_def)

end
