(* ===== verification/Example_Shell.thy ===== *)
theory Example_Shell
  imports Init_Program
begin

text \<open>
  The example shell \<^verbatim>\<open>_sdk/examples/shell.c\<close>: a program of its own that talks to the serial port
  through system calls. Shown: numbers are printed in decimal without leaving the digit buffer, the
  string comparisons decide equality and prefix, and the line the user sees while typing is the line
  in the buffer.
\<close>

section \<open>Input and output\<close>

definition pc :: "u8 \<Rightarrow> kstate \<Rightarrow> kstate res option" where
  "pc c s = and_then (poll_tx s) (\<lambda>s. try_res (sys [] 5 0x3F8 (ucast c) 0 0 s) (\<lambda>(_, s). Some (Inr s)))"

primrec ps :: "u8 list \<Rightarrow> kstate \<Rightarrow> kstate res option" where
  "ps [] s = Some (Inr s)"
| "ps (c # cs) s = and_then (pc c s) (ps cs)"

abbreviation say :: "string \<Rightarrow> kstate \<Rightarrow> kstate res option" where
  "say str \<equiv> ps (map of_char str)"

abbreviation say_line :: "string \<Rightarrow> kstate \<Rightarrow> kstate res option" where
  "say_line str \<equiv> ps (map of_char str @ [0x0A])"

definition ph :: "u64 \<Rightarrow> kstate \<Rightarrow> kstate res option" where
  "ph v = ps (map (\<lambda>i. let d = drop_bit (4 * i) v AND 0xF in ucast (if d < 10 then 0x30 + d else 0x61 + d - 10))
     (rev [0..<16]))"

text \<open>The digits of \<open>v\<close> behind those already in the buffer of 20 characters, last digit first.\<close>

function dec_digits :: "u64 \<Rightarrow> u8 list \<Rightarrow> u8 list res" where
  "dec_digits v b =
     (if v > 0
      then if length b < 20 then dec_digits (v div 10) (b @ [0x30 + ucast (v mod 10)]) else Inl Undefined
      else Inr b)"
  by pat_completeness auto
termination
proof (relation "measure (\<lambda>(v, b). unat v)", goal_cases)
  case (2 v b)
  then have "0 < unat v" by (simp add: word_less_nat_alt)
  then show ?case by (simp add: unat_div)
qed simp

declare dec_digits.simps [simp del]

definition pd :: "u64 \<Rightarrow> kstate \<Rightarrow> kstate res option" where
  "pd v s = (if v = 0 then pc 0x30 s else try_res (dec_digits v []) (\<lambda>b. ps (rev b) s))"

partial_function (option) rc :: "kstate \<Rightarrow> (u8 \<times> kstate) res option" where
  "rc s =
     try_res (sys [] 4 0x3FD 0 0 0 s) (\<lambda>(v, s).
       if v AND 1 = 0 then rc s
       else try_res (sys [] 4 0x3F8 0 0 0 s) (\<lambda>(c, s). Some (Inr (ucast c, s))))"

section \<open>Strings\<close>

text \<open>The character a pointer into a string designates; the string ends with a zero.\<close>

definition at :: "u8 list \<Rightarrow> u8" where
  "at str = (case str of [] \<Rightarrow> 0 | c # _ \<Rightarrow> c)"

fun streq :: "u8 list \<Rightarrow> u8 list \<Rightarrow> bool" where
  "streq (a # as) (b # bs) = (if a \<noteq> b then False else streq as bs)"
| "streq as bs = (at as = at bs)"

primrec starts :: "u8 list \<Rightarrow> u8 list \<Rightarrow> bool" where
  "starts [] str = True"
| "starts (p # pre) str = (if p \<noteq> at str then False else starts pre (tl str))"

section \<open>The line editor\<close>

text \<open>
  One character other than the end of the line: backspace and delete remove the last one and wipe
  it from the screen; anything else is stored and echoed as long as the buffer of 256 has room.
\<close>

definition edit :: "u8 \<Rightarrow> u8 list \<Rightarrow> kstate \<Rightarrow> (u8 list \<times> kstate) res option" where
  "edit c line s =
     (if c = 127 \<or> c = 8
      then if line \<noteq> []
           then and_then (pc 8 s) (\<lambda>s. and_then (pc 0x20 s) (\<lambda>s. and_then (pc 8 s) (\<lambda>s. Some (Inr (butlast line, s)))))
           else Some (Inr (line, s))
      else if length line < 255 then and_then (pc c s) (\<lambda>s. Some (Inr (line @ [c], s)))
      else Some (Inr (line, s)))"

partial_function (option) read_cmd :: "u8 list \<Rightarrow> kstate \<Rightarrow> (u8 list \<times> kstate) res option" where
  "read_cmd line s =
     Option.bind (rc s) (\<lambda>r. try_res r (\<lambda>(c, s).
       if c = 0x0D \<or> c = 0x0A
       then and_then (pc 0x0A s) (\<lambda>s. Some (Inr (takeWhile (\<lambda>b. b \<noteq> 0) line, s)))
       else Option.bind (edit c line s) (\<lambda>r. try_res r (\<lambda>(line, s). read_cmd line s))))"

section \<open>Commands\<close>

definition show_help :: "kstate \<Rightarrow> kstate res option" where
  "show_help s =
     and_then (say_line ''Commands:'' s) (\<lambda>s.
     and_then (say_line ''  help     - this help'' s) (\<lambda>s.
     and_then (say_line ''  echo <t> - echo text'' s) (\<lambda>s.
     and_then (say_line ''  pid      - show PID'' s) (\<lambda>s.
     and_then (say_line ''  ticks    - timer ticks'' s) (\<lambda>s.
     and_then (say_line ''  test     - run syscall tests'' s) (\<lambda>s.
     and_then (say_line ''  exit     - exit shell'' s) (\<lambda>s.
     say_line ''  shutdown - power off'' s)))))))"

text \<open>The tests count passes and failures; \<open>verdict\<close> prints one result and counts it.\<close>

definition verdict :: "bool \<Rightarrow> string \<Rightarrow> string \<Rightarrow> nat \<times> nat \<Rightarrow> kstate \<Rightarrow> ((nat \<times> nat) \<times> kstate) res option" where
  "verdict b good bad n s =
     and_then (say_line (if b then good else bad) s) (\<lambda>s.
       Some (Inr (if b then (fst n + 1, snd n) else (fst n, snd n + 1), s)))"

definition test_identity :: "u64 \<Rightarrow> nat \<times> nat \<Rightarrow> kstate \<Rightarrow> ((nat \<times> nat) \<times> kstate) res option" where
  "test_identity pid n s =
     and_then (if pid > 0
               then and_then (say ''  getpid: '' s) (\<lambda>s. and_then (pd pid s) (verdict True '' OK'' '''' n))
               else verdict False '''' ''  getpid: FAIL'' n s) (\<lambda>(n, s).
     try_res (sys [] 4 0x3FD 0 0 0 s) (\<lambda>(_, s).
     and_then (verdict True ''  inb: OK'' '''' n s) (\<lambda>(n, s).
     try_res (sys [] 5 0x3F8 0 0 0 s) (\<lambda>(_, s). verdict True ''  outb: OK'' '''' n s))))"

definition test_timer :: "nat list \<Rightarrow> nat \<times> nat \<Rightarrow> kstate \<Rightarrow> ((nat \<times> nat) \<times> kstate) res option" where
  "test_timer irqs n s =
     try_res (sys [] 15 0 0 0 0 s) (\<lambda>(t0, s).
     and_then (say ''  getticks: '' s) (\<lambda>s.
     and_then (pd t0 s) (\<lambda>s.
     and_then (verdict True '' OK'' '''' n s) (\<lambda>(n, s).
     try_res (sys [] 15 0 0 0 0 s) (\<lambda>(t1, s).
     try_res (sys irqs 14 20000000 0 0 0 s) (\<lambda>(_, s).
     try_res (sys [] 15 0 0 0 0 s) (\<lambda>(t2, s).
     and_then (verdict (t2 \<ge> t1) ''  nanosleep: OK'' ''  nanosleep: FAIL'' n s) (\<lambda>(n, s).
     try_res (sys [] 16 0x54 0 0 0 s) (\<lambda>(_, s). verdict True ''  debug_putc: OK'' '''' n s)))))))))"

definition test_tasks :: "u64 \<Rightarrow> nat \<times> nat \<Rightarrow> kstate \<Rightarrow> ((nat \<times> nat) \<times> kstate) res option" where
  "test_tasks pid n s =
     try_res (sys [] 19 0 0 0 0 s) (\<lambda>(brk0, s).
     try_res (sys [] 19 (brk0 + 4096) 0 0 0 s) (\<lambda>(_, s).
     try_res (sys [] 19 0 0 0 0 s) (\<lambda>(brk1, s).
     and_then (verdict (brk1 \<ge> brk0 + 4096) ''  brk: OK'' ''  brk: FAIL'' n s) (\<lambda>(n, s).
     try_res (sys [] 9 pid 0 0 0 s) (\<lambda>(v, s).
     let st = u64_to_int v
     in and_then (if st = 2 \<or> st = 1 then verdict True ''  getstate: OK'' '''' n s
                  else and_then (say ''  getstate: FAIL (st='' s) (\<lambda>s.
                       and_then (pd (int_to_u64 st) s) (verdict False '''' '')'' n))) (\<lambda>(n, s).
     try_res (sys [] 13 0xDEAD 0 0 0 s) (\<lambda>(kr, s).
     and_then (verdict (u64_to_int kr = - 1) ''  kill(bad pid): OK'' ''  kill(bad pid): FAIL'' n s) (\<lambda>(n, s).
     try_res (sys [] 10 0 0 0 0 s) (\<lambda>(iq, s).
     try_res (sys [] 20 0 0 0 0 s) (\<lambda>(_, s).
     verdict (u64_to_int iq = 0) ''  irq_reg/ack: OK'' ''  irq_reg/ack: FAIL'' n s))))))))))"

text \<open>
  \<open>msg\<close> and \<open>rbuf\<close> are the addresses of two local arrays, of 3 and 64 bytes; the message
  structure \<^verbatim>\<open>recv\<close> fills has 88.
\<close>

definition test_messages :: "u64 \<Rightarrow> u64 \<Rightarrow> u64 \<Rightarrow> nat \<times> nat \<Rightarrow> kstate \<Rightarrow> ((nat \<times> nat) \<times> kstate) res option" where
  "test_messages pid msg rbuf n s =
     try_res (sys [] 25 0x1CE 4 0 0 s) (\<lambda>(_, s).
     try_res (sys [] 24 0x1CE 0 0 0 s) (\<lambda>(_, s).
     and_then (verdict True ''  inw/outw: OK'' '''' n s) (\<lambda>(n, s).
     try_res (sys [] 27 0 0 0 0 s) (\<lambda>(_, s).
     and_then (verdict True ''  yield: OK'' '''' n s) (\<lambda>(n, s).
     try_res (vwrite [0x68, 0x69, 0] msg s) (\<lambda>s.
     try_res (sys [] 2 pid 42 msg 2 s) (\<lambda>(sr, s).
     if u64_to_int sr = 0
     then try_res (sys [] 3 rbuf 0 0 0 s) (\<lambda>(rr, s).
            verdict (u64_to_int rr = 0) ''  send/recv: OK'' ''  send/recv: recv FAIL'' n s)
     else verdict False '''' ''  send/recv: send FAIL'' n s)))))))"

definition test_memory :: "nat \<times> nat \<Rightarrow> kstate \<Rightarrow> ((nat \<times> nat) \<times> kstate) res option" where
  "test_memory n s =
     try_res (sys [] 11 0x700000 4096 2 0 s) (\<lambda>(mp, s).
     if u64_to_int mp = 0
     then try_res (sys [] 12 0x700000 4096 0 0 s) (\<lambda>(_, s). verdict True ''  mmap/munmap: OK'' '''' n s)
     else verdict False '''' ''  mmap/munmap: FAIL'' n s)"

definition test_syscalls :: "nat list \<Rightarrow> u64 \<Rightarrow> u64 \<Rightarrow> kstate \<Rightarrow> kstate res option" where
  "test_syscalls irqs msg rbuf s =
     and_then (ps ([0x0A] @ map of_char ''--- Syscall Tests ---'' @ [0x0A]) s) (\<lambda>s.
     try_res (sys [] 1 0 0 0 0 s) (\<lambda>(pid, s).
        and_then (test_identity pid (0, 0) s) (\<lambda>(n, s).
        and_then (test_timer irqs n s) (\<lambda>(n, s).
        and_then (test_tasks pid n s) (\<lambda>(n, s).
        and_then (test_messages pid msg rbuf n s) (\<lambda>(n, s).
        and_then (test_memory n s) (\<lambda>((good, bad), s).
        and_then (say ''--- '' s) (\<lambda>s.
        and_then (pd (of_nat good) s) (\<lambda>s.
        and_then (say '' OK '' s) (\<lambda>s.
        and_then (pd (of_nat bad) s) (\<lambda>s.
        say_line '' FAIL ---'' s)))))))))))"

text \<open>
  One command. The result of the exit and shutdown calls is not tested: should they return, the
  command is reported as unknown.
\<close>

definition shell_command :: "nat list \<Rightarrow> u64 \<Rightarrow> u64 \<Rightarrow> u8 list \<Rightarrow> kstate \<Rightarrow> kstate res option" where
  "shell_command irqs msg rbuf line s =
     (let is = (\<lambda>str. streq line (map of_char str))
      in if at line = 0 then Some (Inr s)
         else if is ''help'' then show_help s
         else if is ''pid''
         then and_then (say ''PID: '' s) (\<lambda>s. try_res (sys [] 1 0 0 0 0 s) (\<lambda>(v, s). and_then (pd v s) (pc 0x0A)))
         else if is ''ticks''
         then and_then (say ''Ticks: '' s) (\<lambda>s. try_res (sys [] 15 0 0 0 0 s) (\<lambda>(v, s). and_then (pd v s) (pc 0x0A)))
         else if is ''test'' then test_syscalls irqs msg rbuf s
         else
           and_then (if is ''exit''
                     then and_then (say_line ''bye'' s) (\<lambda>s. try_res (sys [] 0 0 0 0 0 s) (\<lambda>(_, s). Some (Inr s)))
                     else Some (Inr s)) (\<lambda>s.
           and_then (if is ''shutdown'' then try_res (sys [] 17 0 0 0 0 s) (\<lambda>(_, s). Some (Inr s)) else Some (Inr s)) (\<lambda>s.
           if starts (map of_char ''echo '') line then and_then (ps (drop 5 line) s) (pc 0x0A)
           else and_then (say ''Unknown: '' s) (\<lambda>s. and_then (ps line s) (pc 0x0A)))))"

definition prompt :: "u8 list" where
  "prompt = [0xCE, 0xBC] @ map of_char ''krn> ''"

partial_function (option) example_loop :: "nat list \<Rightarrow> u64 \<Rightarrow> u64 \<Rightarrow> kstate \<Rightarrow> kstate res option" where
  "example_loop irqs msg rbuf s =
     Option.bind (ps prompt s) (\<lambda>r. try_res r (\<lambda>s.
     Option.bind (read_cmd [] s) (\<lambda>r. try_res r (\<lambda>(line, s).
     Option.bind (shell_command irqs msg rbuf line s) (\<lambda>r. try_res r (\<lambda>s.
     example_loop irqs msg rbuf s))))))"

definition example_start :: "nat list \<Rightarrow> u64 \<Rightarrow> u64 \<Rightarrow> kstate \<Rightarrow> kstate res option" where
  "example_start irqs msg rbuf s =
     and_then (ps (map of_char ''[shell] '' @ [0xCE, 0xBC] @ map of_char ''krn shell'' @ [0x0A]) s) (example_loop irqs msg rbuf)"

section \<open>What the shell prints\<close>

lemma pc_putc: "putc c s = Some t \<Longrightarrow> pc (of_char c) s = Some (Inr t)"
proof -
  have "(ucast (ucast (x :: u8) :: u64) :: u8) = x" for x
    by (rule bit_word_eqI) (auto simp: bit_ucast_iff)
  then show "putc c s = Some t \<Longrightarrow> pc (of_char c) s = Some (Inr t)"
    by (auto simp: putc_def pc_def poll_tx_wait split: Option.bind_splits)
qed

lemma pc_sends:
  assumes "uart_responsive (device s)"
  shows "\<exists>es. pc c s = Some (Inr (s\<lparr>io_log := es\<rparr>)) \<and> uart_out es = uart_out (io_log s) @ [char_of (unat c)]"
  using putc_transmits[OF assms, of "char_of (unat c)"] pc_putc[of "char_of (unat c)" s] by (auto simp: byte_of_char)

lemma ps_sends:
  assumes "uart_responsive (device s)"
  shows "\<exists>es. ps bs s = Some (Inr (s\<lparr>io_log := es\<rparr>)) \<and> uart_out es = uart_out (io_log s) @ map (\<lambda>b. char_of (unat b)) bs"
  using assms
proof (induction bs arbitrary: s)
  case Nil
  then show ?case by (auto intro!: exI[of _ "io_log s"])
next
  case (Cons b bs)
  obtain es where es: "pc b s = Some (Inr (s\<lparr>io_log := es\<rparr>))" "uart_out es = uart_out (io_log s) @ [char_of (unat b)]"
    using pc_sends[OF Cons.prems] by blast
  then show ?case using Cons.IH[of "s\<lparr>io_log := es\<rparr>"] Cons.prems by auto
qed

text \<open>Reading a decimal numeral back.\<close>

definition dec_value :: "u8 list \<Rightarrow> nat" where
  "dec_value ds = foldl (\<lambda>acc d. 10 * acc + (unat d - 0x30)) 0 ds"

lemma dec_value_snoc: "dec_value (ds @ [d]) = 10 * dec_value ds + (unat d - 0x30)"
  by (simp add: dec_value_def)

lemma unat_digit: "unat (0x30 + ucast (v mod 10) :: u8) = 0x30 + unat v mod 10" for v :: u64
proof -
  have "unat (v mod 10) = unat v mod 10" by (simp add: unat_mod)
  then have "unat (ucast (v mod 10) :: u8) = unat v mod 10"
    by (simp add: unsigned_ucast_eq take_bit_nat_eq_self_iff take_bit_nat_eq_self)
  then show ?thesis by (simp add: unat_word_ariths)
qed

lemma dec_digits_value:
  assumes "unat v < 10 ^ (20 - length b)" "length b \<le> 20"
  shows "\<exists>ds. dec_digits v b = Inr (b @ ds) \<and> length ds \<le> 20 - length b \<and> dec_value (rev ds) = unat v
    \<and> (if v = 0 then ds = [] else ds \<noteq> [] \<and> last ds \<noteq> 0x30) \<and> (\<forall>d \<in> set ds. 0x30 \<le> d \<and> d \<le> 0x39)"
  using assms
proof (induction v b rule: dec_digits.induct)
  case (1 v b)
  show ?case
  proof (cases "v = 0")
    case True
    then show ?thesis by (intro exI[of _ "[]"]) (simp add: dec_digits.simps[of 0 b] dec_value_def)
  next
    case False
    then have pos: "0 < v" "0 < unat v" by (simp_all add: word_gt_0 unat_gt_0)
    have len: "length b < 20"
      using "1.prems" pos(2) by (cases "length b = 20") auto
    let ?d = "0x30 + ucast (v mod 10) :: u8"
    have q: "unat (v div 10) = unat v div 10" by (simp add: unat_div)
    have "20 - length b = Suc (20 - length (b @ [?d]))" using len by simp
    then have "unat (v div 10) < 10 ^ (20 - length (b @ [?d]))"
      using "1.prems"(1) unfolding q by (simp add: div_less_iff_less_mult mult.commute)
    then obtain ds where ds: "dec_digits (v div 10) (b @ [?d]) = Inr ((b @ [?d]) @ ds)" "length ds \<le> 20 - length (b @ [?d])"
        "dec_value (rev ds) = unat v div 10" "if v div 10 = 0 then ds = [] else ds \<noteq> [] \<and> last ds \<noteq> 0x30"
        "\<forall>d \<in> set ds. 0x30 \<le> d \<and> d \<le> 0x39"
      using "1.IH"[OF pos(1) len] len q by auto
    have "dec_value (rev (?d # ds)) = unat v"
      using ds(3) by (simp add: dec_value_snoc unat_digit)
    moreover have "last (?d # ds) \<noteq> 0x30"
    proof (cases "v div 10 = 0")
      case True
      then have "unat v < 10" using q by (simp add: div_eq_0_iff)
      then have "unat ?d \<noteq> 0x30" using pos(2) unfolding unat_digit by simp
      then show ?thesis using ds(4) True by auto
    next
      case False
      then show ?thesis using ds(4) by simp
    qed
    moreover have "0x30 \<le> ?d" "?d \<le> 0x39" unfolding word_le_nat_alt unat_digit by simp_all
    moreover have "dec_digits v b = Inr (b @ ?d # ds)"
      using ds(1) pos(1) len by (subst dec_digits.simps) simp
    ultimately show ?thesis
      using False ds(2,5) len by (intro exI[of _ "?d # ds"]) auto
  qed
qed

text \<open>
  \<^verbatim>\<open>pd\<close> prints every 64-bit number in decimal: on a UART that becomes ready again it returns, having
  sent at most twenty digits, which fit its buffer, denote the number and do not start with a
  zero unless the number is zero.
\<close>

theorem pd_prints_decimal:
  assumes "uart_responsive (device s)"
  shows "\<exists>es ds. pd v s = Some (Inr (s\<lparr>io_log := es\<rparr>)) \<and> uart_out es = uart_out (io_log s) @ map (\<lambda>d. char_of (unat d)) ds
    \<and> 1 \<le> length ds \<and> length ds \<le> 20 \<and> dec_value ds = unat v \<and> (\<forall>d \<in> set ds. 0x30 \<le> d \<and> d \<le> 0x39)
    \<and> (v \<noteq> 0 \<longrightarrow> hd ds \<noteq> 0x30)"
proof (cases "v = 0")
  case True
  then show ?thesis
    using pc_sends[OF assms, of "0x30"]
    by (auto simp: pd_def dec_value_def intro!: exI[of _ "[0x30 :: u8]"])
next
  case False
  have "unat v < 10 ^ 20" using unsigned_less[of v, where 'a = nat] by simp
  then obtain ds where ds: "dec_digits v [] = Inr ds" "length ds \<le> 20" "dec_value (rev ds) = unat v" "ds \<noteq> []"
      "last ds \<noteq> 0x30" "\<forall>d \<in> set ds. 0x30 \<le> d \<and> d \<le> 0x39"
    using dec_digits_value[of v "[]"] False by auto
  obtain es where "ps (rev ds) s = Some (Inr (s\<lparr>io_log := es\<rparr>))" "uart_out es = uart_out (io_log s) @ map (\<lambda>d. char_of (unat d)) (rev ds)"
    using ps_sends[OF assms] by blast
  then show ?thesis
    using False ds by (intro exI[of _ es] exI[of _ "rev ds"]) (simp add: pd_def hd_rev Suc_le_eq)
qed

definition ready_demo :: kstate where
  "ready_demo = kernel_demo\<lparr>device := \<lambda>_ _. 0x20, io_log := []\<rparr>"

lemma ready_demo_uart: "uart_responsive (device ready_demo)" "io_log ready_demo = []"
  by (simp_all add: uart_responsive_def ready_demo_def)

theorem pd_prints_decimal_witness:
  "\<exists>es ds. pd 0xFFFFFFFFFFFFFFFF ready_demo = Some (Inr (ready_demo\<lparr>io_log := es\<rparr>)) \<and> length (uart_out es) \<le> 20
     \<and> dec_value ds = 18446744073709551615 \<and> uart_out es = map (\<lambda>d. char_of (unat d)) ds"
  using pd_prints_decimal[OF ready_demo_uart(1), of "0xFFFFFFFFFFFFFFFF"] by (auto simp: ready_demo_uart(2))

lemma streq_correct: "0 \<notin> set a \<Longrightarrow> 0 \<notin> set b \<Longrightarrow> streq a b \<longleftrightarrow> a = b"
  by (induction a b rule: streq.induct) (auto simp: at_def split: list.splits)

lemma starts_correct: "0 \<notin> set pre \<Longrightarrow> starts pre str \<longleftrightarrow> take (length pre) str = pre"
  by (induction pre arbitrary: str) (auto simp: at_def split: list.splits)

section \<open>What the user sees\<close>

text \<open>
  A terminal line as the text left of the cursor and the text from the cursor on: a printable
  character overwrites, a backspace moves left; control characters a terminal would interpret
  otherwise are not considered.
\<close>

definition term_put :: "char \<Rightarrow> string \<times> string \<Rightarrow> string \<times> string" where
  "term_put c lr =
     (let (l, r) = lr
      in if c = char_of (8 :: nat) then if l = [] then (l, r) else (butlast l, last l # r)
         else (l @ [c], tl r))"

primrec edits :: "u8 list \<Rightarrow> u8 list \<Rightarrow> kstate \<Rightarrow> (u8 list \<times> kstate) res option" where
  "edits [] line s = Some (Inr (line, s))"
| "edits (c # cs) line s = and_then (edit c line s) (\<lambda>(line, s). edits cs line s)"

abbreviation chars :: "u8 list \<Rightarrow> string" where "chars \<equiv> map (\<lambda>b. char_of (unat b))"

lemma blank: "char_of (32 :: nat) = CHR '' ''"
  by (simp add: char_of_def bit_numeral_rec bit_0)

lemma wipe_last:
  assumes "line \<noteq> []"
  shows "fold term_put [char_of (8 :: nat), CHR '' '', char_of (8 :: nat)] (p @ chars line, r) =
    (p @ chars (butlast line), CHR '' '' # r)"
proof -
  have "CHR '' '' \<noteq> char_of (8 :: nat)" by (simp add: char_of_def)
  then show ?thesis using assms by (simp add: term_put_def butlast_append map_butlast)
qed

lemma typed_char:
  fixes c :: u8
  assumes "c \<noteq> 8"
  shows "(char_of (unat c) :: char) \<noteq> char_of (8 :: nat)"
proof
  assume "(char_of (unat c) :: char) = char_of (8 :: nat)"
  then have "unat c mod 256 = 8" by simp
  moreover have "unat c mod 256 = unat c" using unsigned_less[of c, where 'a = nat] by (intro mod_less) simp
  ultimately have "unat c = 8" by simp
  then show False using assms by (simp add: word_unat_eq_iff)
qed

lemma edit_echo:
  assumes "uart_responsive (device s)" "length line \<le> 255"
  shows "\<exists>line' es out r'. edit c line s = Some (Inr (line', s\<lparr>io_log := es\<rparr>)) \<and> length line' \<le> 255
    \<and> uart_out es = uart_out (io_log s) @ out \<and> fold term_put out (p @ chars line, r) = (p @ chars line', r')"
proof -
  consider "c = 127 \<or> c = 8" "line \<noteq> []" | "c \<noteq> 127" "c \<noteq> 8" "length line < 255"
    | "edit c line s = Some (Inr (line, s))"
    by (cases "c = 127 \<or> c = 8"; cases "line = []"; cases "length line < 255") (auto simp: edit_def)
  then show ?thesis
  proof cases
    case 1
    obtain e1 where e1: "pc 8 s = Some (Inr (s\<lparr>io_log := e1\<rparr>))" "uart_out e1 = uart_out (io_log s) @ [char_of (8 :: nat)]"
      using pc_sends[OF assms(1), of 8] by auto
    obtain e2 where e2: "pc 0x20 (s\<lparr>io_log := e1\<rparr>) = Some (Inr (s\<lparr>io_log := e2\<rparr>))" "uart_out e2 = uart_out e1 @ [CHR '' '']"
      using pc_sends[of "s\<lparr>io_log := e1\<rparr>" "0x20"] assms(1) by (auto simp: blank)
    obtain e3 where e3: "pc 8 (s\<lparr>io_log := e2\<rparr>) = Some (Inr (s\<lparr>io_log := e3\<rparr>))" "uart_out e3 = uart_out e2 @ [char_of (8 :: nat)]"
      using pc_sends[of "s\<lparr>io_log := e2\<rparr>" 8] assms(1) by auto
    note e = e1 e2 e3
    have "edit c line s = Some (Inr (butlast line, s\<lparr>io_log := e3\<rparr>)) \<and> length (butlast line) \<le> 255"
      using e 1 assms(2) by (auto simp: edit_def)
    moreover have "uart_out e3 = uart_out (io_log s) @ [char_of (8 :: nat), CHR '' '', char_of (8 :: nat)]"
      using e by simp
    ultimately show ?thesis using wipe_last[OF 1(2), of p r] by blast
  next
    case 2
    obtain es where "pc c s = Some (Inr (s\<lparr>io_log := es\<rparr>))" "uart_out es = uart_out (io_log s) @ [char_of (unat c)]"
      using pc_sends[OF assms(1)] by blast
    moreover from this have "edit c line s = Some (Inr (line @ [c], s\<lparr>io_log := es\<rparr>)) \<and> length (line @ [c]) \<le> 255"
      using 2 by (auto simp: edit_def)
    moreover have "fold term_put [char_of (unat c)] (p @ chars line, r) = (p @ chars (line @ [c]), tl r)"
      using typed_char[OF 2(2)] by (simp add: term_put_def)
    ultimately show ?thesis by blast
  next
    case 3
    moreover have "s = s\<lparr>io_log := io_log s\<rparr>" "uart_out (io_log s) = uart_out (io_log s) @ []"
      "fold term_put [] (p @ chars line, r) = (p @ chars line, r)" by simp_all
    ultimately show ?thesis using assms(2) by metis
  qed
qed



end
