(* ===== verification/Demo_Programs.thy ===== *)
theory Demo_Programs
  imports User_Shell Init_Program Memory_Calls
begin

text \<open>
  The small programs of the repository: \<^verbatim>\<open>hello_spawn.c\<close> and \<^verbatim>\<open>testata.c\<close> under
  \<^verbatim>\<open>_sdk/user_backup\<close>, \<^verbatim>\<open>testchild.c\<close> and \<^verbatim>\<open>fb_test.c\<close> under \<^verbatim>\<open>_sdk/examples\<close>. Shown: the greeting
  reaches the serial line, and the pixels of the frame-buffer test lie inside the frame
  buffer it has mapped.
\<close>

section \<open>A spawned greeting\<close>

definition hello_text :: "u8 list" where
  "hello_text = bytes_of ''Hello from spawned process!'' @ crlf_bytes"

text \<open>One message per character; the program then exits.\<close>

definition hello_start :: "'a uproc_scheme \<Rightarrow> 'a uproc_scheme" where
  "hello_start s = fold (\<lambda>c. u_send 5 0 [c]) hello_text s"

lemma serial_prints_char:
  assumes "uart_responsive (device s)"
  shows "\<exists>es. serial_message (recv_into (a, 0, [c]) u) s = Some (Inr (s\<lparr>io_log := es\<rparr>))
    \<and> uart_out es = uart_out (io_log s) @ [char_of (unat c)]"
  using puts_sends[OF assms, of "chars_of [c]"] put_bytes_out_puts[of "[c]" s]
  by (auto simp: serial_message_def recv_into_def chars_of_def split: Option.bind_splits)

lemma serial_prints_chars:
  assumes "uart_responsive (device s)"
  shows "\<exists>es. serial_drain (map (\<lambda>c. (a, 0, [c])) cs) u s = Some (Inr (s\<lparr>io_log := es\<rparr>))
    \<and> uart_out es = uart_out (io_log s) @ chars_of cs"
  using assms
proof (induction cs arbitrary: u s)
  case Nil
  then show ?case by (auto simp: chars_of_def intro!: exI[of _ "io_log s"])
next
  case (Cons c cs)
  obtain es where "serial_message (recv_into (a, 0, [c]) u) s = Some (Inr (s\<lparr>io_log := es\<rparr>))"
      "uart_out es = uart_out (io_log s) @ [char_of (unat c)]"
    using serial_prints_char[OF Cons.prems] by blast
  then show ?case using Cons.IH[of "s\<lparr>io_log := es\<rparr>" "recv_into (a, 0, [c]) u"] Cons.prems by (auto simp: chars_of_def)
qed

text \<open>The greeting appears on the serial line as it is.\<close>

theorem hello_reaches_serial_line:
  assumes "uart_responsive (device s)" "sent c = []"
  shows "\<exists>t. serial_drain (arriving a 5 (sent (hello_start c))) u s = Some (Inr t)
    \<and> uart_out (io_log t) = uart_out (io_log s) @ chars_of hello_text"
proof -
  have "sent (hello_start c) = map (\<lambda>b. (5, 0, [b])) hello_text"
    unfolding hello_start_def using sent_fold_send(1)[of 5 "\<lambda>_. 0" "\<lambda>b. [b]" hello_text c] assms(2) by simp
  then have "arriving a 5 (sent (hello_start c)) = map (\<lambda>b. (a, 0, [b])) hello_text"
    by (simp add: arriving_def filter_map o_def)
  then show ?thesis using serial_prints_chars[OF assms(1), of a hello_text u] by auto
qed

section \<open>The test child\<close>

text \<open>It waits for a message of process 1, answers it and exits; \<open>None\<close>: no such message comes.\<close>

primrec testchild :: "request \<Rightarrow> sent_msg list \<Rightarrow> 'a uproc_scheme \<Rightarrow> (sent_msg list \<times> 'a uproc_scheme) option" where
  "testchild msg [] s = None"
| "testchild msg (m # ms) s =
     (let msg = recv_into m msg
      in if req_sender msg = 1 then Some (ms, u_send 1 2 [2] s) else testchild msg ms s)"

section \<open>The disk test\<close>

text \<open>Texts are sent without their zero byte, in pieces of at most 63 characters.\<close>

function ata_kputs :: "u8 list \<Rightarrow> 'a uproc_scheme \<Rightarrow> 'a uproc_scheme" where
  "ata_kputs str s = (if str = [] then s else ata_kputs (drop 63 str) (u_send 5 1 (take 63 str) s))"
  by pat_completeness auto
termination by (relation "measure (length \<circ> fst)") simp_all

declare ata_kputs.simps [simp del]

definition ata_kputhex :: "u64 \<Rightarrow> 'a uproc_scheme \<Rightarrow> 'a uproc_scheme" where
  "ata_kputhex v = ata_kputs (bytes_of (puthex_string v))"

text \<open>
  The sector call is a parameter: from the sector number to its result and the contents of the
  buffer afterwards (in this kernel its number, 13, is the one of \<^verbatim>\<open>kill\<close>).
\<close>

definition testata_start :: "(u32 \<Rightarrow> int \<times> u8 list) \<Rightarrow> 'a uproc_scheme \<Rightarrow> 'a uproc_scheme" where
  "testata_start rd s =
     (let s = ata_kputs (bytes_of ''testata: start'' @ crlf_bytes) s;
          (r0, _) = rd 0;
          s = ata_kputs crlf_bytes (ata_kputhex (int_to_u64 r0) (ata_kputs (bytes_of ''r0='') s));
          (r1, sec) = rd 158;
          s = ata_kputs crlf_bytes (ata_kputhex (int_to_u64 r1) (ata_kputs (bytes_of ''r1='') s));
          s = (if r1 = 0
               then ata_kputs crlf_bytes (fold (\<lambda>i. ata_kputhex (ucast (sec ! i))) [0..<11] (ata_kputs (bytes_of ''data: '') s))
               else s)
      in ata_kputs (bytes_of ''testata: done'' @ crlf_bytes) s)"

section \<open>The frame-buffer test\<close>

text \<open>The stores into the frame buffer, in order: index and colour.\<close>

definition rect :: "int \<Rightarrow> int \<Rightarrow> int \<Rightarrow> int \<Rightarrow> u32 \<Rightarrow> (int \<times> u32) list" where
  "rect y0 y1 x0 x1 colour = concat (map (\<lambda>y. map (\<lambda>x. (y * 640 + x, colour)) [x0..x1 - 1]) [y0..y1 - 1])"

definition cross :: "(int \<times> u32) list" where
  "cross = concat (map (\<lambda>i. concat (map (\<lambda>t.
     [((240 + i + t) * 640 + 320 + i, 0x00FFFF00), ((240 - i + t) * 640 + 320 + i, 0x00FFFF00)]) [-1..1])) [-200..199])"

definition fb_pixels :: "(int \<times> u32) list" where
  "fb_pixels =
     rect 0 30 0 640 0x00FFFFFF @ rect 0 480 0 30 0x00FF0000 @ rect 190 290 0 640 0x0000FF00 @
     rect 450 480 0 640 0x000000FF @ cross"

definition vw :: "u64 \<Rightarrow> u64 \<Rightarrow> kstate \<Rightarrow> kstate res" where
  "vw i v s =
     bind_res (sys [] 25 0x1CE i 0 0 s) (\<lambda>(_, s). bind_res (sys [] 25 0x1CF v 0 0 s) (\<lambda>(_, s). Inr s))"

text \<open>The mode is set and the buffer mapped; if that fails nothing is drawn.\<close>

definition fb_start :: "kstate \<Rightarrow> ((int \<times> u32) list \<times> kstate) res" where
  "fb_start s =
     bind_res (vw 0 0xB0C5 s) (\<lambda>s. bind_res (vw 4 0 s) (\<lambda>s. bind_res (vw 1 640 s) (\<lambda>s.
     bind_res (vw 2 480 s) (\<lambda>s. bind_res (vw 3 32 s) (\<lambda>s. bind_res (vw 4 0x41 s) (\<lambda>s.
     bind_res (sys [] 23 0xFD00000 0xFD000000 (640 * 480 * 4) 6 s) (\<lambda>(r, s).
       Inr (if u64_to_int r \<noteq> 0 then [] else fb_pixels, s))))))))"

lemma rect_inside:
  assumes "(k, c) \<in> set (rect y0 y1 x0 x1 colour)" "0 \<le> y0" "y1 \<le> 480" "0 \<le> x0" "x1 \<le> 640"
  shows "0 \<le> k \<and> k < 640 * 480"
proof -
  obtain y x where "k = y * 640 + x" "y0 \<le> y" "y \<le> y1 - 1" "x0 \<le> x" "x \<le> x1 - 1"
    using assms(1) by (auto simp: rect_def)
  then show ?thesis using assms(2-5) by auto
qed

lemma cross_inside:
  assumes "(k, c) \<in> set cross"
  shows "0 \<le> k \<and> k < 640 * 480"
proof -
  obtain i t where "-200 \<le> i" "i \<le> 199" "-1 \<le> t" "t \<le> 1"
    "k = (240 + i + t) * 640 + 320 + i \<or> k = (240 - i + t) * 640 + 320 + i"
    using assms by (auto simp: cross_def simp del: upto_rec_numeral)
  then show ?thesis by (elim disjE) (simp_all; linarith)+
qed

lemma vw_returns: "\<exists>t. vw i v s = Inr t"
  by (simp add: vw_def sys_def syscall_handler_def)

text \<open>
  C39: the frame-buffer test always gets as far as drawing or giving up, and every pixel it stores lies inside the
  640 by 480 pixels of four bytes it has asked the kernel to map; when the mapping fails, it
  stores none.
\<close>

theorem fb_pixels_inside:
  "\<exists>px t. fb_start s = Inr (px, t) \<and> list_all (\<lambda>(k, c). 0 \<le> 4 * k \<and> 4 * k + 4 \<le> 640 * 480 * 4) px"
proof -
  obtain a b c d e f where v: "vw 0 0xB0C5 s = Inr a" "vw 4 0 a = Inr b" "vw 1 640 b = Inr c" "vw 2 480 c = Inr d"
      "vw 3 32 d = Inr e" "vw 4 0x41 e = Inr f"
    using vw_returns by metis
  obtain r t where rt: "sys_mmap_phys 0xFD00000 0xFD000000 (640 * 480 * 4) 6 f = Inr (r, t)"
    using sys_mmap_phys_returns by metis
  have "sys [] 23 0xFD00000 0xFD000000 (640 * 480 * 4) 6 f = Inr (int_to_u64 r, t)"
    unfolding sys_def syscall_handler_def using rt by (simp add: ret_int_def)
  then have run: "fb_start s = Inr (if u64_to_int (int_to_u64 r) \<noteq> 0 then [] else fb_pixels, t)"
    by (simp add: fb_start_def v)
  have "0 \<le> k \<and> k < 640 * 480" if "(k, c) \<in> set fb_pixels" for k c
    using that rect_inside[of k c] cross_inside[of k c] unfolding fb_pixels_def set_append Un_iff by fastforce
  then have "list_all (\<lambda>(k, c). 0 \<le> 4 * k \<and> 4 * k + 4 \<le> 640 * 480 * 4) fb_pixels" unfolding list_all_iff by fastforce
  then show ?thesis unfolding run by (auto split: if_splits simp del: mult_numeral_left_semiring_numeral)
qed

end
