(* ===== verification/User_Stubs.thy ===== *)
theory User_Stubs
  imports Init_Program Message_Delivery User_Drivers Scheduling
begin

text \<open>
  The system-call stubs of the user programs (here those of \<^verbatim>\<open>_sdk/user_backup/disk.c\<close> and
  \<^verbatim>\<open>keyboard_driver.c\<close>; the other programs have the same ones), run against the kernel's dispatcher. They connect
  the two levels of the model: what \<open>User_Messages\<close> says of \<^verbatim>\<open>recv\<close> and \<^verbatim>\<open>send\<close> is what the
  kernel does to the memory of the programs and the queues, and a key press goes
  through the kernel and the keyboard driver to the shell.
\<close>

section \<open>Stubs\<close>

text \<open>
  A stub sets some argument registers only; \<open>x\<close>, \<open>y\<close>, \<open>z\<close> are what the others hold.
\<close>

definition recv_stub :: "u64 \<Rightarrow> u64 \<Rightarrow> u64 \<Rightarrow> u64 \<Rightarrow> kstate \<Rightarrow> (int \<times> kstate) res" where
  "recv_stub x y z msg s = bind_res (sys [] 3 msg x y z s) (\<lambda>(r, s). Inr (u64_to_int r, s))"

definition send_stub :: "u64 \<Rightarrow> u64 \<Rightarrow> u64 \<Rightarrow> u64 \<Rightarrow> kstate \<Rightarrow> (int \<times> kstate) res" where
  "send_stub pid typ data len s = bind_res (sys [] 2 pid typ data len s) (\<lambda>(r, s). Inr (u64_to_int r, s))"

definition inb_stub :: "u64 \<Rightarrow> u64 \<Rightarrow> u64 \<Rightarrow> u16 \<Rightarrow> kstate \<Rightarrow> (u8 \<times> kstate) res" where
  "inb_stub x y z port s = bind_res (sys [] 4 (ucast port) x y z s) (\<lambda>(r, s). Inr (ucast r, s))"

definition outb_stub :: "u64 \<Rightarrow> u64 \<Rightarrow> u16 \<Rightarrow> u8 \<Rightarrow> kstate \<Rightarrow> kstate res" where
  "outb_stub x y port val s = bind_res (sys [] 5 (ucast port) (ucast val) x y s) (\<lambda>(_, s). Inr s)"

definition irq_register_stub :: "u64 \<Rightarrow> u64 \<Rightarrow> u64 \<Rightarrow> u64 \<Rightarrow> kstate \<Rightarrow> (int \<times> kstate) res" where
  "irq_register_stub x y z irq s = bind_res (sys [] 10 irq x y z s) (\<lambda>(r, s). Inr (u64_to_int r, s))"

text \<open>The port stubs are the port accesses the driver models are written with.\<close>

lemma port_stubs:
  "inb_stub x y z port s = Inr (inb port s)" "outb_stub x y port val s = Inr (outb port val s)"
proof -
  have b: "ucast (ucast v :: u64) = v" for v :: u8 by (rule bit_word_eqI) (auto simp: bit_unsigned_iff)
  have p: "ucast (ucast v :: u64) = v" for v :: u16 by (rule bit_word_eqI) (auto simp: bit_unsigned_iff)
  show "inb_stub x y z port s = Inr (inb port s)" "outb_stub x y port val s = Inr (outb port val s)"
    by (simp_all add: inb_stub_def outb_stub_def b p split: prod.split)
qed

lemma int_result [simp]: "u64_to_int (int_to_u64 0) = 0" "u64_to_int (int_to_u64 (- 1)) = - 1"
proof -
  have "(ucast (- 1 :: u64) :: u32) = - 1" by (rule bit_word_eqI) (simp add: bit_unsigned_iff)
  then show "u64_to_int (int_to_u64 0) = 0" "u64_to_int (int_to_u64 (- 1)) = - 1"
    by (simp_all add: u64_to_int_def int_to_u64_def)
qed

section \<open>Receiving\<close>

text \<open>The structure \<^verbatim>\<open>ipc_msg_t\<close> at a physical address.\<close>

definition message_at :: "memory \<Rightarrow> u64 \<Rightarrow> request" where
  "message_at m pa =
     \<lparr>req_sender = le_word (field m pa 0 8), req_type = le_word (field m pa 8 8), req_data = field m pa 16 64,
      req_length = le_word (field m pa 80 8)\<rparr>"

lemma length_field [simp]: "length (field m pa k l) = l"
  by (simp add: field_def)

lemma field_append: "field m pa k (a + b) = field m pa k a @ field m pa (k + a) b"
  by (rule nth_equalityI) (auto simp: field_def nth_append add.assoc)

text \<open>The bytes behind the data of a short message stay.\<close>

lemma delivered_data:
  assumes "length (msg_data src) = 64" "msg_length src \<le> 64"
  defines "bytes \<equiv> take (unat (msg_length src)) (msg_data src)"
  shows "field (delivered src pa m) pa 16 64 = bytes @ drop (length bytes) (field m pa 16 64)"
proof -
  have l: "unat (msg_length src) \<le> 64" using assms(2) by (simp add: word_le_nat_alt)
  then have len: "length bytes = unat (msg_length src)" "length bytes \<le> 64" using assms(1) by (simp_all add: bytes_def)
  let ?n = "length bytes"
  have split: "field m' pa 16 64 = field m' pa 16 ?n @ field m' pa (16 + ?n) (64 - ?n)" for m'
    using field_append[of m' pa 16 ?n "64 - ?n"] len(2) by simp
  have word: "field (store (le_bytes 8 v) (pa + of_nat k) m') pa (16 + ?n) (64 - ?n) = field m' pa (16 + ?n) (64 - ?n)"
    if "k + 8 \<le> 16 \<or> 80 \<le> k" "k < 1000" for v :: u64 and k m'
    using store_field_other[of k "le_bytes 8 v" "16 + ?n" "64 - ?n" pa m'] that len(2) by auto
  have "field (delivered src pa m) pa (16 + ?n) (64 - ?n) = field m pa (16 + ?n) (64 - ?n)"
    unfolding delivered_def bytes_def[symmetric]
    using store_field_other[of 16 bytes "16 + ?n" "64 - ?n" pa] len(2) word[of 0] word[of 8] word[of 80] by simp
  moreover have "field (delivered src pa m) pa 16 ?n = bytes"
    using delivered_fields(4)[OF assms(1,2)] len(1) by (simp add: bytes_def)
  moreover have "drop ?n (field m pa 16 64) = field m pa (16 + ?n) (64 - ?n)"
    unfolding split[of m] by simp
  ultimately show ?thesis unfolding split[of "delivered src pa m"] by simp
qed

lemma recv_stub_receives:
  assumes "kernel_inv s" "0 \<le> current_task s" "stable_buffer s msg pa 88"
    and "inbox (task_at s (nat (current_task s))) = m # rest"
  shows "\<exists>t. recv_stub x y z msg s = Inr (0, t) \<and> inbox (task_at t (nat (current_task s))) = rest
    \<and> message_at (mem t) pa = recv_into m (message_at (mem s) pa)"
proof -
  let ?i = "nat (current_task s)"
  obtain sender typ' bytes where m: "m = (sender, typ', bytes)" by (cases m)
  obtain src where src: "length (msg_data src) = 64" "msg_length src \<le> 64" "sender_pid src = sender" "msg_type src = typ'"
    "take (unat (msg_length src)) (msg_data src) = bytes" "length bytes = unat (msg_length src)"
    "sys_recv msg s = Inr (0, upd_task ?i ipc_drop (s\<lparr>mem := delivered src pa (mem s)\<rparr>))"
    "inbox (ipc_drop (task_at s ?i)) = rest" "?i < length (tasks s)"
    using sys_recv_delivered[OF assms(1-3) assms(4)[unfolded m]] by metis
  note fl = delivered_fields[OF src(1,2), where pa = pa and m = "mem s"]
  have "message_at (delivered src pa (mem s)) pa = recv_into m (message_at (mem s) pa)"
    using fl(1-3) delivered_data[OF src(1,2), of pa "mem s"] src(3-6)
    by (simp add: message_at_def recv_into_def m le_word_64)
  then show ?thesis
    using src(7-9) by (simp add: recv_stub_def sys_def syscall_handler_def ret_int_def)
qed



section \<open>Sending\<close>

text \<open>
  What \<^verbatim>\<open>send\<close> puts into the queue of a receiver that has room is the message of the log of \<open>u_send\<close>: at most 64 bytes of
  the data, with the identifier of the sender.
\<close>

lemma vread_prefix:
  assumes "vread n va s = Inr bytes" "k \<le> n"
  shows "vread k va s = Inr (take k bytes)"
  using assms
proof (induction k arbitrary: n va bytes)
  case (Suc k)
  then obtain n' where n: "n = Suc n'" by (cases n) auto
  then obtain pa bs where b: "translate s va = Inr pa" "vread n' (va + 1) s = Inr bs" "bytes = mem s pa # bs"
    using Suc.prems(1) by (auto simp: bind_res_Inr)
  then show ?case using Suc.IH[OF b(2)] Suc.prems(2) n by simp
qed simp

lemma send_stub_sends:
  assumes "kernel_inv s" "find_live pid s = Some i" "length (inbox (task_at s i)) < 16"
    and "vread (unat len) data s = Inr bytes"
  shows "\<exists>t. send_stub pid code data len s = Inr (0, t)
    \<and> inbox (task_at t i) = inbox (task_at s i) @ [(sys_getpid s, code, take 64 bytes)]"
proof -
  have "vread (min (unat len) 64) data s = Inr (take 64 bytes)"
    using vread_prefix[OF assms(4), of "min (unat len) 64"] vread_length[OF assms(4)] by (simp add: min_def split: if_splits)
  from sys_send_puts[OF assms(1-3) this] show ?thesis
    by (simp add: send_stub_def sys_def syscall_handler_def ret_int_def)
qed

section \<open>From the keyboard to the shell\<close>

lemma irq_handlers_length: "kernel_inv s \<Longrightarrow> length (irq_handlers s) = 16"
  by (simp add: kernel_inv_def kernel_ok_def)

text \<open>The keyboard interrupt while a live task is registered for it.\<close>

lemma keyboard_irq_queues:
  assumes "kernel_inv s" "irq_handlers s ! 1 = int i" "i < 64" "t_state (task_at s i) \<noteq> TASK_EXITED"
    and "length (inbox (task_at s i)) < 16"
  shows "inbox (task_at (keyboard_irq s) i) = inbox (task_at s i) @ [(0, 0, [fst (inb 0x60 s)])]"
    "cr3 (keyboard_irq s) = cr3 s"
proof -
  have i: "i < length (tasks s)" using kernel_inv_bounds(1)[OF assms(1)] assms(3) by simp
  have ok: "ipc_ok (task_at s i)" using kernel_inv_task[OF assms(1,3)] by (simp add: task_ok_def)
  have room: "ipc_count (task_at s i) < 16" using assms(5) by (simp add: word_less_nat_alt)
  show "inbox (task_at (keyboard_irq s) i) = inbox (task_at s i) @ [(0, 0, [fst (inb 0x60 s)])]"
    "cr3 (keyboard_irq s) = cr3 s"
    using assms(2-4) i room ipc_put_correct(2)[OF ok room, of "[fst (inb 0x60 s)]" 0 0]
    by (simp_all add: keyboard_irq_def Let_def inb_def)
qed

text \<open>
  C33: a key press reaches the shell. After the keyboard driver has registered for interrupt 1, the keyboard interrupt
  makes the kernel queue the scan code the controller delivers as a message from process 0; the driver's next
  \<^verbatim>\<open>recv\<close> returns it into its structure, and its handler sends the shell (process 4) the
  character of the table, or nothing for the release of a key or a key without one.
\<close>

theorem key_press_reaches_shell:
  fixes p :: "'a uproc_scheme"
  assumes "kernel_inv s" "current_task s = int i" "t_state (task_at s i) \<noteq> TASK_EXITED" "inbox (task_at s i) = []"
    and "stable_buffer s msg pa 88"
  defines "sc \<equiv> fst (inb 0x60 (outb 0x20 0x20 s))"
  shows "\<exists>u t. irq_register_stub x y z 1 s = Inr (0, u) \<and> recv_stub x y z msg (irq_common 33 u) = Inr (0, t)
    \<and> inbox (task_at t i) = []
    \<and> keyboard_message (message_at (mem t) pa) p =
        (if sc AND 0x80 = 0 \<and> unat sc < length keymap \<and> keymap ! unat sc \<noteq> 0 then u_send 4 0 [keymap ! unat sc] p else p)"
proof -
  let ?u = "s\<lparr>irq_handlers := (irq_handlers s)[1 := int i]\<rparr>"
  let ?v = "outb 0x20 0x20 ?u"
  let ?w = "irq_common 33 ?u"
  have i: "i < 64" using kernel_inv_bounds(3)[OF assms(1)] assms(2) by simp
  have reg: "sys_irq_register 1 s = (0, ?u)" using assms(2) by (simp add: sys_irq_register_def word_le_nat_alt)
  then have stub: "irq_register_stub x y z 1 s = Inr (0, ?u)"
    by (simp add: irq_register_stub_def sys_def syscall_handler_def ret_int_def)
  have u: "kernel_inv ?u" using sys_irq_register_inv[OF reg assms(1)] .
  have h: "irq_handlers ?v ! 1 = int i" using irq_handlers_length[OF assms(1)] by (simp add: outb_def)
  have v: "kernel_inv ?v" using u by simp
  have w: "?w = keyboard_irq ?v" by (simp add: irq_common_def)
  have sc': "fst (inb 0x60 ?v) = sc" by (simp add: sc_def inb_def outb_def Let_def)
  have q: "inbox (task_at ?w i) = [(0, 0, [sc])]" "cr3 ?w = cr3 s"
    using keyboard_irq_queues[OF v h i] assms(3,4) sc' unfolding w by (simp_all add: outb_def)
  have cur: "current_task ?w = int i" "mem ?w = mem s" using assms(2) unfolding w by (simp_all add: outb_def)
  have st: "stable_buffer ?w msg pa 88" using assms(5) stable_buffer_cong[OF cur(2) q(2)] by simp
  have inv: "kernel_inv ?w" using keyboard_irq_inv[OF v] unfolding w .
  obtain t where t: "recv_stub x y z msg ?w = Inr (0, t)" "inbox (task_at t i) = []"
    "message_at (mem t) pa = recv_into (0, 0, [sc]) (message_at (mem ?w) pa)"
    using recv_stub_receives[OF inv _ st, of "(0, 0, [sc])" "[]" x y z] q(1) cur(1) by auto
  have "keyboard_message (message_at (mem t) pa) p =
      (if sc AND 0x80 = 0 \<and> unat sc < length keymap \<and> keymap ! unat sc \<noteq> 0 then u_send 4 0 [keymap ! unat sc] p else p)"
    by (simp add: t(3) keyboard_message_def recv_into_def Let_def)
  then show ?thesis using stub t(1,2) by blast
qed

theorem key_press_reaches_shell_witness:
  "\<exists>u t. irq_register_stub 0 0 0 1 kernel_demo = Inr (0, u) \<and> recv_stub 0 0 0 0x500000 (irq_common 33 u) = Inr (0, t)
     \<and> inbox (task_at t 0) = []
     \<and> keyboard_message (message_at (mem t) 0x500000) uproc_demo =
         (let sc = fst (inb 0x60 (outb 0x20 0x20 kernel_demo))
          in if sc AND 0x80 = 0 \<and> unat sc < length keymap \<and> keymap ! unat sc \<noteq> 0
             then u_send 4 0 [keymap ! unat sc] uproc_demo else uproc_demo)"
proof -
  have "stable_buffer kernel_demo 0x500000 0x500000 88"
    by (rule boot_buffer[of _ "mem pmm_demo"]) (simp_all add: boot_demo_def)
  moreover have "inbox (task_at kernel_demo 0) = []" "t_state (task_at kernel_demo 0) \<noteq> TASK_EXITED" "current_task kernel_demo = int 0"
    by (simp_all add: demo_task_def zero_task_def inbox_def ring_slots_def)
  ultimately show ?thesis
    unfolding Let_def by (intro key_press_reaches_shell[OF kernel_demo_inv, where i = 0]) simp_all
qed

end
