(* ===== verification/Table_Tree.thy ===== *)
theory Table_Tree
  imports Address_Spaces "HOL-Library.Sublist"
begin

text \<open>
  The page tables of a whole address space as a tree, and what the operations of
  \<^verbatim>\<open>kernel/paging.c\<close> do to all of its translations at once. A table is named by the indices that lead to it,
  last one first; the invariant is that no two names lead to the same page and that no table is a free frame.
\<close>

section \<open>The tree\<close>

fun table_of :: "memory \<Rightarrow> u64 \<Rightarrow> u64 list \<Rightarrow> u64 option" where
  "table_of m root [] = Some root"
| "table_of m root (i # k) =
     (case table_of m root k of
        None \<Rightarrow> None
      | Some t \<Rightarrow>
          if i < 512 \<and> length k < 3 \<and> entry m t i AND 1 \<noteq> 0 \<and> entry m t i AND PAGE_PS = 0
          then Some (page_of (entry m t i)) else None)"

definition space_ok :: "memory \<Rightarrow> u64 \<Rightarrow> u64 list \<Rightarrow> bool" where
  "space_ok m root ps \<longleftrightarrow>
     page_aligned root
     \<and> (\<forall>k t. table_of m root k = Some t \<longrightarrow> t \<notin> set ps)
     \<and> (\<forall>k k' t. table_of m root k = Some t \<longrightarrow> table_of m root k' = Some t \<longrightarrow> k = k')
     \<and> (\<forall>k t i. length k < 2 \<longrightarrow> table_of m root k = Some t \<longrightarrow> i < 512 \<longrightarrow> entry m t i AND PAGE_PS = 0)"

lemma space_okD:
  assumes "space_ok m root ps"
  shows "page_aligned root" "table_of m root k = Some t \<Longrightarrow> t \<notin> set ps"
    "table_of m root k = Some t \<Longrightarrow> table_of m root k' = Some t \<Longrightarrow> k = k'"
    "length k < 2 \<Longrightarrow> table_of m root k = Some t \<Longrightarrow> i < 512 \<Longrightarrow> entry m t i AND PAGE_PS = 0"
  using assms unfolding space_ok_def by blast+

lemma table_aligned:
  assumes "page_aligned root" "table_of m root k = Some t"
  shows "page_aligned t"
  using assms by (cases k) (auto split: option.splits if_splits)

text \<open>The names of the tables on the way to an address, and of its last entry.\<close>

definition key :: "u64 \<Rightarrow> u64 list" where
  "key va = [pt_i va, pdt_i va, pdpt_i va, pml4_i va]"

lemma walk_slot_key:
  assumes "space_ok m root ps" "(t, i) \<in> set (walk_slots m root va)"
  shows "\<exists>k n. table_of m root k = Some t \<and> i # k = drop n (key va)"
proof -
  let ?e4 = "entry m root (pml4_i va)"
  let ?e3 = "entry m (page_of ?e4) (pdpt_i va)"
  let ?e2 = "entry m (page_of ?e3) (pdt_i va)"
  note ps = space_okD(4)[OF assms(1)]
  have 4: "?e4 AND PAGE_PS = 0" using ps[of "[]" root "pml4_i va"] by simp
  have 3: "table_of m root [pml4_i va] = Some (page_of ?e4)" if "?e4 AND 1 \<noteq> 0" using that 4 by simp
  have 2: "table_of m root [pdpt_i va, pml4_i va] = Some (page_of ?e3)"
    if "?e4 AND 1 \<noteq> 0" "?e3 AND 1 \<noteq> 0" "?e3 AND PAGE_PS = 0" using that 3 by simp
  have 1: "table_of m root [pdt_i va, pdpt_i va, pml4_i va] = Some (page_of ?e2)"
    if "?e4 AND 1 \<noteq> 0" "?e3 AND 1 \<noteq> 0" "?e3 AND PAGE_PS = 0" "?e2 AND 1 \<noteq> 0" "?e2 AND PAGE_PS = 0"
    using that 2 by simp
  consider "(t, i) = (root, pml4_i va)"
    | "?e4 AND 1 \<noteq> 0" "(t, i) = (page_of ?e4, pdpt_i va)"
    | "?e4 AND 1 \<noteq> 0" "?e3 AND 1 \<noteq> 0" "?e3 AND PAGE_PS = 0" "(t, i) = (page_of ?e3, pdt_i va)"
    | "?e4 AND 1 \<noteq> 0" "?e3 AND 1 \<noteq> 0" "?e3 AND PAGE_PS = 0" "?e2 AND 1 \<noteq> 0" "?e2 AND PAGE_PS = 0" "(t, i) = (page_of ?e2, pt_i va)"
    using assms(2) by (auto simp: walk_slots_def walk_tables_def Let_def split: if_splits)
  then show ?thesis
  proof cases
    case 1
    then show ?thesis by (intro exI[of _ "[]"] exI[of _ 3]) (simp add: key_def)
  next
    case 2
    then show ?thesis using 3 by (intro exI[of _ "[pml4_i va]"] exI[of _ 2]) (simp add: key_def)
  next
    case 3
    then show ?thesis using 2 by (intro exI[of _ "[pdpt_i va, pml4_i va]"] exI[of _ 1]) (simp add: key_def)
  next
    case 4
    then show ?thesis using 1 by (intro exI[of _ "[pdt_i va, pdpt_i va, pml4_i va]"] exI[of _ 0]) (simp add: key_def)
  qed
qed

section \<open>Changes\<close>

lemma table_of_depth: "table_of m root k = Some t \<Longrightarrow> length k \<le> 3"
  by (cases k) (auto split: option.splits if_splits)

lemma table_of_below: "table_of m root k = None \<Longrightarrow> table_of m root (xs @ k) = None"
  by (induction xs) simp_all

text \<open>A store into one entry concerns only the tables below it.\<close>

lemma table_of_store:
  assumes "space_ok m root ps" "table_of m root k = Some t" "\<nexists>xs. k' = xs @ i # k"
    and "\<And>u j. page_aligned u \<Longrightarrow> j < 512 \<Longrightarrow> u \<notin> set ps \<Longrightarrow> (u, j) \<noteq> (t, i) \<Longrightarrow> entry m' u j = entry m u j"
  shows "table_of m' root k' = table_of m root k'"
  using assms(3)
proof (induction k')
  case (Cons j k')
  then have eq: "table_of m' root k' = table_of m root k'" by (metis append_Cons)
  show ?case
  proof (cases "table_of m root k'")
    case (Some u)
    have "(u, j) \<noteq> (t, i)" using Some space_okD(3)[OF assms(1,2)] Cons.prems by auto
    then have "j < 512 \<Longrightarrow> entry m' u j = entry m u j"
      using assms(4) Some space_okD(1,2)[OF assms(1)] table_aligned by blast
    then show ?thesis using eq Some by (auto split: if_splits)
  qed (simp add: eq)
qed simp

text \<open>The free frame \<open>p\<close> becomes the table of entry \<open>i\<close> of table \<open>k\<close>.\<close>

definition adds_table :: "memory \<Rightarrow> u64 \<Rightarrow> u64 \<Rightarrow> u64 list \<Rightarrow> u64 \<Rightarrow> u64 \<Rightarrow> memory \<Rightarrow> bool" where
  "adds_table m root p k t i m' \<longleftrightarrow>
     page_aligned p \<and> table_of m root k = Some t \<and> length k < 3 \<and> i < 512 \<and> table_of m root (i # k) = None
     \<and> (\<forall>u j. page_aligned u \<longrightarrow> j < 512 \<longrightarrow> u \<noteq> p \<longrightarrow>
          entry m' u j = (if u = t \<and> j = i then p OR (if length k = 2 then 7 else 3) else entry m u j))
     \<and> (length k = 2 \<or> (\<forall>j < 512. entry m' p j = 0))"

lemma adds_table_entries:
  assumes "adds_table m root p k t i m'"
  obtains e where "\<And>u j. page_aligned u \<Longrightarrow> j < 512 \<Longrightarrow> u \<noteq> p \<Longrightarrow> entry m' u j = (if u = t \<and> j = i then e else entry m u j)"
    "page_of e = p" "e AND 1 \<noteq> 0" "e AND PAGE_PS = 0" "e AND PAGE_USER \<noteq> 0 \<longleftrightarrow> length k = 2"
proof -
  have "page_aligned p" using assms by (simp add: adds_table_def)
  then show thesis
    using assms table_entry_bits[of p] low_bit_of_or[of p 4]
    by (intro that[of "p OR (if length k = 2 then 7 else 3)"]) (auto simp: adds_table_def)
qed

lemma table_of_added:
  assumes "space_ok m root (p # ps)" "adds_table m root p k t i m'"
  shows "table_of m' root k' = (if k' = i # k then Some p else table_of m root k')"
proof -
  have a: "page_aligned p" "table_of m root k = Some t" "length k < 3" "i < 512" "table_of m root (i # k) = None"
      "length k = 2 \<or> (\<forall>j < 512. entry m' p j = 0)"
    using assms(2) unfolding adds_table_def by blast+
  obtain new where e: "\<And>u j. page_aligned u \<Longrightarrow> j < 512 \<Longrightarrow> u \<noteq> p \<Longrightarrow> entry m' u j = (if u = t \<and> j = i then new else entry m u j)"
    "page_of new = p" "new AND 1 \<noteq> 0" "new AND PAGE_PS = 0" "new AND PAGE_USER \<noteq> 0 \<longleftrightarrow> length k = 2"
    by (rule adds_table_entries[OF assms(2)]) (rule that, assumption+)
  have t: "t \<noteq> p" "page_aligned t" using a space_okD(1,2)[OF assms(1)] table_aligned by auto
  have other: "table_of m' root k' = table_of m root k'" if "\<nexists>xs. k' = xs @ i # k" for k'
    using a that e(1) by (intro table_of_store[OF assms(1)]) auto
  have "table_of m' root k = Some t" using a other[of k] by (metis append_eq_Cons_conv impossible_Cons le_add2 length_append list.size(4) not_Cons_self2)
  then have new: "table_of m' root (i # k) = Some p" using a t e by auto
  have below: "table_of m' root (xs @ i # k) = (if xs = [] then Some p else None)" for xs
  proof (induction xs)
    case (Cons j xs)
    then show ?case using a by auto
  qed (use new in simp)
  show ?thesis
  proof (cases "\<exists>xs. k' = xs @ i # k")
    case True
    then obtain xs where "k' = xs @ i # k" by blast
    then show ?thesis using below[of xs] table_of_below[of m root "i # k" xs] a by auto
  qed (use other in auto)
qed

lemma space_ok_added:
  assumes "space_ok m root (p # ps)" "adds_table m root p k t i m'" "p \<notin> set ps"
  shows "space_ok m' root ps"
proof -
  note tab = table_of_added[OF assms(1,2)] and old = space_okD[OF assms(1)]
  obtain new where e: "\<And>u j. page_aligned u \<Longrightarrow> j < 512 \<Longrightarrow> u \<noteq> p \<Longrightarrow> entry m' u j = (if u = t \<and> j = i then new else entry m u j)"
    "page_of new = p" "new AND 1 \<noteq> 0" "new AND PAGE_PS = 0" "new AND PAGE_USER \<noteq> 0 \<longleftrightarrow> length k = 2"
    by (rule adds_table_entries[OF assms(2)]) (rule that, assumption+)
  have ps: "entry m' u j AND PAGE_PS = 0" if "length k' < 2" "table_of m' root k' = Some u" "j < 512" for k' u j
  proof (cases "k' = i # k")
    case True
    then have "u = p" using that(2) tab[of k'] by (simp del: table_of.simps)
    then show ?thesis using that(1,3) True assms(2) by (auto simp: adds_table_def)
  next
    case False
    then have u: "table_of m root k' = Some u" using that tab by simp
    then have "u \<noteq> p" "page_aligned u" using old(1,2) table_aligned by auto
    then show ?thesis using e(1,4) that old(4)[OF that(1) u that(3)] by simp
  qed
  have "u \<notin> set ps" if "table_of m' root k' = Some u" for k' u
    using that tab[of k'] old(2)[of k' u] assms(3) by (auto split: if_splits)
  moreover have "k1 = k2" if "table_of m' root k1 = Some u" "table_of m' root k2 = Some u" for k1 k2 u
    using that tab[of k1] tab[of k2] old(2)[of k1 u] old(2)[of k2 u] old(3)[of k1 u k2]
    by (auto split: if_splits)
  ultimately show ?thesis using ps old(1) unfolding space_ok_def by blast
qed

text \<open>
  What an entry of a page table, or of a page directory without a table, makes of an address: the translation and the
  user bit. The levels above add whether the way to it is open.
\<close>

definition small_page :: "u64 \<Rightarrow> u64 \<Rightarrow> (u64 \<times> bool) option" where
  "small_page e va = (if e AND 1 = 0 then None else Some (page_of e OR (va AND 0xFFF), e AND PAGE_USER \<noteq> 0))"

definition large_page :: "u64 \<Rightarrow> u64 \<Rightarrow> (u64 \<times> bool) option" where
  "large_page e va =
     (if e AND 1 = 0 then None else Some ((e AND NOT 0x1FFFFF) OR (va AND 0x1FFFFF), e AND PAGE_USER \<noteq> 0))"

definition under :: "bool \<Rightarrow> (u64 \<times> bool) option \<Rightarrow> u64 option \<times> bool \<times> bool" where
  "under way r = (case r of None \<Rightarrow> (None, False, way) | Some (pa, usr) \<Rightarrow> (Some pa, way \<and> usr, way))"

definition upper_user :: "memory \<Rightarrow> u64 \<Rightarrow> u64 \<Rightarrow> bool" where
  "upper_user m root va \<longleftrightarrow>
     entry m root (pml4_i va) AND PAGE_USER \<noteq> 0
     \<and> entry m (page_of (entry m root (pml4_i va))) (pdpt_i va) AND PAGE_USER \<noteq> 0"

lemma view_by_tables:
  assumes "space_ok m root ps"
  shows "table_of m root [pml4_i va] = None \<Longrightarrow> view m root va = under False None"
    "table_of m root [pml4_i va] = Some t3 \<Longrightarrow> table_of m root [pdpt_i va, pml4_i va] = None \<Longrightarrow> view m root va = under False None"
    "table_of m root [pdpt_i va, pml4_i va] = Some t2 \<Longrightarrow> table_of m root [pdt_i va, pdpt_i va, pml4_i va] = None \<Longrightarrow>
       view m root va = under (upper_user m root va) (large_page (entry m t2 (pdt_i va)) va)"
    "table_of m root [pdt_i va, pdpt_i va, pml4_i va] = Some t1 \<Longrightarrow> table_of m root [pdpt_i va, pml4_i va] = Some t2 \<Longrightarrow>
       view m root va = under (upper_user m root va \<and> entry m t2 (pdt_i va) AND PAGE_USER \<noteq> 0) (small_page (entry m t1 (pt_i va)) va)"
proof -
  note ps = space_okD(4)[OF assms, of "[]" root "pml4_i va"] space_okD(4)[OF assms, of "[pml4_i va]" t3 "pdpt_i va"]
  note defs = view_def mmu_user_def mmu_walk_def user_way_def under_def upper_user_def small_page_def large_page_def Let_def
  show "table_of m root [pml4_i va] = None \<Longrightarrow> view m root va = under False None"
    using ps(1) by (auto simp: defs split: if_splits)
  show "table_of m root [pml4_i va] = Some t3 \<Longrightarrow> table_of m root [pdpt_i va, pml4_i va] = None \<Longrightarrow> view m root va = under False None"
    using ps by (auto simp: defs split: if_splits)
  show "table_of m root [pdpt_i va, pml4_i va] = Some t2 \<Longrightarrow> table_of m root [pdt_i va, pdpt_i va, pml4_i va] = None \<Longrightarrow>
       view m root va = under (upper_user m root va) (large_page (entry m t2 (pdt_i va)) va)"
    by (auto simp: defs split: if_splits option.splits)
  show "table_of m root [pdt_i va, pdpt_i va, pml4_i va] = Some t1 \<Longrightarrow> table_of m root [pdpt_i va, pml4_i va] = Some t2 \<Longrightarrow>
       view m root va = under (upper_user m root va \<and> entry m t2 (pdt_i va) AND PAGE_USER \<noteq> 0) (small_page (entry m t1 (pt_i va)) va)"
    by (auto simp: defs split: if_splits option.splits)
qed

lemma view_added_below:
  assumes "space_ok m root (p # ps)" "adds_table m root p k t i m'" "p \<notin> set ps" "i # k = drop n (key va)"
    and "length k = 2 \<Longrightarrow> small_page (entry m' p (pt_i va)) va = large_page (entry m t i) va"
  shows "view m' root va = view m root va"
proof -
  have a: "table_of m root k = Some t" "table_of m root (i # k) = None" "length k < 3" "i < 512"
    and zero: "\<And>j. length k \<noteq> 2 \<Longrightarrow> j < 512 \<Longrightarrow> entry m' p j = 0"
    using assms(2) unfolding adds_table_def by blast+
  obtain new where e: "\<And>u j. page_aligned u \<Longrightarrow> j < 512 \<Longrightarrow> u \<noteq> p \<Longrightarrow> entry m' u j = (if u = t \<and> j = i then new else entry m u j)"
    "page_of new = p" "new AND 1 \<noteq> 0" "new AND PAGE_PS = 0" "new AND PAGE_USER \<noteq> 0 \<longleftrightarrow> length k = 2"
    by (rule adds_table_entries[OF assms(2)]) (rule that, assumption+)
  note tab = table_of_added[OF assms(1,2)] and old = view_by_tables[OF assms(1), of va] and ok = space_okD[OF assms(1)]
    and new = view_by_tables[OF space_ok_added[OF assms(1-3)], of va]
  have ent: "entry m' u j = (if u = t \<and> j = i then new else entry m u j)" if "table_of m root k' = Some u" "j < 512" for k' u j
    using e(1) that ok(2)[OF that(1)] table_aligned[OF ok(1) that(1)] by simp
  have "length (i # k) = 4 - n" unfolding assms(4) by (simp add: key_def)
  then have "n = 1 \<or> n = 2 \<or> n = 3" using a(3) by (simp; arith)
  then consider "i = pml4_i va" "k = []" | "i = pdpt_i va" "k = [pml4_i va]" | "i = pdt_i va" "k = [pdpt_i va, pml4_i va]"
    using assms(4) by (elim disjE) (simp_all add: key_def)
  then show ?thesis
  proof cases
    case 1
    have "view m root va = under False None" using old(1) a(2) 1 by (simp del: table_of.simps)
    moreover have "view m' root va = under False None"
      using new(2)[of p] tab a(2) 1 table_of_below[of m root "[pml4_i va]" "[pdpt_i va]"] by (simp del: table_of.simps)
    ultimately show ?thesis by simp
  next
    case 2
    have "view m root va = under False None" using old(2)[of t] a(1,2) 2 by (simp del: table_of.simps)
    moreover have "root \<noteq> t" using ok(3)[OF a(1), of "[]"] 2 by auto
    then have "entry m' root (pml4_i va) = entry m root (pml4_i va)" using ent[of "[]" root "pml4_i va"] by simp
    moreover have "page_of (entry m root (pml4_i va)) = t" using a(1) 2 by (simp split: if_splits)
    ultimately have "\<not> upper_user m' root va" using ent[OF a(1), of "pdpt_i va"] e(5) 2 by (simp add: upper_user_def)
    moreover have "large_page (entry m' p (pdt_i va)) va = None" using zero[of "pdt_i va"] 2 by (simp add: large_page_def)
    ultimately have "view m' root va = under False None"
      using new(3)[of p] tab a(2) 2 table_of_below[of m root "[pdpt_i va, pml4_i va]" "[pdt_i va]"] by (simp del: table_of.simps)
    then show ?thesis using \<open>view m root va = under False None\<close> by simp
  next
    case 3
    obtain t3 where t3: "table_of m root [pml4_i va] = Some t3" using a(1) 3 by (cases "table_of m root [pml4_i va]") simp_all
    have "root \<noteq> t" "t3 \<noteq> t" using ok(3)[OF a(1), of "[]"] ok(3)[OF a(1), of "[pml4_i va]"] t3 3 by auto
    then have "entry m' root (pml4_i va) = entry m root (pml4_i va)" "entry m' t3 (pdpt_i va) = entry m t3 (pdpt_i va)"
      using ent[of "[]" root "pml4_i va"] ent[OF t3, of "pdpt_i va"] by simp_all
    moreover have "page_of (entry m root (pml4_i va)) = t3" using t3 by (simp split: if_splits)
    ultimately have up: "upper_user m' root va = upper_user m root va" by (simp add: upper_user_def)
    have "entry m' t (pdt_i va) AND PAGE_USER \<noteq> 0" using ent[OF a(1), of "pdt_i va"] e(5) 3 by simp
    then have "view m' root va = under (upper_user m root va) (small_page (entry m' p (pt_i va)) va)"
      using new(4)[of p t] tab a(1) 3 up by (simp del: table_of.simps)
    moreover have "view m root va = under (upper_user m root va) (large_page (entry m t i) va)"
      using old(3)[of t] a(1,2) 3 by (simp del: table_of.simps)
    ultimately show ?thesis using assms(5) 3 by simp
  qed
qed

lemma view_added:
  assumes "space_ok m root (p # ps)" "adds_table m root p k t i m'" "p \<notin> set ps"
    and "length k = 2 \<Longrightarrow> small_page (entry m' p (pt_i va)) va = large_page (entry m t i) va"
  shows "view m' root va = view m root va"
proof (cases "\<exists>n. i # k = drop n (key va)")
  case True
  then show ?thesis using view_added_below[OF assms(1-3) _ assms(4)] by blast
next
  case False
  obtain new where e: "\<And>u j. page_aligned u \<Longrightarrow> j < 512 \<Longrightarrow> u \<noteq> p \<Longrightarrow> entry m' u j = (if u = t \<and> j = i then new else entry m u j)"
    "page_of new = p" "new AND 1 \<noteq> 0" "new AND PAGE_PS = 0" "new AND PAGE_USER \<noteq> 0 \<longleftrightarrow> length k = 2"
    by (rule adds_table_entries[OF assms(2)]) (rule that, assumption+)
  show ?thesis
  proof (rule view_slots_cong)
    fix u j
    assume slot: "(u, j) \<in> set (walk_slots m root va)"
    obtain k' n where k': "table_of m root k' = Some u" "j # k' = drop n (key va)"
      using walk_slot_key[OF assms(1) slot] by blast
    have "u \<noteq> p" using space_okD(2)[OF assms(1) k'(1)] by auto
    moreover have "\<not> (u = t \<and> j = i)"
      using space_okD(3)[OF assms(1) k'(1), of k] False k' assms(2) by (auto simp: adds_table_def)
    ultimately show "entry m' u j = entry m u j"
      using e(1) walk_slots_aligned[OF space_okD(1)[OF assms(1)] slot] by auto
  qed
qed

section \<open>Growing the tree\<close>

text \<open>A frame that is neither free nor a table.\<close>

definition outside :: "memory \<Rightarrow> u64 \<Rightarrow> u64 list \<Rightarrow> u64 \<Rightarrow> bool" where
  "outside m root ps q \<longleftrightarrow> q \<notin> set ps \<and> (\<forall>k. table_of m root k \<noteq> Some q)"

text \<open>
  From \<open>s\<close> with the free frames \<open>ps\<close> to \<open>t\<close> with \<open>qs\<close>: free frames have become tables, the processor's view
  of every address is the same, and so is all other memory.
\<close>

definition grows :: "u64 \<Rightarrow> u64 list \<Rightarrow> 'a paging_state_scheme \<Rightarrow> u64 list \<Rightarrow> 'a paging_state_scheme \<Rightarrow> bool" where
  "grows root ps s qs t \<longleftrightarrow>
     free_frames t qs \<and> space_ok (mem t) root qs \<and> suffix qs ps \<and> paging_root t = paging_root s
     \<and> (\<forall>va. view (mem t) root va = view (mem s) root va)
     \<and> (\<forall>k u. table_of (mem s) root k = Some u \<longrightarrow> table_of (mem t) root k = Some u)
     \<and> (\<forall>q. outside (mem s) root ps q \<longrightarrow> outside (mem t) root qs q \<and> (\<forall>a. page_of a = q \<longrightarrow> mem t a = mem s a))"

lemma growsD:
  assumes "grows root ps s qs t"
  shows "free_frames t qs" "space_ok (mem t) root qs" "suffix qs ps" "paging_root t = paging_root s"
    "view (mem t) root va = view (mem s) root va"
    "table_of (mem s) root k = Some u \<Longrightarrow> table_of (mem t) root k = Some u"
    "outside (mem s) root ps q \<Longrightarrow> outside (mem t) root qs q"
    "outside (mem s) root ps q \<Longrightarrow> page_of a = q \<Longrightarrow> mem t a = mem s a"
  using assms unfolding grows_def by blast+

lemma grows_refl: "free_frames s ps \<Longrightarrow> space_ok (mem s) root ps \<Longrightarrow> grows root ps s ps s"
  by (simp add: grows_def)

lemma grows_trans: "grows root ps s qs t \<Longrightarrow> grows root qs t rs u \<Longrightarrow> grows root ps s rs u"
  unfolding grows_def by (elim conjE, intro conjI allI impI) (blast, blast, metis suffix_order.trans, simp, simp, blast, blast, metis)

lemma grows_added:
  assumes "space_ok (mem s) root (p # ps)" "adds_table (mem s) root p k u i (mem t)" "free_frames t ps" "p \<notin> set ps"
    and "paging_root t = paging_root s" "\<And>a. page_of a \<noteq> p \<Longrightarrow> page_of a \<noteq> u \<Longrightarrow> mem t a = mem s a"
    and "\<And>va. length k = 2 \<Longrightarrow> small_page (entry (mem t) p (pt_i va)) va = large_page (entry (mem s) u i) va"
  shows "grows root (p # ps) s ps t" "table_of (mem t) root (i # k) = Some p"
proof -
  note tab = table_of_added[OF assms(1,2)]
  have k: "table_of (mem s) root k = Some u" "table_of (mem s) root (i # k) = None"
    using assms(2) by (simp_all add: adds_table_def del: table_of.simps)
  have "table_of (mem t) root k' = Some w" if "table_of (mem s) root k' = Some w" for k' w
    using that tab k by auto
  moreover have "outside (mem t) root ps q" "\<And>a. page_of a = q \<Longrightarrow> mem t a = mem s a"
    if "outside (mem s) root (p # ps) q" for q
    using that tab k assms(6) by (auto simp: outside_def simp del: table_of.simps split: if_splits)
  ultimately show "grows root (p # ps) s ps t"
    unfolding grows_def
    using assms(3,5) space_ok_added[OF assms(1,2,4)] view_added[OF assms(1,2,4,7)] suffix_ConsI[of ps ps p] by auto
  show "table_of (mem t) root (i # k) = Some p" using tab by (simp del: table_of.simps)
qed

lemma ensure_grows:
  assumes "free_frames s ps" "space_ok (mem s) root ps" "ps \<noteq> []" "table_of (mem s) root k = Some u" "length k < 3" "i < 512"
    and "attr = (if length k = 2 then 7 else 3)" "entry (mem s) u i AND 1 \<noteq> 0 \<Longrightarrow> entry (mem s) u i AND PAGE_PS = 0"
  obtains e qs t where "ensure_table u i attr s = (Some e, t)" "grows root ps s qs t" "length ps \<le> length qs + 1"
    "table_of (mem t) root (i # k) = Some (page_of e)"
proof (cases "entry (mem s) u i AND 1 = 0")
  case True
  obtain p qs where ps: "ps = p # qs" using assms(3) by (cases ps) auto
  have u: "page_aligned u" "u \<notin> set (p # qs)"
    using space_okD(1,2)[OF assms(2)] assms(4) table_aligned ps by blast+
  obtain t where t: "ensure_table u i attr s = (Some (p OR attr), t)" "free_frames t qs"
      "mem t = write64 (slot u i) (p OR attr) (\<lambda>a. if page_of a = p then 0 else mem s a)"
      "paging_root t = paging_root s" "page_aligned p" "p \<notin> set qs"
    using ensure_table_absent[OF assms(1)[unfolded ps] u(1) assms(6) u(2) True] by blast
  have e: "entry (mem t) w j = (if w = u \<and> j = i then p OR attr else if w = p then 0 else entry (mem s) w j)"
    if "page_aligned w" "j < 512" for w j
    using that t(3,5) u assms(6) by (simp add: entry_write entry_zeroed)
  have "table_of (mem s) root (i # k) = None" using assms(4) True by simp
  then have "adds_table (mem s) root p k u i (mem t)"
    using assms(4-7) t(5) e u by (auto simp: adds_table_def simp del: table_of.simps)
  moreover have "small_page (entry (mem t) p (pt_i va)) va = large_page (entry (mem s) u i) va" for va
    using e[OF t(5)] u True by (auto simp: small_page_def large_page_def)
  moreover have "mem t a = mem s a" if "page_of a \<noteq> p" "page_of a \<noteq> u" for a
    using that u assms(6) unfolding t(3) by (simp add: write_slot_other_page)
  ultimately have "grows root ps s qs t" "table_of (mem t) root (i # k) = Some p"
    using grows_added[OF assms(2)[unfolded ps] _ t(2,6,4)] ps by auto
  moreover have "page_of (p OR attr) = p" using assms(7) table_entry_bits[OF t(5)] by auto
  ultimately show thesis using that[of "p OR attr" t qs] t(1) ps by (simp del: table_of.simps)
next
  case False
  then show thesis
    using that[of "entry (mem s) u i" s ps] ensure_table_present[OF False] grows_refl[OF assms(1,2)] assms(4-8) by simp
qed

lemma split_grows:
  assumes "free_frames s ps" "space_ok (mem s) root ps" "ps \<noteq> []" "table_of (mem s) root k = Some u" "length k = 2" "i < 512"
    and "entry (mem s) u i AND 1 \<noteq> 0" "entry (mem s) u i AND PAGE_PS \<noteq> 0"
  obtains e qs t where "split_large v phys u i (entry (mem s) u i) s = (Some e, t)" "grows root ps s qs t"
    "length ps \<le> length qs + 1" "table_of (mem t) root (i # k) = Some (page_of e)"
proof -
  let ?e = "entry (mem s) u i"
  obtain p qs where ps: "ps = p # qs" using assms(3) by (cases ps) auto
  have u: "page_aligned u" "u \<notin> set (p # qs)"
    using space_okD(1,2)[OF assms(2)] assms(4) table_aligned ps by blast+
  obtain t where t: "split_large v phys u i ?e s = (Some (p OR 7), t)" "free_frames t qs"
      "mem t = write64 (slot u i) (p OR 7) (fill_table p (split_pte ?e) 512 (\<lambda>a. if page_of a = p then 0 else mem s a))"
      "paging_root t = paging_root s" "page_aligned p" "p \<notin> set qs"
    using split_large_effect[OF assms(1)[unfolded ps] u(1) assms(6) u(2), where v = v and phys = phys and pde = ?e] by blast
  have e: "entry (mem t) w j = (if w = u \<and> j = i then p OR 7 else if w = p then split_pte ?e (unat j) else entry (mem s) w j)"
    if "page_aligned w" "j < 512" for w j
    using that t(3,5) u assms(6) unat_mono[of j 512] by (auto simp: entry_write entry_fill_table entry_zeroed)
  have "table_of (mem s) root (i # k) = None" using assms(4,8) by simp
  then have "adds_table (mem s) root p k u i (mem t)"
    using assms(4-6) t(5) e u by (auto simp: adds_table_def simp del: table_of.simps)
  moreover have "small_page (entry (mem t) p (pt_i va)) va = large_page ?e va" for va
    using e[OF t(5), of "pt_i va"] u split_pte_present[of ?e va] split_pte_user[of ?e va] split_pte_address[of ?e va]
    by (auto simp: small_page_def large_page_def)
  moreover have "mem t a = mem s a" if "page_of a \<noteq> p" "page_of a \<noteq> u" for a
    using that u assms(6) t(5) unfolding t(3) by (simp add: write_slot_other_page fill_table_other_page)
  ultimately have "grows root ps s qs t" "table_of (mem t) root (i # k) = Some p"
    using grows_added[OF assms(2)[unfolded ps] _ t(2,6,4)] ps by auto
  then show thesis using that[of "p OR 7" t qs] t(1) ps table_entry_bits(2)[OF t(5)] by (simp del: table_of.simps)
qed

text \<open>Up to three free frames complete the way to an address; \<^verbatim>\<open>map_page\<close> then stores the entry.\<close>

lemma map_page_grows:
  assumes "free_frames s ps" "space_ok (mem s) (paging_root s) ps" "3 \<le> length ps"
    and "\<not> (v AND 0x1FFFFF = 0 \<and> p AND 0x1FFFFF = 0)"
  obtains u qs t where "map_page v p flags s = set_entry u (pt_i v) (p OR flags) t" "grows (paging_root s) ps s qs t"
    "length ps \<le> length qs + 3" "table_of (mem t) (paging_root s) [pdt_i v, pdpt_i v, pml4_i v] = Some u"
proof -
  let ?r = "paging_root s"
  have ne0: "ps \<noteq> []" using assms(3) by auto
  obtain e4 ps1 s1 where s1: "ensure_table ?r (pml4_i v) 3 s = (Some e4, s1)" "grows ?r ps s ps1 s1" "length ps \<le> length ps1 + 1"
      "table_of (mem s1) ?r [pml4_i v] = Some (page_of e4)"
    by (rule ensure_grows[OF assms(1,2) ne0, of "[]" ?r "pml4_i v" 3]) (use space_okD(4)[OF assms(2), of "[]" ?r "pml4_i v"] in auto)
  have ne1: "ps1 \<noteq> []" using s1(3) assms(3) by auto
  obtain e3 ps2 s2 where s2: "ensure_table (page_of e4) (pdpt_i v) 3 s1 = (Some e3, s2)" "grows ?r ps1 s1 ps2 s2" "length ps1 \<le> length ps2 + 1"
      "table_of (mem s2) ?r [pdpt_i v, pml4_i v] = Some (page_of e3)"
    by (rule ensure_grows[OF growsD(1,2)[OF s1(2)] ne1 s1(4), of "pdpt_i v" 3])
      (use space_okD(4)[OF growsD(2)[OF s1(2)] _ s1(4), of "pdpt_i v"] in \<open>auto simp del: table_of.simps\<close>)
  have ne: "ps2 \<noteq> []" using s1(3) s2(3) assms(3) by auto
  let ?t2 = "page_of e3" and ?e2 = "entry (mem s2) (page_of e3) (pdt_i v)"
  note g2 = growsD(1,2)[OF s2(2)]
  obtain e ps3 s3 where s3: "(if ?e2 AND 1 = 0 then ensure_table ?t2 (pdt_i v) 7 s2
      else if ?e2 AND PAGE_PS \<noteq> 0 then split_large v p ?t2 (pdt_i v) ?e2 s2 else (Some ?e2, s2)) = (Some e, s3)"
      "grows ?r ps2 s2 ps3 s3" "length ps2 \<le> length ps3 + 1"
      "table_of (mem s3) ?r [pdt_i v, pdpt_i v, pml4_i v] = Some (page_of e)"
  proof (cases "?e2 AND 1 = 0")
    case True
    then show thesis
      using ensure_grows[OF g2 ne s2(4), of "pdt_i v" 7] that by (auto simp del: table_of.simps)
  next
    case p: False
    show thesis
    proof (cases "?e2 AND PAGE_PS = 0")
      case True
      then show thesis using p that[of ?e2 s2 ps2] grows_refl[OF g2] s2(4) by simp
    next
      case False
      then show thesis
        using split_grows[OF g2 ne s2(4) _ _ p False, of v p] p that by (auto simp del: table_of.simps)
    qed
  qed
  have "grows ?r ps s ps3 s3" using grows_trans[OF grows_trans[OF s1(2) s2(2)] s3(2)] .
  moreover have "map_page v p flags s = set_entry (page_of e) (pt_i v) (p OR flags) s3"
    using s1(1) s2(1) s3(1) assms(4) by (auto simp: map_page_def Let_def)
  ultimately show thesis using that[of "page_of e" s3 ps3] s1(3) s2(3) s3(3,4) by simp
qed

section \<open>Mapping a page\<close>

lemma page_by_key:
  assumes "key va = key v" "va < 0x1000000000000" "v < 0x1000000000000"
  shows "page_of va = page_of v"
proof (rule bit_word_eqI)
  fix n
  assume n: "n < LENGTH(64)"
  have idx: "pt_i va = pt_i v" "pdt_i va = pdt_i v" "pdpt_i va = pdpt_i v" "pml4_i va = pml4_i v"
    using assms(1) by (simp_all add: key_def)
  have hi: "bit w n \<Longrightarrow> n < 48" if "w < 0x1000000000000" for w :: u64
    using less_bits[of w 48 n] that by (simp add: word_less_nat_alt)
  have "bit va n = bit v n" if "12 \<le> n"
  proof -
    consider "n < 21" | "21 \<le> n" "n < 30" | "30 \<le> n" "n < 39" | "39 \<le> n" "n < 48" | "48 \<le> n" by linarith
    then show ?thesis
    proof cases
      case 1
      then show ?thesis
        using arg_cong[OF idx(1), of "\<lambda>w. bit w (n - 12)"] that unfolding pt_i_def mask_numerals by (auto simp: word_bits)
    next
      case 2
      then show ?thesis
        using arg_cong[OF idx(2), of "\<lambda>w. bit w (n - 21)"] unfolding pdt_i_def mask_numerals by (auto simp: word_bits)
    next
      case 3
      then show ?thesis
        using arg_cong[OF idx(3), of "\<lambda>w. bit w (n - 30)"] unfolding pdpt_i_def mask_numerals by (auto simp: word_bits)
    next
      case 4
      then show ?thesis
        using arg_cong[OF idx(4), of "\<lambda>w. bit w (n - 39)"] unfolding pml4_i_def mask_numerals by (auto simp: word_bits)
    next
      case 5
      then show ?thesis using hi[OF assms(2)] hi[OF assms(3)] by auto
    qed
  qed
  then show "bit (page_of va) n = bit (page_of v) n"
    unfolding page_of_def mask_numerals using n by (auto simp: word_bits)
qed

lemma key_iff_page:
  assumes "va < 0x1000000000000" "v < 0x1000000000000"
  shows "key va = key v \<longleftrightarrow> page_of va = page_of v"
  using page_by_key[OF _ assms] same_page_indices[of va v] unfolding key_def by blast

lemma store_page:
  fixes e :: u64
  assumes "space_ok m root ps" "table_of m root [pdt_i v, pdpt_i v, pml4_i v] = Some u"
  defines "m' \<equiv> write64 (slot u (pt_i v)) e m"
  shows "table_of m' root k = table_of m root k" "space_ok m' root ps"
    "view m' root va = (if key va = key v then under (user_way m root va) (small_page e va) else view m root va)"
proof -
  let ?k = "[pdt_i v, pdpt_i v, pml4_i v]"
  note old = space_okD[OF assms(1)]
  have u: "page_aligned u" using table_aligned[OF old(1) assms(2)] .
  have e: "entry m' w j = (if w = u \<and> j = pt_i v then e else entry m w j)" if "page_aligned w" "j < 512" for w j
    using that u by (simp add: m'_def entry_write)
  show tab: "table_of m' root k = table_of m root k" for k
  proof (cases "\<exists>xs. k = xs @ pt_i v # ?k")
    case True
    then have "\<not> length k \<le> 3" by auto
    then show ?thesis using table_of_depth by (metis option.exhaust)
  next
    case False
    then show ?thesis using e by (intro table_of_store[OF assms(1,2)]) auto
  qed
  have "entry m' w j AND PAGE_PS = 0" if "length k < 2" "table_of m root k = Some w" "j < 512" for k w j
    using that e[OF table_aligned[OF old(1) that(2)] that(3)] old(3)[OF that(2), of ?k] old(4)[OF that] assms(2) by auto
  then show ok: "space_ok m' root ps" using assms(1) unfolding space_ok_def tab by blast
  show "view m' root va = (if key va = key v then under (user_way m root va) (small_page e va) else view m root va)"
  proof (cases "key va = key v")
    case True
    obtain t3 t2 where t: "table_of m root [pml4_i va] = Some t3" "table_of m root [pdpt_i va, pml4_i va] = Some t2"
      using assms(2) True by (auto simp: key_def split: option.splits if_splits)
    let ?way = "\<lambda>m. upper_user m root va \<and> entry m t2 (pdt_i va) AND PAGE_USER \<noteq> 0"
    have u1: "table_of m root [pdt_i va, pdpt_i va, pml4_i va] = Some u" using assms(2) True by (simp add: key_def)
    have new: "view m' root va = under (?way m') (small_page (entry m' u (pt_i va)) va)"
      using view_by_tables(4)[OF ok, of va u t2] tab t(2) u1 by (simp del: table_of.simps)
    have "snd (snd (view m root va)) = ?way m"
      using view_by_tables(4)[OF assms(1) u1 t(2)] by (simp add: under_def split: option.splits)
    then have way: "user_way m root va = ?way m" by (simp add: view_def)
    have same: "entry m' w j = entry m w j" if "table_of m root k = Some w" "length k < 3" "j < 512" for w k j
      using e[OF table_aligned[OF old(1) that(1)] that(3)] old(3)[OF that(1), of ?k] assms(2) that(2) by auto
    have "page_of (entry m root (pml4_i va)) = t3" using t(1) by (simp split: if_splits)
    then have "?way m' = ?way m"
      using same[of "[]" root] same[OF t(1)] same[OF t(2)] by (simp add: upper_user_def)
    then show ?thesis using True new way e[OF u, of "pt_i v"] by (simp add: key_def)
  next
    case False
    have "view m' root va = view m root va"
    proof (rule view_slots_cong)
      fix w j
      assume slot: "(w, j) \<in> set (walk_slots m root va)"
      then obtain k n where k: "table_of m root k = Some w" "j # k = drop n (key va)"
        using walk_slot_key[OF assms(1)] by blast
      have "\<not> (w = u \<and> j = pt_i v)"
      proof
        assume "w = u \<and> j = pt_i v"
        then have eq: "key v = drop n (key va)" using k old(3)[OF assms(2), of k] by (simp add: key_def)
        have "length (key v) = 4" "length (key va) = 4" by (simp_all add: key_def)
        then have "n = 0" using arg_cong[OF eq, of length] by simp
        then show False using eq False by simp
      qed
      then show "entry m' w j = entry m w j" using e walk_slots_aligned[OF old(1) slot] by auto
    qed
    then show ?thesis using False by simp
  qed
qed

section \<open>Changes of an address space\<close>

text \<open>
  From \<open>s\<close> to \<open>t\<close> exactly the pages in \<open>dom f\<close> have got new frames, for user code too if \<open>usr\<close>
  and the way is open; the view of every other address below \<open>2\<^sup>48\<close> is as before, and memory that is
  neither free nor a table is the same.
\<close>

definition remapped :: "bool \<Rightarrow> u64 option \<Rightarrow> u64 \<Rightarrow> u64 option \<times> bool \<times> bool \<Rightarrow> u64 option \<times> bool \<times> bool" where
  "remapped usr f va old =
     (case f of None \<Rightarrow> old | Some p \<Rightarrow> (Some (p OR (va AND 0xFFF)), snd (snd old) \<and> usr, snd (snd old)))"

lemma remapped_simps [simp]:
  "remapped usr None va old = old"
  "remapped usr (Some p) va old = (Some (p OR (va AND 0xFFF)), snd (snd old) \<and> usr, snd (snd old))"
  by (simp_all add: remapped_def)

definition remaps ::
  "bool \<Rightarrow> u64 \<Rightarrow> u64 list \<Rightarrow> 'a paging_state_scheme \<Rightarrow> (u64 \<rightharpoonup> u64) \<Rightarrow> u64 list \<Rightarrow> 'a paging_state_scheme \<Rightarrow> bool" where
  "remaps usr root ps s f qs t \<longleftrightarrow>
     free_frames t qs \<and> space_ok (mem t) root qs \<and> suffix qs ps \<and> paging_root t = paging_root s
     \<and> (\<forall>va < 0x1000000000000. view (mem t) root va = remapped usr (f (page_of va)) va (view (mem s) root va))
     \<and> (\<forall>q. outside (mem s) root ps q \<longrightarrow> outside (mem t) root qs q \<and> (\<forall>a. page_of a = q \<longrightarrow> mem t a = mem s a))"

lemma remapsD:
  assumes "remaps usr root ps s f qs t"
  shows "free_frames t qs" "space_ok (mem t) root qs" "suffix qs ps" "paging_root t = paging_root s"
    "va < 0x1000000000000 \<Longrightarrow> view (mem t) root va = remapped usr (f (page_of va)) va (view (mem s) root va)"
    "outside (mem s) root ps q \<Longrightarrow> outside (mem t) root qs q"
    "outside (mem s) root ps q \<Longrightarrow> page_of a = q \<Longrightarrow> mem t a = mem s a"
  using assms unfolding remaps_def by blast+

lemma remaps_walk:
  assumes "remaps usr root ps s f qs t" "va < 0x1000000000000"
  shows "mmu_walk (mem t) root va =
      (case f (page_of va) of None \<Rightarrow> mmu_walk (mem s) root va | Some p \<Rightarrow> Some (p OR (va AND 0xFFF)))"
    "mmu_user (mem t) root va =
      (case f (page_of va) of None \<Rightarrow> mmu_user (mem s) root va | Some p \<Rightarrow> user_way (mem s) root va \<and> usr)"
    "user_way (mem t) root va = user_way (mem s) root va"
  using remapsD(5)[OF assms] by (cases "f (page_of va)"; simp add: view_def)+

lemma remaps_refl: "free_frames s ps \<Longrightarrow> space_ok (mem s) root ps \<Longrightarrow> remaps usr root ps s Map.empty ps s"
  by (simp add: remaps_def)

lemma remaps_trans:
  assumes "remaps usr root ps s f qs t" "remaps usr root qs t g rs u"
  shows "remaps usr root ps s (f ++ g) rs u"
proof -
  have "view (mem u) root va = remapped usr ((f ++ g) (page_of va)) va (view (mem s) root va)"
    if "va < 0x1000000000000" for va
    using remapsD(5)[OF assms(1) that] remapsD(5)[OF assms(2) that]
    by (cases "f (page_of va)"; cases "g (page_of va)") (simp_all add: map_add_def)
  moreover have "outside (mem u) root rs q" "page_of a = q \<Longrightarrow> mem u a = mem s a" if "outside (mem s) root ps q" for q a
    using remapsD(6,7)[OF assms(2) remapsD(6)[OF assms(1) that]] remapsD(7)[OF assms(1) that] by simp_all
  ultimately show ?thesis
    using remapsD(1-4)[OF assms(2)] remapsD(4)[OF assms(1)] suffix_order.trans[OF remapsD(3)[OF assms(2)] remapsD(3)[OF assms(1)]]
    unfolding remaps_def by auto
qed

lemma map_page_remaps:
  assumes "free_frames s ps" "space_ok (mem s) (paging_root s) ps" "3 \<le> length ps"
    and "page_aligned p" "flags AND 0xFFF = flags" "flags AND PAGE_PRESENT \<noteq> 0"
    and "\<not> (v AND 0x1FFFFF = 0 \<and> p AND 0x1FFFFF = 0)" "v < 0x1000000000000"
  obtains qs where "remaps (flags AND PAGE_USER \<noteq> 0) (paging_root s) ps s [page_of v \<mapsto> p] qs (map_page v p flags s)" "length ps \<le> length qs + 3"
proof -
  let ?r = "paging_root s"
  obtain u qs t where t: "map_page v p flags s = set_entry u (pt_i v) (p OR flags) t" "grows ?r ps s qs t"
    "length ps \<le> length qs + 3" "table_of (mem t) ?r [pdt_i v, pdpt_i v, pml4_i v] = Some u"
    using map_page_grows[OF assms(1-3,7), of flags] .
  note g = growsD[OF t(2)] and st = store_page[OF growsD(2)[OF t(2)] t(4), of "p OR flags"]
  have u: "page_aligned u" "u \<notin> set qs" using space_okD(1,2)[OF g(2)] t(4) table_aligned by blast+
  have leaf: "small_page (p OR flags) va = Some (p OR (va AND 0xFFF), flags AND PAGE_USER \<noteq> 0)" for va
    using assms(4-6) by (simp add: small_page_def page_or_bits low_bit_of_or)
  have "free_frames (set_entry u (pt_i v) (p OR flags) t) qs" using free_frames_set_entry[OF g(1) u(1) _ u(2)] by simp
  moreover have "view (mem (set_entry u (pt_i v) (p OR flags) t)) ?r va =
      remapped (flags AND PAGE_USER \<noteq> 0) ([page_of v \<mapsto> p] (page_of va)) va (view (mem s) ?r va)"
    if "va < 0x1000000000000" for va
  proof -
    have "snd (snd (view (mem s) ?r va)) = user_way (mem t) ?r va" using g(5)[of va] by (simp add: view_def)
    then show ?thesis
      using st(3)[of va] leaf[of va] g(5)[of va] key_iff_page[OF that assms(8)] by (simp add: under_def)
  qed
  moreover have "outside (mem (set_entry u (pt_i v) (p OR flags) t)) ?r qs q"
    "\<And>a. page_of a = q \<Longrightarrow> mem (set_entry u (pt_i v) (p OR flags) t) a = mem s a" if "outside (mem s) ?r ps q" for q
  proof -
    note o = g(7,8)[OF that]
    show "outside (mem (set_entry u (pt_i v) (p OR flags) t)) ?r qs q"
      using o(1) st(1) by (simp add: outside_def)
    fix a
    assume a: "page_of a = q"
    then have "page_of a \<noteq> u" using o(1) t(4) unfolding outside_def by blast
    then show "mem (set_entry u (pt_i v) (p OR flags) t) a = mem s a"
      using o(2)[OF a] u(1) by (simp add: write_slot_other_page)
  qed
  ultimately have "remaps (flags AND PAGE_USER \<noteq> 0) ?r ps s [page_of v \<mapsto> p] qs (map_page v p flags s)"
    unfolding remaps_def t(1) using g(3,4) st(2) by auto
  then show thesis using that t(3) by blast
qed

text \<open>
  C3: in an address space whose tables form a tree outside the free list, with three free frames, \<^verbatim>\<open>map_page(v, p, flags)\<close>
  changes the translation of exactly one page: every address of the page of \<open>v\<close> translates to its
  offset in frame \<open>p\<close>, for user code too exactly if \<open>flags\<close> has the user bit and the tables above let
  user code pass, every other address of the whole space (also inside a 2 MiB page that had
  to be split) translates and is accessible as before, and the tables are a tree again. Memory that is neither a free frame nor a table of the space is not written.
  The exception is a \<open>v\<close> and \<open>p\<close> that are both 2 MiB aligned.
\<close>

theorem map_page_exact:
  assumes "free_frames s ps" "space_ok (mem s) (paging_root s) ps" "3 \<le> length ps"
    and "page_aligned p" "flags AND 0xFFF = flags" "flags AND PAGE_PRESENT \<noteq> 0"
    and "\<not> (v AND 0x1FFFFF = 0 \<and> p AND 0x1FFFFF = 0)" "v < 0x1000000000000"
  shows "(\<forall>va < 0x1000000000000. mmu_walk (mem (map_page v p flags s)) (paging_root s) va =
        (if page_of va = page_of v then Some (p OR (va AND 0xFFF)) else mmu_walk (mem s) (paging_root s) va))
    \<and> (\<forall>va < 0x1000000000000. mmu_user (mem (map_page v p flags s)) (paging_root s) va =
        (if page_of va = page_of v then flags AND PAGE_USER \<noteq> 0 \<and> user_way (mem s) (paging_root s) va
         else mmu_user (mem s) (paging_root s) va))
    \<and> (\<exists>qs. free_frames (map_page v p flags s) qs \<and> space_ok (mem (map_page v p flags s)) (paging_root s) qs
         \<and> suffix qs ps \<and> length ps \<le> length qs + 3)
    \<and> (\<forall>a. outside (mem s) (paging_root s) ps (page_of a) \<longrightarrow> mem (map_page v p flags s) a = mem s a)"
proof -
  obtain qs where qs: "remaps (flags AND PAGE_USER \<noteq> 0) (paging_root s) ps s [page_of v \<mapsto> p] qs (map_page v p flags s)" "length ps \<le> length qs + 3"
    using map_page_remaps[OF assms] .
  show ?thesis
    using remapsD[OF qs(1)] remaps_walk[OF qs(1)] qs(2) by (intro conjI allI impI exI[of _ qs]) (auto split: if_splits)
qed

text \<open>A space with an empty top-level table.\<close>

lemma empty_space:
  assumes "page_aligned root" "root \<notin> set ps" "\<And>i. i < 512 \<Longrightarrow> entry m root i = 0"
  shows "space_ok m root ps"
proof -
  have "table_of m root k = (if k = [] then Some root else None)" for k
    by (induction k) (auto simp: assms(3) split: option.splits if_splits)
  then show ?thesis using assms by (auto simp: space_ok_def split: if_splits)
qed

lemma paging_demo_space: "space_ok (mem paging_demo) 0x10000 [0x200000, 0x201000, 0x203000]"
proof (rule empty_space)
  fix i :: u64
  assume i: "i < 512"
  have "entry (mem pmm_demo) 0x10000 i = entry (\<lambda>_. 0) 0x10000 i"
    by (rule entry_cong) (use i in \<open>auto simp: page_aligned_def pmm_demo_def write_word_other_page\<close>)
  then show "entry (mem paging_demo) 0x10000 i = 0" by (simp add: entry_zero)
qed (simp_all add: page_aligned_def)

theorem map_page_exact_witness:
  "mmu_walk (mem (map_page 0x401000 0x300000 7 paging_demo)) 0x10000 0x401123 = Some 0x300123
   \<and> mmu_walk (mem (map_page 0x401000 0x300000 7 paging_demo)) 0x10000 0x402123 = None"
proof -
  have p: "page_of 0x401123 = page_of 0x401000" "page_of 0x402123 \<noteq> page_of 0x401000"
    by (simp_all add: page_of_def del: table_address)
  have "entry (mem pmm_demo) 0x10000 (pml4_i 0x402123) = 0"
    by (simp add: entry_def pml4_i_def slot_def pmm_demo_def read64_def write64_def)
  then have "mmu_walk (mem paging_demo) 0x10000 0x402123 = None" by (simp add: mmu_walk_def Let_def)
  then show ?thesis
    using map_page_exact[OF paging_demo_frames, of "0x300000" 7 "0x401000"] paging_demo_space p
    by (simp add: page_aligned_def)
qed

end
