(* ===== verification/Address_Ranges.thy ===== *)
theory Address_Ranges
  imports Table_Tree Memory_Calls
begin

text \<open>
  What the memory system calls of \<^verbatim>\<open>kernel/task.c\<close> do to a range of addresses: every page of it gets a
  frame of its own and nothing else in the address space changes.
\<close>

section \<open>One fresh page\<close>

lemma free_frame_cong:
  assumes "space_ok m root ps" "\<And>u j. page_aligned u \<Longrightarrow> j < 512 \<Longrightarrow> u \<notin> set ps \<Longrightarrow> entry m' u j = entry m u j"
  shows "table_of m' root k = table_of m root k" "view m' root va = view m root va"
proof -
  note ok = space_okD[OF assms(1)]
  show "table_of m' root k = table_of m root k"
  proof (induction k)
    case (Cons i k)
    have "entry m' u i = entry m u i" if "table_of m root k = Some u" "i < 512" for u
      using assms(2) that ok(2) table_aligned[OF ok(1)] by blast
    then show ?case using Cons.IH by (auto split: option.splits)
  qed simp
  show "view m' root va = view m root va"
    using assms walk_slot_key ok(2) walk_slots_aligned[OF ok(1)] by (intro view_slots_cong) blast
qed

lemma alloc_remaps:
  assumes "free_frames s ps" "space_ok (mem s) root ps" "ps \<noteq> []"
  obtains p qs t where "ps = p # qs" "pmm_alloc_page s = (p, t)" "p \<noteq> 0" "page_aligned p"
    "remaps True root ps s Map.empty qs t" "outside (mem t) root qs p" "\<And>a. page_of a = p \<Longrightarrow> mem t a = 0"
proof -
  obtain p qs t where t: "ps = p # qs" "pmm_alloc_page s = (p, t)" "free_frames t qs" "p \<noteq> 0" "page_aligned p" "p \<notin> set qs"
      "mem t = (\<lambda>a. if page_of a = p then 0 else mem s a)"
    using assms(1) by (rule pmm.alloc_cases) (use assms(3) in auto)
  have e: "entry (mem t) u j = entry (mem s) u j" if "page_aligned u" "j < 512" "u \<notin> set ps" for u j
    using that t(1,7) by (simp add: entry_zeroed)
  have same: "table_of (mem t) root k = table_of (mem s) root k" "view (mem t) root va = view (mem s) root va" for k va
    using free_frame_cong[OF assms(2), of "mem t"] e by blast+
  note ok = space_okD[OF assms(2)]
  have "entry (mem t) u j AND PAGE_PS = 0" if "length k < 2" "table_of (mem s) root k = Some u" "j < 512" for k u j
    using ok(2,4) e table_aligned[OF ok(1) that(2)] that by metis
  then have sp: "space_ok (mem t) root qs"
    using assms(2) t(1) unfolding space_ok_def same(1) by auto
  have "paging_root t = paging_root s" using t(2) pmm_alloc_page_frames(1)[of s p qs] assms(1) t(1) by auto
  then have "remaps True root ps s Map.empty qs t"
    using t(1,3,7) sp same suffix_ConsI[of qs qs p] by (auto simp: remaps_def outside_def)
  moreover have "outside (mem t) root qs p" using t(1,6) ok(2) unfolding outside_def same(1) by auto
  ultimately show thesis using that t by simp
qed

text \<open>The new frames are free frames of \<open>ps\<close>, one for every page, cleared and not free any more.\<close>

definition fresh_frames :: "u64 \<Rightarrow> u64 list \<Rightarrow> (u64 \<rightharpoonup> u64) \<Rightarrow> u64 list \<Rightarrow> 'a paging_state_scheme \<Rightarrow> bool" where
  "fresh_frames root ps f qs t \<longleftrightarrow>
     inj_on f (dom f) \<and> (\<forall>p \<in> ran f. p \<in> set ps \<and> outside (mem t) root qs p \<and> (\<forall>a. page_of a = p \<longrightarrow> mem t a = 0))"

lemma fresh_frames_trans:
  assumes "fresh_frames root ps f qs t" "fresh_frames root qs g rs u" "remaps True root qs t g rs u" "suffix qs ps"
    and "dom f \<inter> dom g = {}"
  shows "fresh_frames root ps (f ++ g) rs u"
proof -
  have f: "p \<in> set ps \<and> outside (mem u) root rs p \<and> (\<forall>a. page_of a = p \<longrightarrow> mem u a = 0)" "p \<notin> set qs" if "p \<in> ran f" for p
    using assms(1) that remapsD(6,7)[OF assms(3), of p] by (auto simp: fresh_frames_def outside_def)
  have "p \<in> set qs" if "p \<in> ran g" for p using assms(2) that by (auto simp: fresh_frames_def)
  then have "ran f \<inter> ran g = {}" using f(2) by blast
  then have apart: "f x \<noteq> g y" if "x \<in> dom f" for x y using that by (metis disjoint_iff domD ranI)
  have inj: "inj_on f (dom f)" "inj_on g (dom g)" using assms(1,2) by (simp_all add: fresh_frames_def)
  have "inj_on (f ++ g) (dom (f ++ g))"
  proof (rule inj_onI)
    fix x y
    assume x: "x \<in> dom (f ++ g)" and y: "y \<in> dom (f ++ g)" and eq: "(f ++ g) x = (f ++ g) y"
    show "x = y"
      using x y eq inj apart[of x y] apart[of y x] unfolding inj_on_def
      by (cases "x \<in> dom g"; cases "y \<in> dom g") (auto simp: map_add_dom_app_simps)
  qed
  moreover have "ran (f ++ g) = ran f \<union> ran g" using ran_map_add[OF assms(5)] .
  ultimately show ?thesis using f assms(2) set_mono_suffix[OF assms(4)] unfolding fresh_frames_def by blast
qed

lemma map_fresh_step:
  assumes "free_frames s ps" "space_ok (mem s) (paging_root s) ps" "4 \<le> length ps"
    and "flags AND 0xFFF = flags" "flags AND PAGE_PRESENT \<noteq> 0" "flags AND PAGE_USER \<noteq> 0" "page_aligned v" "v < 0x1000000000000"
    and "\<forall>p \<in> set (take 4 ps). \<not> (v AND 0x1FFFFF = 0 \<and> p AND 0x1FFFFF = 0)"
  obtains p qs t where "map_fresh flags v s = (True, t)" "remaps True (paging_root s) ps s [v \<mapsto> p] qs t"
    "fresh_frames (paging_root s) ps [v \<mapsto> p] qs t" "length ps \<le> length qs + 4"
proof -
  let ?r = "paging_root s"
  have "ps \<noteq> []" using assms(3) by auto
  then obtain p rs u where u: "ps = p # rs" "pmm_alloc_page s = (p, u)" "p \<noteq> 0" "page_aligned p"
      "remaps True ?r ps s Map.empty rs u" "outside (mem u) ?r rs p" "\<And>a. page_of a = p \<Longrightarrow> mem u a = 0"
    using alloc_remaps[OF assms(1,2)] by blast
  have r: "paging_root u = ?r" using remapsD(4)[OF u(5)] .
  obtain qs where qs: "remaps True ?r rs u [page_of v \<mapsto> p] qs (map_page v p flags u)" "length rs \<le> length qs + 3"
    using map_page_remaps[OF remapsD(1,2)[OF u(5), folded r] _ u(4) assms(4,5) _ assms(8)] assms(3,6) bspec[OF assms(9), of p] u(1) r
    by auto
  let ?t = "map_page v p flags u"
  have v: "page_of v = v" using assms(7) by (simp add: page_of_aligned)
  have "remaps True ?r ps s [v \<mapsto> p] qs ?t" using remaps_trans[OF u(5) qs(1)] v by simp
  moreover have "fresh_frames ?r ps [v \<mapsto> p] qs ?t"
    using remapsD(6,7)[OF qs(1) u(6)] u(1,7) by (simp add: fresh_frames_def)
  moreover have "map_fresh flags v s = (True, ?t)" using u(2,3) by (simp add: map_fresh_def)
  ultimately show thesis using that qs(2) u(1) by simp
qed

section \<open>A range\<close>

lemma first_frames: "m \<le> n \<Longrightarrow> set (take m xs) \<subseteq> set (take n xs)"
  by (rule set_take_subset_set_take)

lemma later_frames:
  assumes "suffix qs ps" "length ps \<le> length qs + k"
  shows "set (take n qs) \<subseteq> set (take (k + n) ps)"
proof -
  obtain xs where ps: "ps = xs @ qs" using assms(1) by (rule suffixE)
  then have "n \<le> k + n - length xs" using assms(2) by simp
  from first_frames[OF this, of qs] show ?thesis unfolding ps by auto
qed

lemma map_fresh_loop:
  assumes "free_frames s ps" "space_ok (mem s) (paging_root s) ps" "page_aligned v" "page_aligned e" "e \<le> 0x1000000000000"
    and "4 * length (page_list v e) \<le> length ps" "flags AND 0xFFF = flags" "flags AND PAGE_PRESENT \<noteq> 0" "flags AND PAGE_USER \<noteq> 0"
    and "\<forall>w \<in> set (page_list v e). \<forall>p \<in> set (take (4 * length (page_list v e)) ps). \<not> (w AND 0x1FFFFF = 0 \<and> p AND 0x1FFFFF = 0)"
  shows "\<exists>f qs t. for_pages (map_fresh flags) v e s = Inr (True, t) \<and> dom f = set (page_list v e)
    \<and> remaps True (paging_root s) ps s f qs t \<and> fresh_frames (paging_root s) ps f qs t"
  using assms
proof (induction "map_fresh flags :: u64 \<Rightarrow> 'a paging_state_scheme \<Rightarrow> _" v e s arbitrary: ps rule: for_pages.induct)
  case (1 v e s)
  show ?case
  proof (cases "v < e")
    case True
    note pl = page_list_step[OF "1.prems"(3,4) True] and st = aligned_step[OF "1.prems"(3,4) True]
    have v: "v < 0x1000000000000" using True "1.prems"(5) by simp
    have len: "4 * length (page_list v e) = 4 + 4 * length (page_list (v + 4096) e)" unfolding pl by simp
    have n: "4 \<le> length ps" "\<forall>p \<in> set (take 4 ps). \<not> (v AND 0x1FFFFF = 0 \<and> p AND 0x1FFFFF = 0)"
    proof -
      show "4 \<le> length ps" using "1.prems"(6) len by simp
      have "v \<in> set (page_list v e)" unfolding pl by simp
      moreover have "set (take 4 ps) \<subseteq> set (take (4 * length (page_list v e)) ps)" by (rule first_frames) (simp add: len)
      ultimately show "\<forall>p \<in> set (take 4 ps). \<not> (v AND 0x1FFFFF = 0 \<and> p AND 0x1FFFFF = 0)" using "1.prems"(10) by blast
    qed
    obtain p qs t where t: "map_fresh flags v s = (True, t)" "remaps True (paging_root s) ps s [v \<mapsto> p] qs t"
        "fresh_frames (paging_root s) ps [v \<mapsto> p] qs t" "length ps \<le> length qs + 4"
      using map_fresh_step[OF "1.prems"(1,2) n(1) "1.prems"(7-9,3) v n(2)] .
    note r = remapsD[OF t(2)]
    have sub: "set (page_list (v + 4096) e) \<subseteq> set (page_list v e)" unfolding pl by auto
    have al: "page_aligned (v + 4096)" using "1.prems"(3) by (simp add: page_aligned_add)
    have "\<exists>f rs u. for_pages (map_fresh flags) (v + 4096) e t = Inr (True, u) \<and> dom f = set (page_list (v + 4096) e)
        \<and> remaps True (paging_root t) qs t f rs u \<and> fresh_frames (paging_root t) qs f rs u"
    proof (rule "1.hyps"[OF True t(1)[symmetric] _ st(3)])
      show "4 * length (page_list (v + 4096) e) \<le> length qs" using "1.prems"(6) pl t(4) by simp
      have "set (take (4 * length (page_list (v + 4096) e)) qs) \<subseteq> set (take (4 * length (page_list v e)) ps)"
        unfolding len by (rule later_frames[OF r(3) t(4)])
      then show "\<forall>w \<in> set (page_list (v + 4096) e). \<forall>p \<in> set (take (4 * length (page_list (v + 4096) e)) qs).
          \<not> (w AND 0x1FFFFF = 0 \<and> p AND 0x1FFFFF = 0)"
        using "1.prems"(10) sub by blast
    qed (use r al "1.prems" in simp_all)
    then obtain f rs u where u: "for_pages (map_fresh flags) (v + 4096) e t = Inr (True, u)" "dom f = set (page_list (v + 4096) e)"
        "remaps True (paging_root s) qs t f rs u" "fresh_frames (paging_root s) qs f rs u"
      using r(4) by auto
    have "v \<notin> dom f" using page_list_distinct[of v e] pl u(2) by simp
    then have "fresh_frames (paging_root s) ps ([v \<mapsto> p] ++ f) rs u"
      using fresh_frames_trans[OF t(3) u(4,3) r(3)] by simp
    moreover have "dom ([v \<mapsto> p] ++ f) = set (page_list v e)" using pl u(2) by simp
    moreover have "for_pages (map_fresh flags) v e s = Inr (True, u)"
      using True t(1) u(1) st(3) by (simp add: for_pages.simps[of _ v e s])
    ultimately show ?thesis using remaps_trans[OF t(2) u(3)] by blast
  next
    case False
    then show ?thesis
      using remaps_refl[OF "1.prems"(1,2)] by (intro exI[of _ Map.empty] exI[of _ ps]) (simp add: fresh_frames_def)
  qed
qed

lemma page_in_range:
  assumes "page_aligned v" "page_aligned e"
  shows "page_of a \<in> set (page_list v e) \<longleftrightarrow> v \<le> a \<and> a < e"
proof
  assume "page_of a \<in> set (page_list v e)"
  then have b: "v \<le> page_of a" "page_of a < e" using page_list_bounds by blast+
  have "page_of a + 4096 \<le> e" "unat (page_of a + 4096) = unat (page_of a) + 4096"
    using aligned_step[of "page_of a" e] b(2) assms(2) by simp_all
  then have "a < e" using unat_page_of[of a] by (simp add: word_less_nat_alt word_le_nat_alt; presburger)
  then show "v \<le> a \<and> a < e" using b(1) page_of_le[of a] by simp
next
  assume r: "v \<le> a \<and> a < e"
  let ?i = "(unat a - unat v) div 4096"
  obtain c d where c: "unat v = 4096 * c" and d: "unat e = 4096 * d" using assms by (auto simp: page_aligned_dvd elim!: dvdE)
  have le: "unat v \<le> unat a" "unat a < unat e" using r by (simp_all add: word_le_nat_alt word_less_nat_alt)
  then have i: "?i = unat a div 4096 - c" "c \<le> unat a div 4096" "unat a div 4096 < d"
    using c d by (simp_all add: div_less_iff_less_mult less_mult_imp_div_less mult.commute less_eq_div_iff_mult_less_eq)
  then have lt: "?i < (unat e - unat v) div 4096" using c d by (simp flip: diff_mult_distrib2)
  have "unat (v + 4096 * of_nat ?i) = unat (page_of a)"
    unfolding page_list_unat[OF lt] unat_page_of using i c by (simp add: diff_mult_distrib2)
  then have "page_of a = v + 4096 * of_nat ?i" by (metis word_unat_eq_iff)
  then show "page_of a \<in> set (page_list v e)" using lt unfolding page_list_def by auto
qed

text \<open>
  C9: \<^verbatim>\<open>mmap\<close> makes the whole range usable and nothing else different: with four free frames for each page, all
  pages from the one of \<open>virt\<close> up to the rounded end get frames that were free, each its own, filled with zeros, and
  user code may use them where the tables above let it pass; every other address below \<open>2\<^sup>48\<close> translates and is
  accessible as before. The tables of the caller's address space are a tree outside the free
  list, and no page of the range starts a 2 MiB region while one of the frames to be used does.
\<close>

theorem sys_mmap_maps_range:
  assumes "0 \<le> current_task s" "root = pml4_phys (task_at s (nat (current_task s)))"
    and "free_frames s ps" "space_ok (mem s) root ps" "finish = round_up virt sz" "finish \<le> 0x1000000000000"
    and "vs = page_list (page_of virt) finish" "4 * length vs \<le> length ps"
    and "\<forall>w \<in> set vs. \<forall>p \<in> set (take (4 * length vs) ps). \<not> (w AND 0x1FFFFF = 0 \<and> p AND 0x1FFFFF = 0)"
  shows "\<exists>f t. sys_mmap virt sz flags s = Inr (0, t)
    \<and> (\<forall>va < 0x1000000000000. mmu_walk (mem t) root va =
        (if page_of virt \<le> va \<and> va < finish then Some (f (page_of va) OR (va AND 0xFFF)) else mmu_walk (mem s) root va))
    \<and> (\<forall>va < 0x1000000000000. mmu_user (mem t) root va =
        (if page_of virt \<le> va \<and> va < finish then user_way (mem s) root va else mmu_user (mem s) root va))
    \<and> inj_on f (set vs) \<and> f ` set vs \<subseteq> set ps
    \<and> (\<forall>v \<in> set vs. \<forall>a. page_of a = f v \<longrightarrow> mem t a = 0)"
proof -
  define fl where "fl = (let f = PAGE_PRESENT OR PAGE_USER;
     f = (if flags AND 2 \<noteq> 0 then f OR PAGE_WRITABLE else f) in if flags AND 4 \<noteq> 0 then f OR 0 else f)"
  have fl: "fl AND 0xFFF = fl" "fl AND PAGE_PRESENT \<noteq> 0" "fl AND PAGE_USER \<noteq> 0" by (simp_all add: fl_def Let_def)
  let ?s = "paging_switch root s"
  have sw: "free_frames ?s ps" "space_ok (mem ?s) (paging_root ?s) ps" "mem ?s = mem s" "paging_root ?s = root"
    using assms(3,4) by (simp_all add: paging_switch_def free_frames_def)
  have al: "page_aligned (page_of virt)" "page_aligned finish" by (simp_all add: assms(5))
  obtain f qs t where f: "for_pages (map_fresh fl) (page_of virt) finish ?s = Inr (True, t)" "dom f = set vs"
      "remaps True root ps ?s f qs t" "fresh_frames root ps f qs t"
    using map_fresh_loop[OF sw(1,2) al assms(6) _ fl] assms(7-9) unfolding sw(4) by blast
  let ?t = "paging_switch (paging_root s) t" and ?f = "\<lambda>v. the (f v)"
  have call: "sys_mmap virt sz flags s = Inr (0, ?t)"
  proof -
    have "sys_mmap virt sz flags s = map_pages_at root virt sz fl s"
      using assms(1,2) by (simp add: sys_mmap_def fl_def Let_def)
    then show ?thesis using f(1) by (simp add: map_pages_at_def Let_def assms(5))
  qed
  have mt: "mem ?t = mem t" by (simp add: paging_switch_def)
  have walk: "mmu_walk (mem ?t) root va =
      (if page_of virt \<le> va \<and> va < finish then Some (?f (page_of va) OR (va AND 0xFFF)) else mmu_walk (mem s) root va)"
      "mmu_user (mem ?t) root va =
      (if page_of virt \<le> va \<and> va < finish then user_way (mem s) root va else mmu_user (mem s) root va)"
    if "va < 0x1000000000000" for va
  proof -
    have "page_of virt \<le> va \<and> va < finish \<longleftrightarrow> page_of va \<in> dom f" using page_in_range[OF al] f(2) assms(7) by simp
    then show "mmu_walk (mem ?t) root va =
        (if page_of virt \<le> va \<and> va < finish then Some (?f (page_of va) OR (va AND 0xFFF)) else mmu_walk (mem s) root va)"
      "mmu_user (mem ?t) root va =
        (if page_of virt \<le> va \<and> va < finish then user_way (mem s) root va else mmu_user (mem s) root va)"
      using remaps_walk[OF f(3) that] sw(3) unfolding mt by (auto split: option.splits)
  qed
  have some: "f v = Some (?f v)" if "v \<in> set vs" for v using that f(2) by (metis domIff option.collapse)
  note fr = f(4)[unfolded fresh_frames_def]
  have inj: "inj_on ?f (set vs)"
  proof (rule inj_onI)
    fix x y
    assume xy: "x \<in> set vs" "y \<in> set vs" "?f x = ?f y"
    then have "f x = f y" using some by metis
    then show "x = y" using fr xy(1,2) f(2) by (metis inj_on_eq_iff)
  qed
  have "?f v \<in> ran f" if "v \<in> set vs" for v using some[OF that] by (rule ranI)
  then have "?f ` set vs \<subseteq> set ps" "\<forall>v \<in> set vs. \<forall>a. page_of a = ?f v \<longrightarrow> mem ?t a = 0"
    using fr unfolding mt by blast+
  then show ?thesis using call walk inj by (intro exI[of _ ?f] exI[of _ ?t]) blast
qed

text \<open>A running task with an empty address space at \<open>0x10000\<close>, and four free frames.\<close>

definition mmap_demo :: kstate where
  "mmap_demo = pmm_free_page 0x205000 (upd_task 0 (\<lambda>t. t\<lparr>pml4_phys := 0x10000\<rparr>) kernel_demo)"

lemma mmap_demo_frames: "free_frames mmap_demo [0x205000, 0x200000, 0x201000, 0x203000]"
  unfolding mmap_demo_def
  by (rule pmm_free_page_frames) (use boot_demo_frames in \<open>simp_all add: free_frames_def upd_task_def page_aligned_def\<close>)

lemma mmap_demo_fields:
  "current_task mmap_demo = 0" "pml4_phys (task_at mmap_demo 0) = 0x10000"
  by (simp_all add: mmap_demo_def pmm_free_page_def upd_task_def demo_task_def zero_task_def)

lemma mmap_demo_space: "space_ok (mem mmap_demo) 0x10000 [0x205000, 0x200000, 0x201000, 0x203000]"
proof (rule empty_space)
  fix i :: u64
  assume i: "i < 512"
  have "entry (mem mmap_demo) 0x10000 i = entry (\<lambda>_. 0) 0x10000 i"
    by (rule entry_cong)
      (use i in \<open>auto simp: page_aligned_def mmap_demo_def pmm_free_page_def upd_task_def boot_demo_def pmm_demo_def
        setup_paging_other write_word_other_page\<close>)
  then show "entry (mem mmap_demo) 0x10000 i = 0" by (simp add: entry_zero)
qed (simp_all add: page_aligned_def)

theorem sys_mmap_maps_range_witness:
  "\<exists>p t. sys_mmap 0x401000 1 2 mmap_demo = Inr (0, t) \<and> mmu_walk (mem t) 0x10000 0x401234 = Some (p OR 0x234)
    \<and> p \<in> {0x205000, 0x200000, 0x201000, 0x203000}"
proof -
  have r: "round_up 0x401000 1 = 0x402000" "page_of 0x401000 = 0x401000" "page_of 0x401234 = 0x401000"
    by (simp_all add: round_up_def page_of_def del: table_address)
  have "page_list 0x401000 0x402000 = [0x401000]" by (simp add: page_list_def)
  then have "\<exists>f t. sys_mmap 0x401000 1 2 mmap_demo = Inr (0, t)
    \<and> (\<forall>va < 0x1000000000000. mmu_walk (mem t) 0x10000 va =
        (if page_of 0x401000 \<le> va \<and> va < 0x402000 then Some (f (page_of va) OR (va AND 0xFFF)) else mmu_walk (mem mmap_demo) 0x10000 va))
    \<and> (\<forall>va < 0x1000000000000. mmu_user (mem t) 0x10000 va =
        (if page_of 0x401000 \<le> va \<and> va < 0x402000 then user_way (mem mmap_demo) 0x10000 va else mmu_user (mem mmap_demo) 0x10000 va))
    \<and> inj_on f (set [0x401000]) \<and> f ` set [0x401000] \<subseteq> set [0x205000, 0x200000, 0x201000, 0x203000]
    \<and> (\<forall>v \<in> set [0x401000]. \<forall>a. page_of a = f v \<longrightarrow> mem t a = 0)"
    by (intro sys_mmap_maps_range[OF _ _ mmap_demo_frames mmap_demo_space]) (simp_all add: mmap_demo_fields r)
  then obtain f t where t: "sys_mmap 0x401000 1 2 mmap_demo = Inr (0, t)"
      "\<And>va. va < 0x1000000000000 \<Longrightarrow> mmu_walk (mem t) 0x10000 va =
        (if page_of 0x401000 \<le> va \<and> va < 0x402000 then Some (f (page_of va) OR (va AND 0xFFF)) else mmu_walk (mem mmap_demo) 0x10000 va)"
      "f ` set [0x401000] \<subseteq> set [0x205000, 0x200000, 0x201000, 0x203000]"
    by blast
  have "mmu_walk (mem t) 0x10000 0x401234 = Some (f 0x401000 OR 0x234)" using t(2)[of "0x401234"] r by simp
  then show ?thesis using t(1,3) by (intro exI[of _ "f 0x401000"] exI[of _ t]) simp
qed

end
