(* ===== verification/Program_Loading.thy ===== *)
theory Program_Loading
  imports Address_Ranges Process_Creation Task_Lifecycle
begin

text \<open>
  Loading a flat binary, \<^verbatim>\<open>task_create\<close> of \<^verbatim>\<open>kernel/task.c\<close>: the new address space shows the program the
  bytes of the binary at its load address and an empty stack below the stack pointer it starts with.
\<close>

section \<open>The address space of a new process\<close>

text \<open>The boot tables map the lowest gigabyte with 2 MiB pages only, and the two tables above let user code pass.\<close>

definition large_template :: "memory \<Rightarrow> bool" where
  "large_template m \<longleftrightarrow>
     has3 m kernel_pml4_template 0 \<and> entry m kernel_pml4_template 0 AND PAGE_PS = 0
     \<and> entry m (tab3 m kernel_pml4_template 0) 0 AND PAGE_PS = 0
     \<and> entry m kernel_pml4_template 0 AND PAGE_USER \<noteq> 0 \<and> entry m (tab3 m kernel_pml4_template 0) 0 AND PAGE_USER \<noteq> 0
     \<and> (\<forall>j < 512. let e = entry m (tab2 m kernel_pml4_template 0) j in e AND 1 = 0 \<or> e AND PAGE_PS \<noteq> 0)"

lemma cloned_tables:
  assumes "cloned m n a b c" "large_template m"
  shows "table_of n a k = (if k = [] then Some a else if k = [0] then Some b else if k = [0, 0] then Some c else None)"
proof (induction k)
  case (Cons i k)
  have t: "has3 m 0x1000 0" "entry m 0x1000 0 AND 0x80 = 0" "entry m (tab3 m 0x1000 0) 0 AND 0x80 = 0"
    "\<And>j. j < 512 \<Longrightarrow> entry m (tab2 m 0x1000 0) j AND 1 = 0 \<or> entry m (tab2 m 0x1000 0) j AND 0x80 \<noteq> 0"
    using assms(2) by (auto simp: large_template_def Let_def)
  note up = template_upper[OF t(1)] and e = cloned_entries[OF assms(1)]
  consider "k = []" | "k = [0]" | "k = [0, 0]" | "table_of n a k = None" "k \<notin> {[], [0], [0, 0]}"
    using Cons.IH by auto
  then show ?case
  proof cases
    case 1
    then show ?thesis using Cons.IH e(1)[of i] e(5)[of 0] up t by (auto simp: copied_flags)
  next
    case 2
    then show ?thesis using Cons.IH e(2)[of i] e(6)[of 0] up t by (auto simp: copied_flags)
  next
    case 3
    have "entry n c i AND 1 = 0 \<or> entry n c i AND 0x80 \<noteq> 0" if "i < 512"
      using e(3)[OF that] t(4)[OF that] clear_user_bit(1,2)[of "entry m (tab2 m 0x1000 0) i"] by metis
    then show ?thesis using Cons.IH 3 by auto
  next
    case 4
    then show ?thesis by auto
  qed
qed simp

lemma cloned_space:
  assumes "cloned m n a b c" "large_template m" "page_aligned a" "distinct [a, b, c]" "{a, b, c} \<inter> set ps = {}"
  shows "space_ok n a ps"
proof -
  note tab = cloned_tables[OF assms(1,2)] and e = cloned_entries[OF assms(1)]
  have ps: "entry n a j AND 0x80 = 0" "entry n b j AND 0x80 = 0" if "j < 512" for j
    using e(1,2)[OF that] e(5,6)[OF that] assms(2) by (auto simp: large_template_def copied_flags)
  have "entry n u i AND 0x80 = 0" if "length k < 2" "table_of n a k = Some u" "i < 512" for k u i
    using that ps[OF that(3)] tab[of k] by (auto split: if_splits)
  then show ?thesis
    using assms(3-5) unfolding space_ok_def tab by (auto split: if_splits)
qed

lemma cloned_way:
  assumes "cloned m n a b c" "large_template m" "va < 0x1000000000000"
  shows "user_way n a va \<longleftrightarrow> va < 0x40000000"
proof -
  have t: "has3 m 0x1000 0" "entry m (tab3 m 0x1000 0) 0 AND 0x80 = 0"
    "entry m 0x1000 0 AND 4 \<noteq> 0" "entry m (tab3 m 0x1000 0) 0 AND 4 \<noteq> 0"
    "entry m (tab2 m 0x1000 0) (pdt_i va) AND 1 = 0 \<or> entry m (tab2 m 0x1000 0) (pdt_i va) AND 0x80 \<noteq> 0"
    using assms(2) by (auto simp: large_template_def Let_def)
  note up = template_upper[OF t(1)] and e = cloned_entries[OF assms(1)]
  have user: "(p OR (w AND 0xFFF)) AND 4 = w AND 4" if "page_aligned p" for p w :: u64
    using that by (simp add: low_bit_of_or and.assoc)
  have "pml4_i va = 0 \<and> pdpt_i va = 0 \<longleftrightarrow> va < 0x40000000"
    using low_gib_indices(1,2)[of va] low_gib_by_indices[OF assms(3)] by blast
  moreover have "user_way n a va \<longleftrightarrow> pml4_i va = 0 \<and> pdpt_i va = 0"
    using t up e(1)[of "pml4_i va"] e(2)[of "pdpt_i va"] e(3)[of "pdt_i va"] e(5,6)[of 0]
      clear_user_bit(1,2)[of "entry m (tab2 m 0x1000 0) (pdt_i va)"]
    by (auto simp: user_way_def Let_def copied_flags user)
  ultimately show ?thesis by blast
qed

section \<open>Pages for the program\<close>

lemma map_list_remaps:
  assumes "free_frames s ps" "space_ok (mem s) (paging_root s) ps" "distinct vs" "\<forall>v \<in> set vs. page_aligned v \<and> v < 0x1000000000000"
    and "4 * length vs \<le> length ps"
    and "\<forall>v \<in> set vs. \<forall>p \<in> set (take (4 * length vs) ps). \<not> (v AND 0x1FFFFF = 0 \<and> p AND 0x1FFFFF = 0)"
  shows "\<exists>f qs t. map_list vs s = (True, t) \<and> dom f = set vs \<and> length ps \<le> length qs + 4 * length vs
    \<and> remaps True (paging_root s) ps s f qs t \<and> fresh_frames (paging_root s) ps f qs t"
  using assms
proof (induction vs arbitrary: s ps)
  case Nil
  then show ?case
    using remaps_refl by (intro exI[of _ Map.empty] exI[of _ ps]) (simp add: fresh_frames_def)
next
  case (Cons v vs)
  let ?fl = "PAGE_PRESENT OR PAGE_WRITABLE OR PAGE_USER"
  have v: "page_aligned v" "v < 0x1000000000000" "4 \<le> length ps" "v \<notin> set vs" "distinct vs"
    using Cons.prems(3-5) by simp_all
  have large: "\<forall>p \<in> set (take (4 * length (v # vs)) ps). \<not> (v AND 0x1FFFFF = 0 \<and> p AND 0x1FFFFF = 0)"
    and rest: "\<forall>v \<in> set vs. page_aligned v \<and> v < 0x1000000000000"
      "\<forall>w \<in> set vs. \<forall>p \<in> set (take (4 * length (v # vs)) ps). \<not> (w AND 0x1FFFFF = 0 \<and> p AND 0x1FFFFF = 0)"
    using Cons.prems(4,6) by (meson list.set_intros)+
  have fl: "?fl AND 0xFFF = ?fl" "?fl AND PAGE_PRESENT \<noteq> 0" "?fl AND PAGE_USER \<noteq> 0" by simp_all
  have large4: "\<forall>p \<in> set (take 4 ps). \<not> (v AND 0x1FFFFF = 0 \<and> p AND 0x1FFFFF = 0)"
    using large first_frames[of 4 "4 * length (v # vs)" ps] by (simp, blast)
  obtain p qs t where t: "map_fresh ?fl v s = (True, t)" "remaps True (paging_root s) ps s [v \<mapsto> p] qs t"
      "fresh_frames (paging_root s) ps [v \<mapsto> p] qs t" "length ps \<le> length qs + 4"
    using map_fresh_step[OF Cons.prems(1,2) v(3) fl v(1,2) large4] .
  note r = remapsD[OF t(2)]
  have "\<exists>f rs u. map_list vs t = (True, u) \<and> dom f = set vs \<and> length qs \<le> length rs + 4 * length vs
      \<and> remaps True (paging_root t) qs t f rs u \<and> fresh_frames (paging_root t) qs f rs u"
  proof (rule Cons.IH[OF r(1) _ v(5) rest(1)])
    show "space_ok (mem t) (paging_root t) qs" using r(2,4) by simp
    show "4 * length vs \<le> length qs" using Cons.prems(5) t(4) by simp
    have "set (take (4 * length vs) qs) \<subseteq> set (take (4 * length (v # vs)) ps)"
      using later_frames[OF r(3) t(4), of "4 * length vs"] by simp
    then show "\<forall>v \<in> set vs. \<forall>p \<in> set (take (4 * length vs) qs). \<not> (v AND 0x1FFFFF = 0 \<and> p AND 0x1FFFFF = 0)"
      using rest(2) by blast
  qed
  then obtain f rs u where u: "map_list vs t = (True, u)" "dom f = set vs" "length qs \<le> length rs + 4 * length vs"
      "remaps True (paging_root s) qs t f rs u" "fresh_frames (paging_root s) qs f rs u"
    using r(4) by auto
  have "fresh_frames (paging_root s) ps ([v \<mapsto> p] ++ f) rs u"
    using fresh_frames_trans[OF t(3) u(5,4) r(3)] u(2) v(4) by simp
  moreover have "dom ([v \<mapsto> p] ++ f) = set (v # vs)" using u(2) by simp
  moreover have "map_list (v # vs) s = (True, u)" using t(1) u(1) by simp
  moreover have "length ps \<le> length rs + 4 * length (v # vs)" using t(4) u(3) by simp
  ultimately show ?case using remaps_trans[OF t(2) u(4)] by blast
qed

section \<open>Copying\<close>

text \<open>Memory outside the tables and the free frames may change without effect on the address space.\<close>

lemma outside_cong:
  assumes "space_ok m root ps" "\<And>a. m' a \<noteq> m a \<Longrightarrow> outside m root ps (page_of a)"
  shows "table_of m' root k = table_of m root k" "view m' root va = view m root va" "space_ok m' root ps"
proof -
  note ok = space_okD[OF assms(1)]
  have e: "entry m' u i = entry m u i" if "table_of m root k = Some u" "i < 512" for k u i
    by (rule entry_cong) (use that table_aligned[OF ok(1)] assms(2)[unfolded outside_def] in \<open>blast+\<close>)
  show tab: "table_of m' root k = table_of m root k" for k
  proof (induction k)
    case (Cons i k)
    then show ?case using e by (auto split: option.splits)
  qed simp
  have "entry m' u i AND PAGE_PS = 0" if "length k < 2" "table_of m root k = Some u" "i < 512" for k u i
    using e[OF that(2,3)] ok(4)[OF that] by simp
  then show "space_ok m' root ps" using assms(1) unfolding space_ok_def tab by blast
  show "view m' root va = view m root va"
    using e walk_slot_key[OF assms(1)] walk_slots_aligned[OF ok(1)] by (intro view_slots_cong) blast
qed

lemma vcopy_effect:
  assumes "space_ok (mem s) (cr3 s) ps"
    and "\<And>i. i < n \<Longrightarrow> translate s (dst + of_nat i) = Inr (D i)" "\<And>i. i < n \<Longrightarrow> outside (mem s) (cr3 s) ps (page_of (D i))"
    and "\<And>i. i < n \<Longrightarrow> translate s (src + of_nat i) = Inr (S i)"
    and "\<And>i j. i < n \<Longrightarrow> j < n \<Longrightarrow> D i \<noteq> S j" "inj_on D {..<n}"
  shows "\<exists>m. vcopy n dst src s = Inr (s\<lparr>mem := m\<rparr>) \<and> (\<forall>i < n. m (D i) = mem s (S i))
    \<and> (\<forall>a. a \<notin> D ` {..<n} \<longrightarrow> m a = mem s a)"
  using assms
proof (induction n arbitrary: dst src s D S)
  case 0
  then show ?case by (intro exI[of _ "mem s"]) simp
next
  case (Suc n)
  let ?s = "s\<lparr>mem := (mem s)(D 0 := mem s (S 0))\<rparr>"
  have t0: "translate s dst = Inr (D 0)" "translate s src = Inr (S 0)" using Suc.prems(2,4)[of 0] by simp_all
  have out: "outside (mem s) (cr3 s) ps (page_of a)" if "mem ?s a \<noteq> mem s a" for a
  proof -
    have "a = D 0" using that by (cases "a = D 0") simp_all
    then show ?thesis using Suc.prems(3)[of 0] by simp
  qed
  have same: "table_of (mem ?s) (cr3 s) k = table_of (mem s) (cr3 s) k" "view (mem ?s) (cr3 s) va = view (mem s) (cr3 s) va"
    "space_ok (mem ?s) (cr3 s) ps" for k va
    using outside_cong[OF Suc.prems(1) out] by blast+
  have tr: "translate ?s va = translate s va" for va unfolding translate_def using same(2)[of va] by (simp add: view_def)
  have zero: "D (Suc i) \<noteq> D 0" if "i < n" for i
    using inj_on_eq_iff[OF Suc.prems(6), of "Suc i" 0] that by simp
  have inj: "inj_on (D \<circ> Suc) {..<n}"
    using Suc.prems(6) by (auto simp: inj_on_def)
  have "\<exists>m. vcopy n (dst + 1) (src + 1) ?s = Inr (?s\<lparr>mem := m\<rparr>) \<and> (\<forall>i < n. m ((D \<circ> Suc) i) = mem ?s ((S \<circ> Suc) i))
      \<and> (\<forall>a. a \<notin> (D \<circ> Suc) ` {..<n} \<longrightarrow> m a = mem ?s a)"
  proof (rule Suc.IH)
    show "space_ok (mem ?s) (cr3 ?s) ps" using same(3) by simp
    fix i
    assume i: "i < n"
    show "translate ?s (dst + 1 + of_nat i) = Inr ((D \<circ> Suc) i)" "translate ?s (src + 1 + of_nat i) = Inr ((S \<circ> Suc) i)"
      using Suc.prems(2,4)[of "Suc i"] i tr by (simp_all add: add.assoc)
    show "outside (mem ?s) (cr3 ?s) ps (page_of ((D \<circ> Suc) i))"
      using Suc.prems(3)[of "Suc i"] i same(1) by (simp add: outside_def)
    show "(D \<circ> Suc) i \<noteq> (S \<circ> Suc) j" if "j < n" for j using Suc.prems(5) i that by simp
  qed (rule inj)
  then obtain m where m: "vcopy n (dst + 1) (src + 1) ?s = Inr (?s\<lparr>mem := m\<rparr>)"
      "\<And>i. i < n \<Longrightarrow> m (D (Suc i)) = mem ?s (S (Suc i))" "\<And>a. a \<notin> (D \<circ> Suc) ` {..<n} \<Longrightarrow> m a = mem ?s a"
    by auto
  have "vcopy (Suc n) dst src s = Inr (s\<lparr>mem := m\<rparr>)" using t0 m(1) by simp
  moreover have "m (D i) = mem s (S i)" if "i < Suc n" for i
  proof (cases i)
    case 0
    then show ?thesis using m(3)[of "D 0"] zero by fastforce
  next
    case (Suc j)
    then show ?thesis using m(2)[of j] that Suc.prems(5)[of 0 i] by simp
  qed
  moreover have "m a = mem s a" if "a \<notin> D ` {..<Suc n}" for a
  proof -
    have "a \<noteq> D 0" "a \<notin> (D \<circ> Suc) ` {..<n}" using that by auto
    then show ?thesis using m(3)[of a] by simp
  qed
  ultimately show ?case by blast
qed

lemma vread_iff:
  "vread n va s = Inr bs \<longleftrightarrow>
     length bs = n \<and> (\<forall>i < n. \<exists>pa. translate s (va + of_nat i) = Inr pa \<and> mem s pa = bs ! i)"
proof (induction n arbitrary: va bs)
  case 0
  then show ?case by auto
next
  case (Suc n)
  have "vread (Suc n) va s = Inr bs \<longleftrightarrow>
      (\<exists>pa cs. translate s va = Inr pa \<and> vread n (va + 1) s = Inr cs \<and> bs = mem s pa # cs)"
    by (auto simp: bind_res_Inr)
  also have "\<dots> \<longleftrightarrow> length bs = Suc n \<and> (\<forall>i < Suc n. \<exists>pa. translate s (va + of_nat i) = Inr pa \<and> mem s pa = bs ! i)"
    unfolding Suc.IH by (cases bs) (auto simp: All_less_Suc2 add.assoc)
  finally show ?case .
qed

lemma low_canonical:
  assumes "unat va < 2 ^ 47"
  shows "canonical va" "va < 0x1000000000000"
proof -
  have "drop_bit 47 va = 0" using assms by (simp add: word_unat_eq_iff unat_drop_bit_eq drop_bit_eq_div unat_div)
  then show "canonical va" by (simp add: canonical_def)
  show "va < 0x1000000000000" using assms by (simp add: word_less_nat_alt)
qed

section \<open>The pages of a program\<close>

text \<open>Page \<open>i\<close> of the megabyte from the load address; code from the start, the stack at the end.\<close>

abbreviation program_page :: "u64 \<Rightarrow> nat \<Rightarrow> u64" where
  "program_page addr i \<equiv> addr + of_nat i * 4096"

definition program_pages :: "u64 \<Rightarrow> u64 \<Rightarrow> u64 list" where
  "program_pages addr sz = map (program_page addr) ([0..<(unat sz + 4095) div 4096] @ [255, 254, 253, 252])"

lemma program_page_unat:
  assumes "unat addr + 0x100000 \<le> 2 ^ 47" "i < 256"
  shows "unat (program_page addr i) = unat addr + 4096 * i"
  using assms by (simp add: unat_word_ariths unat_of_nat take_bit_nat_eq_self_iff)

lemma program_pages_ok:
  assumes "page_aligned addr" "unat addr + 0x100000 \<le> 2 ^ 47" "unat sz \<le> 0x10000"
  shows "distinct (program_pages addr sz)" "\<forall>v \<in> set (program_pages addr sz). page_aligned v \<and> v < 0x1000000000000"
proof -
  let ?is = "[0..<(unat sz + 4095) div 4096] @ [255, 254, 253, 252]"
  have small: "i < 256" if "i \<in> set ?is" for i using that assms(3) by auto
  have "(unat sz + 4095) div 4096 \<le> 16" using assms(3) by simp
  then have "distinct ?is" by auto
  moreover have "inj_on (program_page addr) (set ?is)"
  proof (rule inj_onI)
    fix i j
    assume i: "i \<in> set ?is" and j: "j \<in> set ?is" and eq: "program_page addr i = program_page addr j"
    show "i = j" using arg_cong[OF eq, of unat] program_page_unat[OF assms(2) small[OF i]] program_page_unat[OF assms(2) small[OF j]] by simp
  qed
  ultimately show "distinct (program_pages addr sz)" unfolding program_pages_def distinct_map by blast
  have "page_aligned (program_page addr i) \<and> program_page addr i < 0x1000000000000" if "i \<in> set ?is" for i
    using program_page_unat[OF assms(2) small[OF that]] small[OF that] assms(1,2)
    by (simp add: page_aligned_dvd word_less_nat_alt)
  then show "\<forall>v \<in> set (program_pages addr sz). page_aligned v \<and> v < 0x1000000000000"
    unfolding program_pages_def set_map by blast
qed

lemma code_page_in:
  assumes "i < unat sz"
  shows "program_page addr (i div 4096) \<in> set (program_pages addr sz)"
proof -
  have "i div 4096 < (unat sz + 4095) div 4096" using div_le_mono[of "i + 4096" "unat sz + 4095" 4096] assms by simp
  then show ?thesis by (auto simp: program_pages_def)
qed

lemma stack_page_in:
  assumes "0xFC000 \<le> i" "i < 0x100000"
  shows "program_page addr (i div 4096) \<in> set (program_pages addr sz)"
proof -
  have "252 \<le> i div 4096" "i div 4096 < 256" using div_le_mono[OF assms(1), of 4096] assms(2) by simp_all
  then have "i div 4096 = 252 \<or> i div 4096 = 253 \<or> i div 4096 = 254 \<or> i div 4096 = 255" by linarith
  then have "i div 4096 \<in> set ([0..<(unat sz + 4095) div 4096] @ [255, 254, 253, 252])" by auto
  then show ?thesis unfolding program_pages_def set_map by (rule imageI)
qed

lemma map_list_append:
  "map_list (vs @ ws) s = (let (ok, t) = map_list vs s in if ok then map_list ws t else (False, t))"
  by (induction vs arbitrary: s) (auto simp: Let_def split: prod.splits)

lemma flat_load_program_pages:
  assumes "unat sz \<le> 0x10000"
  shows "flat_load binary sz addr root s =
    (let (ok, t) = map_list (program_pages addr sz) (paging_switch root s)
     in if \<not> ok then Inr (False, t)
        else bind_res (vcopy (unat sz) addr binary t) (\<lambda>u. Inr (True, paging_switch (paging_root s) u)))"
proof -
  have "unat ((sz + 4095) div 4096) = (unat sz + 4095) div 4096" using assms by (simp add: unat_div unat_word_ariths)
  moreover have "stack_pages (addr + 0x100000) = map (program_page addr) [255, 254, 253, 252]"
    by (simp add: stack_pages_def upt_rec)
  ultimately show ?thesis
    unfolding flat_load_def program_pages_def map_append map_list_append
    by (auto simp: Let_def split: prod.splits)
qed

lemma program_address:
  assumes "page_aligned addr" "unat addr + 0x100000 \<le> 2 ^ 47" "n < 0x100000"
  shows "unat (addr + of_nat n) = unat addr + n" "page_of (addr + of_nat n) = program_page addr (n div 4096)"
    "canonical (addr + of_nat n)" "addr + of_nat n < 0x1000000000000"
proof -
  show u: "unat (addr + of_nat n) = unat addr + n"
    using assms by (simp add: unat_word_ariths unat_of_nat take_bit_nat_eq_self_iff)
  then have "unat (addr + of_nat n) < 2 ^ 47" using assms(2,3) by simp
  then show "canonical (addr + of_nat n)" "addr + of_nat n < 0x1000000000000" by (rule low_canonical)+
  obtain c where "unat addr = 4096 * c" using assms(1) by (auto simp: page_aligned_dvd elim: dvdE)
  then have "unat (page_of (addr + of_nat n)) = unat addr + 4096 * (n div 4096)"
    unfolding unat_page_of u by (simp add: mult.commute)
  moreover have "unat (program_page addr (n div 4096)) = unat addr + 4096 * (n div 4096)"
    by (rule program_page_unat[OF assms(2)]) (use assms(3) in simp)
  ultimately show "page_of (addr + of_nat n) = program_page addr (n div 4096)" by (simp add: word_unat_eq_iff)
qed

text \<open>The physical address of an address of a mapped page.\<close>

definition frame_byte :: "(u64 \<rightharpoonup> u64) \<Rightarrow> u64 \<Rightarrow> u64" where
  "frame_byte f va = the (f (page_of va)) OR (va AND 0xFFF)"

lemma frame_byte_page:
  assumes "page_of va \<in> dom f" "\<forall>p \<in> ran f. page_aligned p"
  shows "f (page_of va) = Some (page_of (frame_byte f va))" "frame_byte f va AND 0xFFF = va AND 0xFFF"
    "page_of (frame_byte f va) \<in> ran f"
proof -
  obtain p where p: "f (page_of va) = Some p" using assms(1) by blast
  then have "page_aligned p" using assms(2) ranI by metis
  then have "page_of (p OR (va AND 0xFFF)) = p" "(p OR (va AND 0xFFF)) AND 0xFFF = va AND 0xFFF"
    by (simp_all add: page_or_bits low_bit_of_or and.assoc)
  then show "f (page_of va) = Some (page_of (frame_byte f va))" "frame_byte f va AND 0xFFF = va AND 0xFFF"
    "page_of (frame_byte f va) \<in> ran f"
    using p by (auto simp: frame_byte_def intro: ranI)
qed

lemma frame_byte_inj:
  assumes "inj_on f (dom f)" "\<forall>p \<in> ran f. page_aligned p" "page_of va \<in> dom f" "page_of vb \<in> dom f"
    and "frame_byte f va = frame_byte f vb"
  shows "va = vb"
proof -
  have "f (page_of va) = f (page_of vb)"
    using frame_byte_page(1)[OF assms(3,2)] frame_byte_page(1)[OF assms(4,2)] assms(5) by simp
  then have "page_of va = page_of vb" using inj_on_eq_iff[OF assms(1,3,4)] by simp
  moreover have "va AND 0xFFF = vb AND 0xFFF"
    using frame_byte_page(2)[OF assms(3,2)] frame_byte_page(2)[OF assms(4,2)] assms(5) by simp
  ultimately show ?thesis using page_of_plus_offset[of va] page_of_plus_offset[of vb] by metis
qed

lemma program_code:
  assumes "page_aligned addr" "unat addr + 0x100000 \<le> 2 ^ 47" "unat sz \<le> 0x10000" "i < unat sz"
  shows "page_of (addr + of_nat i) \<in> set (program_pages addr sz)" "addr + of_nat i < 0x1000000000000"
    "canonical (addr + of_nat i)" "unat (addr + of_nat i) = unat addr + i"
proof -
  have "i < 0x100000" using assms(3,4) by simp
  note pa = program_address[OF assms(1,2) this]
  then show "page_of (addr + of_nat i) \<in> set (program_pages addr sz)" using code_page_in[OF assms(4)] by simp
  show "addr + of_nat i < 0x1000000000000" "canonical (addr + of_nat i)" "unat (addr + of_nat i) = unat addr + i"
    using pa by simp_all
qed

lemma code_bytes_inj:
  assumes "page_aligned addr" "unat addr + 0x100000 \<le> 2 ^ 47" "unat sz \<le> 0x10000"
    and "inj_on f (dom f)" "\<forall>p \<in> ran f. page_aligned p" "dom f = set (program_pages addr sz)"
  shows "inj_on (\<lambda>i. frame_byte f (addr + of_nat i)) {..<unat sz}"
proof (rule inj_onI)
  fix i j
  assume ij: "i \<in> {..<unat sz}" "j \<in> {..<unat sz}" "frame_byte f (addr + of_nat i) = frame_byte f (addr + of_nat j)"
  then have "i < unat sz" "j < unat sz" by simp_all
  note i = program_code[OF assms(1-3) this(1)] and j = program_code[OF assms(1-3) this(2)]
  have "unat (addr + of_nat i) = unat (addr + of_nat j)"
    using frame_byte_inj[OF assms(4,5) _ _ ij(3)] i(1) j(1) assms(6) by (metis (no_types))
  then show "i = j" using i(4) j(4) by simp
qed

section \<open>Loading\<close>

text \<open>The bytes that an address space shows.\<close>

definition space_bytes :: "u64 \<Rightarrow> 'a paging_state_scheme \<Rightarrow> nat \<Rightarrow> u64 \<Rightarrow> u8 list res" where
  "space_bytes root s n va = vread n va (paging_switch root s)"

lemma translate_switch:
  assumes "canonical va"
  shows "translate (paging_switch root s) va = Inr pa \<longleftrightarrow> mmu_walk (mem s) root va = Some pa"
  using assms by (auto simp: translate_def paging_switch_def split: option.splits)

lemma space_bytes_iff:
  assumes "unat va + n \<le> 2 ^ 47"
  shows "space_bytes root s n va = Inr bs \<longleftrightarrow>
    length bs = n \<and> (\<forall>i < n. \<exists>pa. mmu_walk (mem s) root (va + of_nat i) = Some pa \<and> mem s pa = bs ! i)"
proof -
  have tr: "translate (paging_switch root s) (va + of_nat i) = Inr pa \<longleftrightarrow> mmu_walk (mem s) root (va + of_nat i) = Some pa"
    if "i < n" for i pa
  proof (rule translate_switch, rule low_canonical)
    show "unat (va + of_nat i) < 2 ^ 47"
      using assms that by (simp add: unat_word_ariths unat_of_nat take_bit_nat_eq_self_iff)
  qed
  have "mem (paging_switch root s) = mem s" by (simp add: paging_switch_def)
  then show ?thesis unfolding space_bytes_def vread_iff using tr by auto
qed

lemma flat_load_effect:
  assumes "free_frames s ps" "space_ok (mem s) root ps" "page_aligned addr" "unat addr + 0x100000 \<le> 2 ^ 47" "unat sz \<le> 0x10000"
    and "vs = program_pages addr sz" "4 * length vs \<le> length ps"
    and "\<forall>v \<in> set vs. \<forall>p \<in> set (take (4 * length vs) ps). \<not> (v AND 0x1FFFFF = 0 \<and> p AND 0x1FFFFF = 0)"
    and "unat binary + unat sz \<le> 2 ^ 47"
    and "\<And>i. i < unat sz \<Longrightarrow> mmu_walk (mem s) root (binary + of_nat i) = Some (S i) \<and> outside (mem s) root ps (page_of (S i))
          \<and> page_of (binary + of_nat i) \<notin> set vs"
  obtains f qs t where "flat_load binary sz addr root s = Inr (True, t)" "dom f = set vs"
    "inj_on f (dom f)" "ran f \<subseteq> set ps" "space_ok (mem t) root qs"
    "\<And>q. q \<in> ran f \<or> outside (mem s) root ps q \<Longrightarrow> outside (mem t) root qs q"
    "\<And>va. va < 0x1000000000000 \<Longrightarrow> page_of va \<in> dom f \<Longrightarrow> mmu_walk (mem t) root va = Some (frame_byte f va)"
    "\<And>i. i < unat sz \<Longrightarrow> mem t (frame_byte f (addr + of_nat i)) = mem s (S i)"
    "\<And>va. page_of va \<in> dom f \<Longrightarrow> (\<nexists>i. i < unat sz \<and> va = addr + of_nat i) \<Longrightarrow> mem t (frame_byte f va) = 0"
    "\<And>va. va < 0x1000000000000 \<Longrightarrow> mmu_user (mem t) root va = (if page_of va \<in> dom f then user_way (mem s) root va else mmu_user (mem s) root va)"
proof -
  let ?s = "paging_switch root s" and ?n = "unat sz" and ?D = "\<lambda>f i. frame_byte f (addr + of_nat i)"
  have sw: "free_frames ?s ps" "space_ok (mem ?s) (paging_root ?s) ps" "mem ?s = mem s" "paging_root ?s = root" "cr3 ?s = root"
    using assms(1,2) by (simp_all add: paging_switch_def free_frames_def)
  note pp = program_pages_ok[OF assms(3-5), folded assms(6)]
  obtain f qs u where f: "map_list vs ?s = (True, u)" "dom f = set vs" "remaps True root ps ?s f qs u" "fresh_frames root ps f qs u"
    using map_list_remaps[OF sw(1,2) pp assms(7,8)] unfolding sw(4) by blast
  note r = remapsD[OF f(3)] and fr = f(4)[unfolded fresh_frames_def]
  have cr: "cr3 u = root" using keeps_kernel_map_list[OF f(1)] sw(5) by (simp add: keeps_kernel_def)
  have ran: "ran f \<subseteq> set ps" "\<forall>p \<in> ran f. page_aligned p"
    using fr pmm.frames_aligned[OF assms(1)] by blast+
  note fb = frame_byte_page[OF _ ran(2)]
  have walk: "mmu_walk (mem u) root va = Some (frame_byte f va)" if "va < 0x1000000000000" "page_of va \<in> dom f" for va
    using remaps_walk(1)[OF f(3) that(1)] that(2) by (auto simp: frame_byte_def)
  have user: "mmu_user (mem u) root va = (if page_of va \<in> dom f then user_way (mem s) root va else mmu_user (mem s) root va)"
    if "va < 0x1000000000000" for va
    using remaps_walk(2)[OF f(3) that] sw(3) by (auto split: option.splits)
  note code = program_code[OF assms(3-5), folded assms(6) f(2)]
  have dst: "translate u (addr + of_nat i) = Inr (?D f i)" "outside (mem u) (cr3 u) qs (page_of (?D f i))" if "i < ?n" for i
    using walk[OF code(2)[OF that] code(1)[OF that]] code(3)[OF that] fb(3)[OF code(1)[OF that]] fr cr by (auto simp: translate_def)
  have src: "translate u (binary + of_nat i) = Inr (S i)" "mem u (S i) = mem s (S i)" if "i < ?n" for i
  proof -
    note a = assms(10)[OF that]
    have "unat (binary + of_nat i) < 2 ^ 47"
      using assms(9) that by (simp add: unat_word_ariths unat_of_nat take_bit_nat_eq_self_iff)
    note low = low_canonical[OF this]
    have "f (page_of (binary + of_nat i)) = None" using a f(2) by blast
    then show "translate u (binary + of_nat i) = Inr (S i)" using remaps_walk(1)[OF f(3) low(2)] a low(1) sw(3) cr by (simp add: translate_def)
    show "mem u (S i) = mem s (S i)" using r(7)[of "page_of (S i)" "S i"] a sw(3) by simp
  qed
  have inj: "inj_on f (dom f)" using fr by blast
  have "inj_on (?D f) {..<?n}" by (rule code_bytes_inj[OF assms(3-5) inj ran(2)]) (simp add: f(2) assms(6))
  moreover have "?D f i \<noteq> S j" if "i < ?n" "j < ?n" for i j
    using fb(3)[OF code(1)[OF that(1)]] ran(1) assms(10)[OF that(2)] by (auto simp: outside_def)
  ultimately obtain m where m: "vcopy ?n addr binary u = Inr (u\<lparr>mem := m\<rparr>)" "\<And>i. i < ?n \<Longrightarrow> m (?D f i) = mem u (S i)"
      "\<And>a. a \<notin> ?D f ` {..<?n} \<Longrightarrow> m a = mem u a"
    using vcopy_effect[of u qs ?n addr "?D f" binary S] r(2) cr dst src(1) by auto
  have out: "outside (mem u) root qs (page_of a)" if ne: "m a \<noteq> mem u a" for a
  proof -
    obtain i where "i < ?n" "a = ?D f i" using m(3)[of a] ne by blast
    then show ?thesis using dst(2) cr by simp
  qed
  have same: "table_of m root k = table_of (mem u) root k" "view m root va = view (mem u) root va" "space_ok m root qs" for k va
    using outside_cong[OF r(2) out] by blast+
  then have views: "mmu_walk m root va = mmu_walk (mem u) root va" "mmu_user m root va = mmu_user (mem u) root va" for va
    by (simp_all add: view_def)
  have q: "outside m root qs q = outside (mem u) root qs q" for q using same(1) by (simp add: outside_def)
  let ?t = "paging_switch (paging_root s) (u\<lparr>mem := m\<rparr>)"
  have mt: "mem ?t = m" by (simp add: paging_switch_def)
  have stack: "m (frame_byte f va) = 0" if "page_of va \<in> dom f" "\<nexists>i. i < ?n \<and> va = addr + of_nat i" for va
  proof -
    have "frame_byte f va \<noteq> ?D f i" if "i < ?n" for i
      using frame_byte_inj[OF inj ran(2) \<open>page_of va \<in> dom f\<close> code(1)[OF that]] that \<open>\<nexists>i. i < ?n \<and> va = addr + of_nat i\<close> by blast
    then have "m (frame_byte f va) = mem u (frame_byte f va)" by (intro m(3)) auto
    then show ?thesis using fr fb(3)[OF that(1)] by auto
  qed
  show thesis
  proof (rule that[of ?t f qs])
    show "flat_load binary sz addr root s = Inr (True, ?t)"
      using f(1) m(1) unfolding flat_load_program_pages[OF assms(5)] assms(6)[symmetric] by simp
    show "outside (mem ?t) root qs q'" if "q' \<in> ran f \<or> outside (mem s) root ps q'" for q'
      unfolding mt q using that fr r(6)[of q'] sw(3) by auto
  qed (use f(2) fr ran(1) same(3) views walk user m(2) src(2) stack in \<open>auto simp: mt\<close>)
qed

section \<open>Creating the process\<close>

abbreviation template_tables :: "memory \<Rightarrow> u64 set" where
  "template_tables m \<equiv> {kernel_pml4_template, tab3 m kernel_pml4_template 0, tab2 m kernel_pml4_template 0}"

lemma large_template_ok:
  assumes "large_template m" "template_tables m \<inter> fs = {}"
  shows "template_ok m fs"
  using assms by (auto simp: large_template_def template_ok_def Let_def)

lemma large_template_cong:
  assumes "large_template m" "\<And>a. page_of a \<in> template_tables m \<Longrightarrow> n a = m a"
  shows "large_template n" "template_tables n = template_tables m"
    "va < 0x40000000 \<Longrightarrow> mmu_walk n kernel_pml4_template va = mmu_walk m kernel_pml4_template va"
proof -
  have i0: "pml4_i 0 = 0" "pdpt_i 0 = 0" by (simp_all add: pml4_i_def pdpt_i_def)
  have al: "page_aligned 0x1000" "page_aligned (tab3 m 0x1000 0)" "page_aligned (tab2 m 0x1000 0)"
    by (simp_all add: page_aligned_def[of "0x1000"] tab3_def tab2_def)
  have e4: "entry n 0x1000 j = entry m 0x1000 j" if "j < 512" for j
    using entry_cong[OF al(1) that, of n m] assms(2) by blast
  have e3: "entry n (tab3 m 0x1000 0) j = entry m (tab3 m 0x1000 0) j" if "j < 512" for j
    using entry_cong[OF al(2) that, of n m] assms(2) by blast
  have e2: "entry n (tab2 m 0x1000 0) j = entry m (tab2 m 0x1000 0) j" if "j < 512" for j
    using entry_cong[OF al(3) that, of n m] assms(2) by blast
  have t3: "tab3 n 0x1000 0 = tab3 m 0x1000 0" using e4[of 0] by (simp add: tab3_def i0)
  have t2: "tab2 n 0x1000 0 = tab2 m 0x1000 0" using e3[of 0] by (simp add: tab2_def t3 i0)
  show "template_tables n = template_tables m" using t3 t2 by simp
  show "large_template n"
    using assms(1) e4[of 0] e3[of 0] e2 unfolding large_template_def has3_def has4_def t3 t2 i0 by simp
  show "mmu_walk n 0x1000 va = mmu_walk m 0x1000 va" if "va < 0x40000000"
  proof (rule mmu_walk_cong[OF al(1)])
    have "set (walk_tables m 0x1000 va) \<subseteq> template_tables m"
      using low_gib_indices(1,2)[OF that] assms(1)
      by (auto simp: walk_tables_def large_template_def Let_def tab3_def tab2_def i0)
    then show "n a = m a" if "page_of a \<in> set (walk_tables m 0x1000 va)" for a using assms(2) that by blast
  qed
qed

lemma clone_gives_space:
  assumes "free_frames s (a # b # c # ps)" "large_template (mem s)" "template_tables (mem s) \<inter> set (a # b # c # ps) = {}"
  obtains t where "paging_clone_kernel s = (a, t)" "free_frames t ps" "space_ok (mem t) a ps" "a \<noteq> 0"
    "\<And>va. va < 0x40000000 \<Longrightarrow> mmu_walk (mem t) a va = mmu_walk (mem s) kernel_pml4_template va"
    "\<And>x. page_of x \<notin> {a, b, c} \<Longrightarrow> mem t x = mem s x"
    "\<And>q. q \<notin> set (a # b # c # ps) \<Longrightarrow> outside (mem t) a ps q"
    "\<And>va. va < 0x1000000000000 \<Longrightarrow> user_way (mem t) a va = (va < 0x40000000)" "\<And>va. \<not> mmu_user (mem t) a va"
proof -
  have ok: "template_ok (mem s) {a, b, c}" 
  proof (rule large_template_ok[OF assms(2)])
    have "{a, b, c} \<subseteq> set (a # b # c # ps)" by simp
    then show "template_tables (mem s) \<inter> {a, b, c} = {}" using assms(3) by blast
  qed
  obtain t where t: "paging_clone_kernel s = (a, t)" "free_frames t ps" "cloned (mem s) (mem t) a b c"
    "page_aligned a" "a \<noteq> 0" "distinct [a, b, c]" "\<And>x. page_of x \<notin> {a, b, c} \<Longrightarrow> mem t x = mem s x"
    by (rule paging_clone_kernel_cloned[OF assms(1) ok]) (rule that, assumption+)
  have "{a, b, c} \<inter> set ps = {}" using pmm.frames_distinct[OF assms(1)] by auto
  then have "space_ok (mem t) a ps" using cloned_space[OF t(3) assms(2) t(4,6)] by blast
  moreover have "outside (mem t) a ps q" if "q \<notin> set (a # b # c # ps)" for q
    using that cloned_tables[OF t(3) assms(2)] by (auto simp: outside_def)
  moreover have "mmu_walk (mem t) a va = mmu_walk (mem s) kernel_pml4_template va" if "va < 0x40000000" for va
    using cloned_walk[OF t(3) ok, of va] low_gib_indices(1,2)[OF that] by simp
  ultimately show thesis using that t(1,2,5,7) cloned_way[OF t(3) assms(2)] cloned_no_user[OF t(3) ok] by blast
qed

text \<open>The kernel stack and the address space of a new process.\<close>

lemma new_space:
  assumes "free_frames s fs" "fs = k # a # b # c # ps" "large_template (mem s)" "template_tables (mem s) \<inter> set fs = {}"
  obtains s1 s2 where "pmm_alloc_page s = (k, s1)" "k \<noteq> 0" "page_aligned k" "paging_clone_kernel s1 = (a, s2)" "a \<noteq> 0"
    "free_frames s2 ps" "space_ok (mem s2) a ps" "outside (mem s2) a ps k"
    "\<And>va. va < 0x40000000 \<Longrightarrow> mmu_walk (mem s2) a va = mmu_walk (mem s) kernel_pml4_template va"
    "\<And>x. page_of x \<notin> set fs \<Longrightarrow> mem s2 x = mem s x" "\<And>q. q \<notin> set fs \<Longrightarrow> outside (mem s2) a ps q"
    "\<And>va. va < 0x1000000000000 \<Longrightarrow> user_way (mem s2) a va = (va < 0x40000000)" "\<And>va. \<not> mmu_user (mem s2) a va"
proof -
  obtain s1 where s1: "pmm_alloc_page s = (k, s1)" "free_frames s1 (a # b # c # ps)" "k \<noteq> 0" "page_aligned k"
      "k \<notin> set (a # b # c # ps)" "mem s1 = (\<lambda>x. if page_of x = k then 0 else mem s x)"
    using assms(1) unfolding assms(2) by (rule pmm.alloc_cases) auto
  have "mem s1 x = mem s x" if "page_of x \<in> template_tables (mem s)" for x
    using that assms(2,4) s1(6) by (cases "page_of x = k") auto
  then have tpl: "large_template (mem s1)" "template_tables (mem s1) = template_tables (mem s)"
      "\<And>va. va < 0x40000000 \<Longrightarrow> mmu_walk (mem s1) kernel_pml4_template va = mmu_walk (mem s) kernel_pml4_template va"
    using large_template_cong[OF assms(3), of "mem s1"] by blast+
  have apart: "template_tables (mem s1) \<inter> set (a # b # c # ps) = {}" unfolding tpl(2) using assms(2,4) by auto
  obtain s2 where s2:
      "paging_clone_kernel s1 = (a, s2)" "free_frames s2 ps" "space_ok (mem s2) a ps" "a \<noteq> 0"
      "\<And>va. va < 0x40000000 \<Longrightarrow> mmu_walk (mem s2) a va = mmu_walk (mem s1) kernel_pml4_template va"
      "\<And>x. page_of x \<notin> {a, b, c} \<Longrightarrow> mem s2 x = mem s1 x" "\<And>q. q \<notin> set (a # b # c # ps) \<Longrightarrow> outside (mem s2) a ps q"
      "\<And>va. va < 0x1000000000000 \<Longrightarrow> user_way (mem s2) a va = (va < 0x40000000)" "\<And>va. \<not> mmu_user (mem s2) a va"
    by (rule clone_gives_space[OF s1(2) tpl(1) apart]) (rule that, assumption+)
  have "mem s2 x = mem s x" if "page_of x \<notin> set fs" for x
    using that s2(6)[of x] s1(6) assms(2) by simp
  moreover have "outside (mem s2) a ps q" if "q \<notin> set fs" for q using s2(7) that assms(2) by simp
  ultimately show thesis
    by (intro that[OF s1(1,3,4) s2(1,4,2,3) s2(7)[OF s1(5)]]) (use s2(5,8,9) tpl(3) in simp_all)
qed

text \<open>The image in the new space, as it is after \<^verbatim>\<open>flat_load\<close> and still is when memory outside it changes.\<close>

lemma loaded_bytes:
  assumes "page_aligned addr" "unat addr + 0x100000 \<le> 2 ^ 47" "start + n \<le> 0x100000"
    and "\<And>i. start \<le> i \<Longrightarrow> i < start + n \<Longrightarrow> program_page addr (i div 4096) \<in> dom f"
    and "\<And>va. va < 0x1000000000000 \<Longrightarrow> page_of va \<in> dom f \<Longrightarrow> mmu_walk (mem t) root va = Some (frame_byte f va)"
    and "length bs = n" "\<And>i. i < n \<Longrightarrow> mem t (frame_byte f (addr + of_nat (start + i))) = bs ! i"
  shows "space_bytes root t n (addr + of_nat start) = Inr bs"
proof -
  have "unat (addr + of_nat start) + n \<le> 2 ^ 47"
    using assms(2,3) by (simp add: unat_word_ariths unat_of_nat take_bit_nat_eq_self_iff)
  moreover have "mmu_walk (mem t) root (addr + of_nat start + of_nat i) = Some (frame_byte f (addr + of_nat (start + i)))" if "i < n" for i
  proof -
    have "start + i < 0x100000" using that assms(3) by simp
    note pa = program_address[OF assms(1,2) this]
    show ?thesis using assms(5)[OF pa(4)] assms(4)[of "start + i"] that pa(2) by (simp add: add.assoc)
  qed
  ultimately show ?thesis using assms(6,7) by (simp add: space_bytes_iff)
qed

lemma flat_install_memory:
  assumes "flat_install k w root addr pages s = (r, t)" "page_aligned k" "page_of a \<noteq> k"
  shows "mem t a = mem s a"
proof -
  let ?ws = "initial_frame (addr + 0x100000) addr"
  have len: "length ?ws = 22" by (simp add: initial_frame_def)
  have "k + FRAME_SIZE = slot k (of_nat (length ?ws))" unfolding len by (simp add: slot_def)
  then have "snd (push_words ?ws (k + FRAME_SIZE) (mem s)) a = mem s a"
    using push_words_other[OF assms(2) _ assms(3), of ?ws "mem s"] len by simp
  then show ?thesis
    using assms(1) by (auto simp: flat_install_def install_task_def upd_task_def kputs_def kputhex_def Let_def split: prod.splits if_splits)
qed

lemma flat_install_task:
  assumes "flat_install k w root addr pages s = (r, t)" "num_tasks s < length (tasks s)"
  shows "pml4_phys (task_at t (num_tasks s)) = root" "t_rsp (task_at t (num_tasks s)) = k"
    "isr_leave k c (mem t) = start_context addr (addr + 0x100000)"
  using assms initial_frame_starts[of k c "addr + 0x100000" addr "mem s"]
  by (auto simp: flat_install_def install_task_def upd_task_def kputs_def kputhex_def ipc_init_task_def Let_def split: prod.splits if_splits)

text \<open>What the program sees once it is loaded and its task installed.\<close>

lemma installed_program:
  fixes s :: kstate
  assumes "free_frames s ps" "space_ok (mem s) root ps" "page_aligned addr" "unat addr + 0x100000 \<le> 2 ^ 47" "unat sz \<le> 0x10000"
    and "vs = program_pages addr sz" "4 * length vs \<le> length ps"
    and "\<forall>v \<in> set vs. \<forall>p \<in> set (take (4 * length vs) ps). \<not> (v AND 0x1FFFFF = 0 \<and> p AND 0x1FFFFF = 0)"
    and "unat binary + unat sz \<le> 2 ^ 47"
    and "\<And>i. i < unat sz \<Longrightarrow> mmu_walk (mem s) root (binary + of_nat i) = Some (S i) \<and> outside (mem s) root ps (page_of (S i))
          \<and> page_of (binary + of_nat i) \<notin> set vs"
    and "page_aligned k" "outside (mem s) root ps k"
  obtains t where "flat_load binary sz addr root s = Inr (True, t)"
    "\<And>r u. flat_install k w root addr pages t = (r, u) \<Longrightarrow>
       space_bytes root u (unat sz) addr = Inr (map (\<lambda>i. mem s (S i)) [0..<unat sz])
       \<and> space_bytes root u 0x4000 (addr + 0xFC000) = Inr (replicate 0x4000 0)
       \<and> (\<forall>va < 0x1000000000000. mmu_user (mem u) root va =
            (if page_of va \<in> set vs then user_way (mem s) root va else mmu_user (mem s) root va))"
proof -
  obtain f qs t where t: "flat_load binary sz addr root s = Inr (True, t)" "dom f = set vs" "ran f \<subseteq> set ps" "space_ok (mem t) root qs"
      "\<And>q. q \<in> ran f \<or> outside (mem s) root ps q \<Longrightarrow> outside (mem t) root qs q"
      "\<And>va. va < 0x1000000000000 \<Longrightarrow> page_of va \<in> dom f \<Longrightarrow> mmu_walk (mem t) root va = Some (frame_byte f va)"
      "\<And>i. i < unat sz \<Longrightarrow> mem t (frame_byte f (addr + of_nat i)) = mem s (S i)"
      "\<And>va. page_of va \<in> dom f \<Longrightarrow> (\<nexists>i. i < unat sz \<and> va = addr + of_nat i) \<Longrightarrow> mem t (frame_byte f va) = 0"
      "\<And>va. va < 0x1000000000000 \<Longrightarrow> mmu_user (mem t) root va = (if page_of va \<in> dom f then user_way (mem s) root va else mmu_user (mem s) root va)"
    by (rule flat_load_effect[OF assms(1-10)]) (assumption, rule that, assumption+)
  have al: "\<forall>p \<in> ran f. page_aligned p" using t(3) pmm.frames_aligned[OF assms(1)] by blast
  note code = code_page_in[of _ sz addr, folded assms(6) t(2)]
  have stack: "program_page addr (i div 4096) \<in> dom f" if "0xFC000 \<le> i" "i < 0x100000" for i
    using stack_page_in[OF that] t(2) assms(6) by simp
  show thesis
  proof (rule that[OF t(1)])
    fix r u
    assume u: "flat_install k w root addr pages t = (r, u)"
    note mem_u = flat_install_memory[OF u assms(11)]
    have "outside (mem t) root qs (page_of a)" if "mem u a \<noteq> mem t a" for a
      using that mem_u[of a] t(5)[of k] assms(12) by blast
    then have views: "view (mem u) root va = view (mem t) root va" for va
      using outside_cong(2)[OF t(4), of "mem u"] by blast
    then have walk: "mmu_walk (mem u) root va = Some (frame_byte f va)" if "va < 0x1000000000000" "page_of va \<in> dom f" for va
      using t(6)[OF that] by (simp add: view_def)
    have user: "mmu_user (mem u) root va = (if page_of va \<in> set vs then user_way (mem s) root va else mmu_user (mem s) root va)"
      if "va < 0x1000000000000" for va using t(9)[OF that] views[of va] t(2) by (simp add: view_def)
    have same: "mem u (frame_byte f va) = mem t (frame_byte f va)" if "page_of va \<in> dom f" for va
      by (rule mem_u) (use frame_byte_page(3)[OF that al] t(3) assms(12) in \<open>auto simp: outside_def\<close>)
    have pg: "page_of (addr + of_nat i) \<in> dom f" if "program_page addr (i div 4096) \<in> dom f" "i < 0x100000" for i
      using program_address(2)[OF assms(3,4) that(2)] that(1) by simp
    have "space_bytes root u (unat sz) (addr + of_nat 0) = Inr (map (\<lambda>i. mem s (S i)) [0..<unat sz])"
      by (rule loaded_bytes[OF assms(3,4) _ _ walk]) (use assms(5) code same[OF pg] t(7) in simp_all)
    moreover have "mem u (frame_byte f (addr + of_nat (0xFC000 + i))) = replicate 0x4000 0 ! i" if "i < 0x4000" for i
    proof -
      have i: "0xFC000 + i < 0x100000" using that by simp
      note p = pg[OF stack[OF _ i] i]
      have "addr + of_nat (0xFC000 + i) \<noteq> addr + of_nat j" if "j < unat sz" for j
      proof
        assume eq: "addr + of_nat (0xFC000 + i) = addr + of_nat j"
        have j: "j < 0x100000" using that assms(5) by simp
        have "0xFC000 + i = j"
          using arg_cong[OF eq, of unat] unfolding program_address(1)[OF assms(3,4) i] program_address(1)[OF assms(3,4) j] by simp
        then show False using that assms(5) by simp
      qed
      then show ?thesis using same[OF p] t(8)[OF p] that by auto
    qed
    then have "space_bytes root u 0x4000 (addr + of_nat 0xFC000) = Inr (replicate 0x4000 0)"
      by (intro loaded_bytes[OF assms(3,4) _ _ walk]) (use stack in simp_all)
    ultimately show "space_bytes root u (unat sz) addr = Inr (map (\<lambda>i. mem s (S i)) [0..<unat sz])
       \<and> space_bytes root u 0x4000 (addr + 0xFC000) = Inr (replicate 0x4000 0)
       \<and> (\<forall>va < 0x1000000000000. mmu_user (mem u) root va =
            (if page_of va \<in> set vs then user_way (mem s) root va else mmu_user (mem s) root va))"
      using user by simp
  qed
qed

lemma flat_installed_started:
  fixes s :: kstate
  assumes "flat_load binary sz addr root s = Inr (True, u)" "flat_install k w root addr pages u = (r, t)"
    and "kernel_inv s" "num_tasks s < 64"
  shows "started w s r t" "pml4_phys (task_at t (num_tasks s)) = root" "t_rsp (task_at t (num_tasks s)) = k"
    "isr_leave k c (mem t) = start_context addr (addr + 0x100000)"
proof -
  note f = flat_load_keeps[OF assms(1) kernel_inv_bounds(8)[OF assms(3)]]
  note k = kernel_fields_cong[OF f(1)]
  have u: "kernel_inv u" "num_tasks u < 64" "num_tasks u = num_tasks s"
    using kernel_inv_cong[OF f assms(3)] k(3) assms(4) by simp_all
  show "started w s r t"
    using started_after[OF _ flat_install_outcome[OF assms(2) u(1,2)]] k by (simp add: table_kept_def)
  have "num_tasks u < length (tasks u)" using kernel_inv_bounds(1)[OF u(1)] u(2) by simp
  from flat_install_task[OF assms(2) this]
  show "pml4_phys (task_at t (num_tasks s)) = root" "t_rsp (task_at t (num_tasks s)) = k"
    "isr_leave k c (mem t) = start_context addr (addr + 0x100000)"
    using u(3) by simp_all
qed

lemma task_create_flat:
  assumes "sz < 4 \<or> (\<exists>v. vread32 binary s = Inr v \<and> v \<noteq> ELF_MAGIC)" "num_tasks s < 64" "unat sz \<le> 0x10000" "want_ok w s"
    and "pmm_alloc_page s = (k, s1)" "k \<noteq> 0" "paging_clone_kernel s1 = (root, s2)" "root \<noteq> 0"
    and "flat_load binary sz addr root s2 = Inr (True, u)"
  shows "task_create binary sz addr w s = Inr (flat_install k w root addr ((sz + 4095) div 4096) u)"
proof -
  have "unat ((sz + 4095) div 4096) \<le> 16" using assms(3) by (simp add: unat_div unat_word_ariths)
  then have "\<not> (sz + 4095) div 4096 > 16" by (simp add: word_less_nat_alt)
  moreover have "\<not> (w > 0 \<and> find_live w s1 \<noteq> None)"
    using want_ok_reuse[of w s1] want_ok_keeps[OF keeps_kernel_alloc[OF assms(5)]] assms(4) by (auto simp: find_reuse_def split: if_splits)
  moreover have "(if sz \<ge> 4 then bind_res (vread32 binary s) (\<lambda>w. Inr (w = ELF_MAGIC)) else Inr False) = Inr False"
    using assms(1) by auto
  ultimately show ?thesis
    using assms(2,5-9) by (auto simp: task_create_def)
qed

text \<open>
  C4: creating a process from a flat binary gives the program what it was linked for. With enough free frames, \<^verbatim>\<open>task_create\<close> adds a
  ready task whose address space shows the bytes of the binary at the load address and four zeroed pages of stack
  below the stack pointer, and the frame built for it starts it at the load address with that stack pointer. In user mode
  the program can use exactly these pages, as far as they lie in the lowest gigabyte, and nothing else of the memory. The
  binary lies in the lowest gigabyte, in memory that is not free and whose addresses the
  program's pages do not hide; the boot tables map it with 2 MiB pages.
\<close>

theorem task_create_loads_program:
  assumes "kernel_inv s" "num_tasks s < 64" "want_ok w s"
    and "sz < 4 \<or> (\<exists>v. vread32 binary s = Inr v \<and> v \<noteq> ELF_MAGIC)" "unat sz \<le> 0x10000"
    and "page_aligned addr" "unat addr + 0x100000 \<le> 2 ^ 47" "vs = program_pages addr sz"
    and "free_frames s fs" "fs = k # a # b # c # ps" "4 * length vs \<le> length ps"
    and "\<forall>v \<in> set vs. \<forall>p \<in> set (take (4 * length vs) ps). \<not> (v AND 0x1FFFFF = 0 \<and> p AND 0x1FFFFF = 0)"
    and "large_template (mem s)" "template_tables (mem s) \<inter> set fs = {}"
    and "space_bytes kernel_pml4_template s (unat sz) binary = Inr bytes" "unat binary + unat sz \<le> 0x40000000"
    and "\<forall>i < unat sz. page_of (binary + of_nat i) \<notin> set vs
          \<and> page_of (the (mmu_walk (mem s) kernel_pml4_template (binary + of_nat i))) \<notin> set fs"
  shows "\<exists>r t. task_create binary sz addr w s = Inr (r, t) \<and> started w s r t
    \<and> space_bytes (pml4_phys (task_at t (num_tasks s))) t (unat sz) addr = Inr bytes
    \<and> space_bytes (pml4_phys (task_at t (num_tasks s))) t 0x4000 (addr + 0xFC000) = Inr (replicate 0x4000 0)
    \<and> (\<forall>c. isr_leave (t_rsp (task_at t (num_tasks s))) c (mem t) = start_context addr (addr + 0x100000))
    \<and> (\<forall>va < 0x1000000000000. mmu_user (mem t) (pml4_phys (task_at t (num_tasks s))) va \<longleftrightarrow> page_of va \<in> set vs \<and> va < 0x40000000)"
proof -
  let ?S = "\<lambda>i. the (mmu_walk (mem s) kernel_pml4_template (binary + of_nat i))"
  have sz47: "unat binary + unat sz \<le> 2 ^ 47" using assms(16) by simp
  have walk: "mmu_walk (mem s) kernel_pml4_template (binary + of_nat i) = Some (?S i)" "mem s (?S i) = bytes ! i" if "i < unat sz" for i
    using assms(15) that unfolding space_bytes_iff[OF sz47] by force+
  have bytes: "bytes = map (\<lambda>i. mem s (?S i)) [0..<unat sz]"
    using assms(15) walk(2) unfolding space_bytes_iff[OF sz47] by (intro nth_equalityI) auto
  obtain s1 s2 where n: "pmm_alloc_page s = (k, s1)" "k \<noteq> 0" "page_aligned k" "paging_clone_kernel s1 = (a, s2)" "a \<noteq> 0"
      "free_frames s2 ps" "space_ok (mem s2) a ps" "outside (mem s2) a ps k"
      "\<And>va. va < 0x40000000 \<Longrightarrow> mmu_walk (mem s2) a va = mmu_walk (mem s) kernel_pml4_template va"
      "\<And>x. page_of x \<notin> set fs \<Longrightarrow> mem s2 x = mem s x" "\<And>q. q \<notin> set fs \<Longrightarrow> outside (mem s2) a ps q"
      "\<And>va. va < 0x1000000000000 \<Longrightarrow> user_way (mem s2) a va = (va < 0x40000000)" "\<And>va. \<not> mmu_user (mem s2) a va"
    by (rule new_space[OF assms(9,10,13,14)]) (rule that, assumption+)
  have src: "mmu_walk (mem s2) a (binary + of_nat i) = Some (?S i) \<and> outside (mem s2) a ps (page_of (?S i))
      \<and> page_of (binary + of_nat i) \<notin> set vs" if "i < unat sz" for i
  proof -
    have "binary + of_nat i < 0x40000000"
      using that assms(5,16) by (simp add: word_less_nat_alt unat_word_ariths unat_of_nat take_bit_nat_eq_self_iff)
    then show ?thesis using n(9,11) walk(1)[OF that] assms(17) that by auto
  qed
  have k2: "keeps_kernel s s2" using keeps_kernel_trans[OF keeps_kernel_alloc[OF n(1)] keeps_kernel_clone[OF n(4)]] .
  let ?pages = "(sz + 4095) div 4096"
  obtain u where u: "flat_load binary sz addr a s2 = Inr (True, u)"
      "\<And>r t. flat_install k w a addr ?pages u = (r, t) \<Longrightarrow>
         space_bytes a t (unat sz) addr = Inr (map (\<lambda>i. mem s2 (?S i)) [0..<unat sz])
         \<and> space_bytes a t 0x4000 (addr + 0xFC000) = Inr (replicate 0x4000 0)
         \<and> (\<forall>va < 0x1000000000000. mmu_user (mem t) a va =
              (if page_of va \<in> set vs then user_way (mem s2) a va else mmu_user (mem s2) a va))"
    using installed_program[OF n(6,7) assms(6,7,5,8,11,12) sz47 src n(3,8), where w = w and pages = ?pages] by blast
  obtain r t where t: "flat_install k w a addr ?pages u = (r, t)" by fastforce
  have "kernel_inv s2" "num_tasks s2 < 64" "num_tasks s2 = num_tasks s"
    using kernel_inv_keeps[OF k2 assms(1)] keeps_kernel_fields(3)[OF k2] assms(2) by simp_all
  note st = flat_installed_started[OF u(1) t this(1,2), unfolded this(3)]
  have "map (\<lambda>i. mem s2 (?S i)) [0..<unat sz] = bytes" unfolding bytes using n(10) assms(17) by simp
  then have space: "space_bytes a t (unat sz) addr = Inr bytes" "space_bytes a t 0x4000 (addr + 0xFC000) = Inr (replicate 0x4000 0)"
    using u(2)[OF t] by metis+
  have user: "\<forall>va < 0x1000000000000. mmu_user (mem t) a va \<longleftrightarrow> page_of va \<in> set vs \<and> va < 0x40000000"
    using u(2)[OF t] n(12,13) by meson
  have "task_create binary sz addr w s = Inr (r, t)" using task_create_flat[OF assms(4,2,5,3) n(1,2,4,5) u(1)] t by simp
  then show ?thesis
    using space user started_after[OF table_kept_keeps[OF k2] st(1)] st(4)
    by (intro exI[of _ r] exI[of _ t]) (unfold st(2,3), blast)
qed

section \<open>An example\<close>

lemma free_all:
  assumes "free_frames s ps" "distinct (qs @ ps)" "\<forall>q \<in> set qs. page_aligned q \<and> q \<noteq> 0"
  shows "free_frames (fold pmm_free_page qs s) (rev qs @ ps)
    \<and> (\<forall>a. page_of a \<notin> set qs \<longrightarrow> mem (fold pmm_free_page qs s) a = mem s a)"
  using assms
proof (induction qs arbitrary: s ps)
  case (Cons q qs)
  have "free_frames (pmm_free_page q s) (q # ps)" using Cons.prems by (intro pmm.free_frames) auto
  from Cons.IH[OF this] show ?case using Cons.prems pmm.free_contents[of q _ s] by auto
qed simp

text \<open>The running kernel of the other examples with 24 free frames, and a program of one zero byte at \<open>0x5000\<close>.\<close>

definition more_frames :: "u64 list" where
  "more_frames = map (\<lambda>i. 0x601000 + of_nat i * 4096) [0..<21]"

definition loader_demo :: kstate where
  "loader_demo = fold pmm_free_page more_frames kernel_demo"

abbreviation demo_frames :: "u64 list" where
  "demo_frames \<equiv> rev more_frames @ [0x200000, 0x201000, 0x203000]"

lemma more_frames_list:
  "more_frames = [0x601000, 0x602000, 0x603000, 0x604000, 0x605000, 0x606000, 0x607000, 0x608000, 0x609000, 0x60A000,
     0x60B000, 0x60C000, 0x60D000, 0x60E000, 0x60F000, 0x610000, 0x611000, 0x612000, 0x613000, 0x614000, 0x615000]"
  by (simp add: more_frames_def upt_rec)

lemma loader_demo_frames:
  "free_frames loader_demo demo_frames"
  "page_of a \<notin> set more_frames \<Longrightarrow> mem loader_demo a = setup_paging (mem pmm_demo) a"
proof -
  have "free_frames kernel_demo [0x200000, 0x201000, 0x203000]" using boot_demo_frames by (simp add: free_frames_def)
  note f = free_all[OF this, of more_frames]
  moreover have "\<forall>q \<in> set more_frames. page_aligned q \<and> q \<noteq> 0" "distinct (more_frames @ [0x200000, 0x201000, 0x203000])"
    by (simp_all add: more_frames_list page_aligned_def)
  ultimately show "free_frames loader_demo demo_frames"
    "page_of a \<notin> set more_frames \<Longrightarrow> mem loader_demo a = setup_paging (mem pmm_demo) a"
    by (simp_all add: loader_demo_def boot_demo_def)
qed

lemma loader_demo_template:
  "large_template (mem loader_demo)" "template_tables (mem loader_demo) = {0x1000, 0x2000, 0x3000}"
  "mmu_walk (mem loader_demo) 0x1000 0x5000 = Some 0x5000" "mem loader_demo 0x5000 = 0"
proof -
  have t: "large_template (setup_paging (mem pmm_demo))" "template_tables (setup_paging (mem pmm_demo)) = {0x1000, 0x2000, 0x3000}"
  proof -
    have "(push_bit 21 j OR 0x83) AND 0x80 \<noteq> 0" for j :: u64 by (rule and_bit_nonzero) (simp add: word_bits)
    then show "large_template (setup_paging (mem pmm_demo))" by (simp add: large_template_def boot_tables setup_paging_entries Let_def)
    show "template_tables (setup_paging (mem pmm_demo)) = {0x1000, 0x2000, 0x3000}" by (simp add: boot_tables)
  qed
  have "mem loader_demo a = setup_paging (mem pmm_demo) a" if "page_of a \<in> template_tables (setup_paging (mem pmm_demo))" for a
    using loader_demo_frames(2)[of a] that unfolding t(2) by (auto simp: more_frames_list)
  then have c: "large_template (mem loader_demo)" "template_tables (mem loader_demo) = template_tables (setup_paging (mem pmm_demo))"
      "\<And>va. va < 0x40000000 \<Longrightarrow> mmu_walk (mem loader_demo) 0x1000 va = mmu_walk (setup_paging (mem pmm_demo)) 0x1000 va"
    using large_template_cong[OF t(1), of "mem loader_demo"] by blast+
  show "large_template (mem loader_demo)" "template_tables (mem loader_demo) = {0x1000, 0x2000, 0x3000}"
    using c(1,2) t(2) by blast+
  show "mmu_walk (mem loader_demo) 0x1000 0x5000 = Some 0x5000"
    using c(3)[of "0x5000"] boot_identity[of "0x5000"] by simp
  have p: "page_of 0x5000 = 0x5000" by (simp add: page_of_def del: table_address)
  have "mem pmm_demo 0x5000 = 0" by (simp add: pmm_demo_def write_word_other_page page_aligned_def p)
  then show "mem loader_demo 0x5000 = 0"
    using loader_demo_frames(2)[of "0x5000"] setup_paging_other[of "0x5000" "mem pmm_demo"] p by (simp add: more_frames_list)
qed

theorem task_create_loads_program_witness:
  "\<exists>r t. task_create 0x5000 1 0x401000 0 loader_demo = Inr (r, t) \<and> started 0 loader_demo r t
    \<and> space_bytes (pml4_phys (task_at t 3)) t 1 0x401000 = Inr [0]
    \<and> mmu_user (mem t) (pml4_phys (task_at t 3)) 0x401000 \<and> \<not> mmu_user (mem t) (pml4_phys (task_at t 3)) 0x5000"
proof -
  have k: "keeps_kernel kernel_demo loader_demo" by (simp add: loader_demo_def)
  have inv: "kernel_inv loader_demo" "num_tasks loader_demo = 3"
    using kernel_inv_keeps[OF k kernel_demo_inv] keeps_kernel_fields(3)[OF k] by simp_all
  have vs: "program_pages 0x401000 1 = [0x401000, 0x500000, 0x4FF000, 0x4FE000, 0x4FD000]" by (simp add: program_pages_def)
  have p: "page_of 0x5000 = 0x5000" "page_of 0x401000 = 0x401000" by (simp_all add: page_of_def del: table_address)
  have bytes: "space_bytes kernel_pml4_template loader_demo (unat (1 :: u64)) 0x5000 = Inr [0]"
    using loader_demo_template(3,4) by (subst space_bytes_iff) simp_all
  have fs: "demo_frames = 0x615000 # 0x614000 # 0x613000 # 0x612000 # drop 4 demo_frames" by (simp add: more_frames_list)
  have set: "0x401000 \<in> set [0x401000, 0x500000, 0x4FF000, 0x4FE000, 0x4FD000 :: u64]"
    "0x5000 \<notin> set [0x401000, 0x500000, 0x4FF000, 0x4FE000, 0x4FD000 :: u64]" by simp_all
  have "\<exists>r t. task_create 0x5000 1 0x401000 0 loader_demo = Inr (r, t) \<and> started 0 loader_demo r t
    \<and> space_bytes (pml4_phys (task_at t (num_tasks loader_demo))) t (unat (1 :: u64)) 0x401000 = Inr [0]
    \<and> space_bytes (pml4_phys (task_at t (num_tasks loader_demo))) t 0x4000 (0x401000 + 0xFC000) = Inr (replicate 0x4000 0)
    \<and> (\<forall>c. isr_leave (t_rsp (task_at t (num_tasks loader_demo))) c (mem t) = start_context 0x401000 (0x401000 + 0x100000))
    \<and> (\<forall>va < 0x1000000000000. mmu_user (mem t) (pml4_phys (task_at t (num_tasks loader_demo))) va \<longleftrightarrow>
          page_of va \<in> set [0x401000, 0x500000, 0x4FF000, 0x4FE000, 0x4FD000] \<and> va < 0x40000000)"
    by (rule task_create_loads_program[OF inv(1) _ want_ok_0 _ _ _ _ vs[symmetric] loader_demo_frames(1) fs _ _ loader_demo_template(1) _ bytes])
      (use inv(2) loader_demo_template p(1) in \<open>simp_all add: more_frames_list page_aligned_def\<close>)
  then obtain r t where t: "task_create 0x5000 1 0x401000 0 loader_demo = Inr (r, t)" "started 0 loader_demo r t"
      "space_bytes (pml4_phys (task_at t 3)) t (unat (1 :: u64)) 0x401000 = Inr [0]"
      "\<And>va. va < 0x1000000000000 \<Longrightarrow> mmu_user (mem t) (pml4_phys (task_at t 3)) va \<longleftrightarrow>
          page_of va \<in> set [0x401000, 0x500000, 0x4FF000, 0x4FE000, 0x4FD000] \<and> va < 0x40000000"
    unfolding inv(2) by blast
  then show ?thesis using t(4)[of "0x401000"] t(4)[of "0x5000"] set unfolding p by (intro exI[of _ r] exI[of _ t]) simp
qed

end
