(* ===== verification/File_Commands.thy ===== *)
theory File_Commands
  imports User_Shell Fat32_Files
begin

text \<open>
  The command server and the FAT32 server together: what a user who types \<^verbatim>\<open>writefile\<close> and
  \<^verbatim>\<open>readfile\<close> gets. The two programs run side by side and share nothing but their messages, so a
  command is a run of the command server on the answers of the FAT32 server, which is a run of
  that server on the requests of the first.
\<close>

section \<open>Lines in the message structure\<close>

text \<open>The shell sends its line without a zero byte; the structure the command server receives it in has one behind it.\<close>

definition terminated :: "u8 list \<Rightarrow> request \<Rightarrow> bool" where
  "terminated line v \<longleftrightarrow> length (req_data v) = 64 \<and> length line < 64 \<and> req_data v ! length line = 0"

lemma terminated_bytes:
  assumes "terminated line v"
  shows "\<exists>rest. req_data (recv_into (a, ty, line) v) = line @ 0 # rest \<and> length line + 1 + length rest = 64"
proof -
  have "drop (length line) (req_data v) = 0 # drop (Suc (length line)) (req_data v)"
    using assms by (simp add: terminated_def flip: Cons_nth_drop_Suc)
  then show ?thesis using assms by (simp add: recv_into_def terminated_def)
qed

lemma terminated_msg_bytes:
  assumes "terminated line v"
  shows "\<exists>rest. msg_bytes (recv_into (a, ty, line) v) = line @ 0 # rest \<and> length line + 1 + length rest = 72"
  using terminated_bytes[OF assms, of a ty] by (auto simp: msg_bytes_def)

lemma skip_no_space:
  assumes "bs ! n \<noteq> 0x20" "n < length bs"
  shows "skip_spaces n bs = Inr n"
proof -
  have "drop n bs = bs ! n # drop (Suc n) bs" using assms(2) by (simp add: Cons_nth_drop_Suc)
  then show ?thesis using assms by (simp add: skip_spaces_def Let_def)
qed

lemma takeWhile_stops:
  assumes "\<forall>x \<in> set xs. P x" "\<not> P y"
  shows "takeWhile P (xs @ y # ys) = xs"
  using assms by (subst takeWhile_append2) auto

lemma send_str_short: "str \<noteq> [] \<Longrightarrow> length str \<le> 63 \<Longrightarrow> send_str p str s = u_send p 2 str s"
  by (subst send_str.simps) (simp add: send_str.simps)

section \<open>The commands\<close>

abbreviation writefile_line :: "u8 list \<Rightarrow> u8 list \<Rightarrow> u8 list" where
  "writefile_line path data \<equiv> bytes_of ''writefile '' @ path @ 0x20 # data"

abbreviation readfile_line :: "u8 list \<Rightarrow> u8 list" where
  "readfile_line path \<equiv> bytes_of ''readfile '' @ path"

lemma writefile_ok:
  assumes "terminated (writefile_line path data) v" "path \<noteq> []" "0 \<notin> set path" "0x20 \<notin> set path" "0 \<notin> set data"
    and "length path \<le> 50"
  shows "command_message u (recv_into (p, 1, writefile_line path data) v) [(7, 200, [])] s =
    Some (Inr (False, [], u_send p 4 [] (u_send p 2 (bytes_of ''OK'' @ crlf_bytes) (u_send 7 2 (path @ 0 # data) s))))"
proof -
  let ?line = "writefile_line path data" and ?msg = "recv_into (p, 1, writefile_line path data) v"
  obtain rest where r: "msg_bytes ?msg = ?line @ 0 # rest" using terminated_msg_bytes[OF assms(1)] by blast
  let ?bs = "?line @ 0 # rest"
  have "hd path \<noteq> 0x20" using assms(2,4) by (metis hd_in_set)
  then have skip: "skip_spaces 10 ?bs = Inr 10"
    using assms(2) by (intro skip_no_space) (simp_all add: nth_append hd_conv_nth)
  have d: "drop 10 ?bs = path @ 0x20 # data @ 0 # rest" by simp
  have "drop (Suc (10 + length path)) ?bs = drop (Suc (length path)) (drop 10 ?bs)" by (simp only: drop_drop) (simp add: add.commute)
  then have d': "drop (Suc (10 + length path)) ?bs = data @ 0 # rest" unfolding d by simp
  have path: "takeWhile (\<lambda>b. b \<noteq> 0 \<and> b \<noteq> 0x20) (path @ 0x20 # data @ 0 # rest) = path"
    using assms(3,4) by (intro takeWhile_stops) auto
  have data: "takeWhile (\<lambda>b. b \<noteq> 0) (data @ 0 # rest) = data" using assms(5) by (intro takeWhile_stops) auto
  have sep: "?bs ! (10 + length path) = 0x20" "10 + length path < length ?bs" by (simp_all add: nth_append)
  have all: "(take 50 path @ [0]) @ take (64 - length (take 50 path @ [0])) data = path @ 0 # data"
    using assms(1,6) by (auto simp: terminated_def)
  have "cmd_write u ?msg [(7, 200, [])] s =
      Some (Inr (False, [], u_send p 4 [] (send_str p (bytes_of ''OK'' @ crlf_bytes) (u_send 7 2 (path @ 0 # data) s))))"
    unfolding cmd_write_def Let_def r skip try_res_simps d path d' data all using sep assms(2) by simp
  moreover have "command_message u ?msg ms s = cmd_write u ?msg ms s" for ms
    by (simp add: command_message_def recv_into_def)
  ultimately show ?thesis by (simp add: send_str_short)
qed

text \<open>The pieces of a file, from the FAT32 server's messages to the shell's.\<close>

definition file_texts :: "u8 list \<Rightarrow> u8 list list" where
  "file_texts bytes = map (drop 5) (chunk_msgs 0 bytes)"

lemma read_replies_chunks:
  "read_replies p u resp (map (\<lambda>m. (7, 100, m)) (chunk_msgs off bytes) @ [(7, 101, d)]) s =
     Some ([], s\<lparr>sent := sent s @ map (\<lambda>m. (p, 2, drop 5 m)) (chunk_msgs off bytes)\<rparr>)"
proof (induction off bytes arbitrary: resp s rule: chunk_msgs.induct)
  case (1 off bytes)
  show ?case
  proof (cases "bytes = []")
    case False
    let ?n = "of_nat (min 59 (length bytes)) :: u8"
    let ?m = "le_bytes 4 (of_nat off :: u32) @ [?n] @ take 59 bytes"
    have c: "chunk_msgs off bytes = ?m # chunk_msgs (off + 59) (drop 59 bytes)"
      using False by (subst chunk_msgs.simps) simp
    have n: "unat ?n = min 59 (length bytes)" by (simp add: unat_of_nat take_bit_nat_eq_self_iff)
    have "req_data (recv_into (7, 100, ?m) resp) ! 4 = ?n" by (simp add: recv_into_def nth_append)
    moreover have "take (min 59 (length bytes)) (drop 5 (msg_bytes (recv_into (7, 100, ?m) resp))) = take 59 bytes"
      by (simp add: recv_into_def msg_bytes_def min_def)
    ultimately have "read_replies p u resp ((7, 100, ?m) # ms) s = read_replies p u u ms (u_send p 2 (take 59 bytes) s)" for ms
      by (simp add: Let_def n)
    then show ?thesis
      using "1.IH"[OF False, of u "u_send p 2 (take 59 bytes) s"] unfolding c by (simp add: u_send_def)
  qed (simp add: chunk_msgs.simps Let_def)
qed

lemma readfile_ok:
  assumes "terminated (readfile_line path) v" "path \<noteq> []" "hd path \<noteq> 0x20"
  shows "\<exists>rest. command_message u (recv_into (p, 1, readfile_line path) v)
        (map (\<lambda>m. (7, 100, m)) (chunk_msgs 0 bytes) @ [(7, 101, d)]) s =
      Some (Inr (False, [], s\<lparr>sent := sent s @ (7, 0, path @ 0 # rest) # map (\<lambda>d. (p, 2, d)) (file_texts bytes)
        @ [(p, 2, crlf_bytes), (p, 4, [])]\<rparr>)) \<and> length path + 1 + length rest = 63"
proof -
  let ?line = "readfile_line path" and ?msg = "recv_into (p, 1, readfile_line path) v"
  obtain rest where r: "msg_bytes ?msg = ?line @ 0 # rest" "length path + 1 + length rest = 63"
    using terminated_msg_bytes[OF assms(1)] by auto
  have "skip_spaces 9 (?line @ 0 # rest) = Inr 9"
    using assms(2,3) by (intro skip_no_space) (simp_all add: nth_append hd_conv_nth)
  moreover have "take 63 (drop 9 (?line @ 0 # rest)) = path @ 0 # rest" "length (?line @ 0 # rest) = 72"
    using r(2) by simp_all
  ultimately have "send_path 0 9 ?msg s = Inr (u_send 7 0 (path @ 0 # rest) s)"
    unfolding send_path_def r(1) by simp
  moreover have "command_message u ?msg ms s = cmd_read u ?msg ms s" for ms
    by (simp add: command_message_def recv_into_def)
  moreover have "take 64 (path @ 0 # rest) = path @ 0 # rest" using r(2) by simp
  ultimately show ?thesis
    using read_replies_chunks[of p u u 0 bytes d "u_send 7 0 (path @ 0 # rest) s"] r(2)
    by (intro exI[of _ rest]) (simp add: cmd_read_def u_send_def file_texts_def o_def)
qed

section \<open>The requests at the FAT32 server\<close>

lemma received_write:
  assumes "0 \<notin> set path"
  shows "asks_write (recv_into (a, 2, path @ 0 # data) buf) path data"
  using req_string_terminated[OF assms, of a 2] by (simp add: asks_write_def recv_into_def get_bytes_def)

lemma received_read:
  assumes "0 \<notin> set path"
  shows "asks_read (recv_into (a, 0, path @ 0 # rest) buf) path"
  using req_string_terminated[OF assms, of a 0] by (simp add: asks_read_def recv_into_def)

text \<open>
  One command: the command server (process 3) handles \<open>msg\<close> and sends \<open>out\<close>; the FAT32 server (process 7)
  receives what of it is addressed to it, and the command server receives the FAT32 server's answers.
\<close>

definition exchange ::
  "(u8 list \<Rightarrow> int \<times> u64) \<Rightarrow> 'd disk_ops \<Rightarrow> request \<Rightarrow> request \<Rightarrow> request \<Rightarrow> 'a uproc_scheme \<Rightarrow> 'd fs \<Rightarrow> sent_msg list
    \<Rightarrow> 'a uproc_scheme \<Rightarrow> 'd fs \<Rightarrow> bool" where
  "exchange spawn ops u msg buf s fs out t fs' \<longleftrightarrow>
     (\<exists>ans. command_message u msg (arriving 7 3 ans) s = Some (Inr (False, [], t)) \<and> sent t = sent s @ out
        \<and> fat32_loop spawn ops (arriving 3 7 out) buf fs = Some (Inr fs') \<and> outbox fs' = outbox fs @ ans)"

lemma arriving_map: "arriving a p (map (\<lambda>m. (q, ty, f m)) ms) = (if q = p then map (\<lambda>m. (a, ty, f m)) ms else [])"
  by (induction ms) (auto split: if_splits)


text \<open>The file \<^verbatim>\<open>a.t\<close> with the text \<^verbatim>\<open>hi\<close>, on the small file system.\<close>

definition empty_msg :: request where
  "empty_msg = \<lparr>req_sender = 0, req_type = 0, req_data = replicate 64 0, req_length = 0\<rparr>"


section \<open>The line before\<close>

text \<open>
  Without that zero byte the path goes on with what the structure held: a \<^verbatim>\<open>readfile\<close> line
  received behind the \<^verbatim>\<open>writefile\<close> line of the same file asks for the path followed by its last character, a space
  and the data.
\<close>

lemma readfile_after_writefile:
  assumes "terminated (writefile_line path data) v" "path \<noteq> []" "hd path \<noteq> 0x20"
  shows "\<exists>rest. send_path 0 9 (recv_into (p, 1, readfile_line path) (recv_into (p, 1, writefile_line path data) v)) s =
    Inr (u_send 7 0 (path @ last path # 0x20 # data @ 0 # rest) s)"
proof -
  let ?v = "recv_into (p, 1, writefile_line path data) v"
  let ?msg = "recv_into (p, 1, readfile_line path) ?v"
  obtain rest where r: "req_data ?v = writefile_line path data @ 0 # rest"
      "length (writefile_line path data) + 1 + length rest = 64"
    using terminated_bytes[OF assms(1)] by blast
  obtain xs x where "path = xs @ [x]" using assms(2) by (cases path rule: rev_cases) simp_all
  then have "drop (length (readfile_line path)) (req_data ?v) = last path # 0x20 # data @ 0 # rest"
    unfolding r(1) by simp
  then have b: "msg_bytes ?msg = readfile_line path @ last path # 0x20 # data @ 0 # rest @ le_bytes 8 (of_nat (length (readfile_line path)) :: u64)"
    by (simp add: msg_bytes_def recv_into_def)
  have len: "length (msg_bytes ?msg) = 72" using r(2) unfolding b by simp
  have "skip_spaces 9 (msg_bytes ?msg) = Inr 9"
    using assms(2,3) len unfolding b by (intro skip_no_space) (simp_all add: nth_append hd_conv_nth)
  moreover have "take 63 (drop 9 (msg_bytes ?msg)) =
      path @ last path # 0x20 # data @ 0 # rest @ le_bytes 8 (of_nat (length (readfile_line path)) :: u64)"
    using len unfolding b by simp
  ultimately have "send_path 0 9 ?msg s =
      Inr (u_send 7 0 (path @ last path # 0x20 # data @ 0 # rest @ le_bytes 8 (of_nat (length (readfile_line path)) :: u64)) s)"
    unfolding send_path_def len by simp
  then show ?thesis by blast
qed

theorem stale_line_in_path:
  assumes "terminated (writefile_line path data) v" "path \<noteq> []" "0 \<notin> set path" "hd path \<noteq> 0x20" "0 \<notin> set data"
  shows "\<exists>bytes. send_path 0 9 (recv_into (p, 1, readfile_line path) (recv_into (p, 1, writefile_line path data) v)) s =
      Inr (u_send 7 0 bytes s)
    \<and> asks_read (recv_into (3, 0, bytes) buf) (path @ last path # 0x20 # data)"
proof -
  have "0 \<notin> set (path @ last path # 0x20 # data)" using assms(2,3,5) last_in_set by fastforce
  note a = received_read[OF this, of 3 _ buf]
  show ?thesis using readfile_after_writefile[OF assms(1,2,4), of p s] a by fastforce
qed

end
